(* ===== verification/Prelude.thy ===== *)
theory Prelude
  imports Main "HOL-Library.Multiset"
begin

text \<open>
  Shared vocabulary of the development: the result type of code that may throw or run into
  undefined behaviour, the loop combinator over such results, and the generic lemmas on
  lists that several components use.

  A C++ expression of type \<open>T\<close> is modelled as a value of type \<open>T res\<close>:
  \<^item> \<open>Inr v\<close>: it evaluates to \<open>v\<close>;
  \<^item> \<open>Inl (Throw e)\<close>: it throws the exception \<open>e\<close>;
  \<^item> \<open>Inl Undef\<close>: its behaviour is undefined (a dangling pointer is dereferenced, a vector is
    indexed out of range, a precondition of a library container is broken). Nothing catches it.
\<close>

section \<open>Results\<close>

text \<open>The exceptions the sources throw or let pass, with their message.\<close>

datatype exn =
    Invalid_argument string
  | Out_of_range string
  | Runtime_error string
  | Logic_error string
  | System_error string
  | Bad_function_call

fun what :: "exn \<Rightarrow> string" where
  "what (Invalid_argument m) = m"
| "what (Out_of_range m) = m"
| "what (Runtime_error m) = m"
| "what (Logic_error m) = m"
| "what (System_error m) = m"
| "what Bad_function_call = ''bad_function_call''"

datatype fault = Throw exn | Undef

type_synonym 'a res = "fault + 'a"

named_theorems res_simps "evaluation of sequenced results"

definition bind_res :: "'a res \<Rightarrow> ('a \<Rightarrow> 'b res) \<Rightarrow> 'b res" where
  "bind_res m f = (case m of Inl e \<Rightarrow> Inl e | Inr x \<Rightarrow> f x)"

lemma bind_res_simps [simp, res_simps]:
  "bind_res (Inr x) f = f x"
  "bind_res (Inl e) f = Inl e"
  by (simp_all add: bind_res_def)

lemma bind_res_return [simp]: "bind_res m Inr = m"
  by (cases m) simp_all

lemma bind_res_assoc: "bind_res (bind_res m f) g = bind_res m (\<lambda>x. bind_res (f x) g)"
  by (cases m) simp_all

lemma bind_res_Inr_iff:
  "bind_res m f = Inr y \<longleftrightarrow> (\<exists>x. m = Inr x \<and> f x = Inr y)"
  by (cases m) simp_all

lemma bind_res_cong [fundef_cong]:
  "m = m' \<Longrightarrow> (\<And>x. m' = Inr x \<Longrightarrow> f x = f' x) \<Longrightarrow> bind_res m f = bind_res m' f'"
  by (cases m') simp_all

text \<open>\<open>for (x : xs) s = f(s, x)\<close>, left as soon as a round throws.\<close>

primrec fold_res :: "('s \<Rightarrow> 'a \<Rightarrow> 's res) \<Rightarrow> 's \<Rightarrow> 'a list \<Rightarrow> 's res" where
  "fold_res f s [] = Inr s"
| "fold_res f s (x # xs) = bind_res (f s x) (\<lambda>s'. fold_res f s' xs)"

lemma fold_res_append:
  "fold_res f s (xs @ ys) = bind_res (fold_res f s xs) (\<lambda>s'. fold_res f s' ys)"
  by (induction xs arbitrary: s) (simp_all add: bind_res_assoc)

lemma fold_res_pure: "fold_res (\<lambda>s x. Inr (f s x)) s xs = Inr (foldl f s xs)"
  by (induction xs arbitrary: s) simp_all

lemma fold_res_map: "fold_res f s (map g xs) = fold_res (\<lambda>s x. f s (g x)) s xs"
  by (induction xs arbitrary: s) simp_all

text \<open>An invariant of the body is an invariant of the loop.\<close>

lemma fold_res_invariant:
  assumes "fold_res f s xs = Inr s'" and "P s"
    and "\<And>s x s'. x \<in> set xs \<Longrightarrow> P s \<Longrightarrow> f s x = Inr s' \<Longrightarrow> P s'"
  shows "P s'"
  using assms
  by (induction xs arbitrary: s) (auto simp: bind_res_Inr_iff)

section \<open>Lists\<close>

lemma foldl_snoc: "foldl (\<lambda>a x. a @ [x]) ys xs = ys @ xs"
  by (induction xs arbitrary: ys) simp_all

lemma last_Cons_nonempty [simp]: "xs \<noteq> [] \<Longrightarrow> last (x # xs) = last xs"
  by simp

lemma nth_concat_map_upt: "map (\<lambda>i. xs ! i) [0..<length xs] = xs"
  by (rule map_nth)

text \<open>Reading a list cyclically from any position, for as long as it is, gives each element once.\<close>

lemma mset_rotate: "mset (rotate n xs) = mset xs"
proof (induction n)
  case (Suc n)
  have "mset (rotate1 ys) = mset ys" for ys :: "'a list" by (cases ys) simp_all
  with Suc show ?case by simp
qed simp

lemma mset_cycle: "mset (map (\<lambda>i. xs ! ((n + i) mod length xs)) [0..<length xs]) = mset xs"
proof -
  have "map (\<lambda>i. xs ! ((n + i) mod length xs)) [0..<length xs] = rotate n xs"
    by (rule nth_equalityI) (simp_all add: nth_rotate)
  then show ?thesis by (simp only: mset_rotate)
qed

section \<open>Unordered maps\<close>

text \<open>A \<open>std::unordered_map\<close> as its pairs, in iteration order; \<open>find\<close> is \<^term>\<open>map_of\<close>.\<close>

type_synonym ('k, 'v) umap = "('k \<times> 'v) list"

text \<open>\<open>m[k] = v\<close> on an \<open>unordered_map\<close>: replace the value of \<open>k\<close>, or add the pair.\<close>

fun umap_assign :: "('k, 'v) umap \<Rightarrow> 'k \<Rightarrow> 'v \<Rightarrow> ('k, 'v) umap" where
  "umap_assign [] k v = [(k, v)]"
| "umap_assign (kv # m) k v = (if fst kv = k then (k, v) # m else kv # umap_assign m k v)"

lemma map_of_umap_assign: "map_of (umap_assign m k v) = (map_of m)(k \<mapsto> v)"
  by (induction m) (auto simp: fun_eq_iff)

lemma umap_assign_keys: "fst ` set (umap_assign m k v) = insert k (fst ` set m)"
  by (induction m) auto

lemma distinct_umap_assign: "distinct (map fst m) \<Longrightarrow> distinct (map fst (umap_assign m k v))"
  by (induction m) (auto simp: umap_assign_keys)

end
