(* ===== verification/Cpp_String.thy ===== *)
theory Cpp_String
  imports Prelude
begin

text \<open>
  The operations of \<open>std::string\<close> the sources use. A string is a list of bytes
  (\<open>char list\<close>). A position of type \<open>size_t\<close> is \<open>At n\<close> or the distinguished value
  \<open>Npos\<close> (\<open>std::string::npos\<close>), the largest value of the type, which is no position of any
  string; positions are ordered accordingly.
\<close>

section \<open>Positions\<close>

datatype pos = At nat | Npos

instantiation pos :: linorder
begin

fun less_eq_pos :: "pos \<Rightarrow> pos \<Rightarrow> bool" where
  "less_eq_pos (At m) (At n) = (m \<le> n)"
| "less_eq_pos Npos (At n) = False"
| "less_eq_pos p Npos = True"

definition less_pos :: "pos \<Rightarrow> pos \<Rightarrow> bool" where
  "less_pos p q = (p \<le> q \<and> \<not> q \<le> (p :: pos))"

instance
proof
  fix p q r :: pos
  show "(p < q) = (p \<le> q \<and> \<not> q \<le> p)" by (rule less_pos_def)
  show "p \<le> p" by (cases p) simp_all
  show "p \<le> q \<Longrightarrow> q \<le> r \<Longrightarrow> p \<le> r" by (cases p; cases q; cases r) simp_all
  show "p \<le> q \<Longrightarrow> q \<le> p \<Longrightarrow> p = q" by (cases p; cases q) simp_all
  show "p \<le> q \<or> q \<le> p" by (cases p; cases q) auto
qed

end

text \<open>\<open>p - q\<close> and \<open>p + 1\<close> on \<open>size_t\<close> positions; a difference below zero wraps around.\<close>

fun pos_minus :: "pos \<Rightarrow> pos \<Rightarrow> pos" where
  "pos_minus (At n) (At p) = (if p \<le> n then At (n - p) else At (n + 2 ^ 64 - p))"
| "pos_minus p q = Npos"

section \<open>Searching\<close>

text \<open>The first position from \<open>i\<close> on whose character satisfies \<open>P\<close>; \<open>s\<close> is what is left there.\<close>

fun scan :: "(char \<Rightarrow> bool) \<Rightarrow> string \<Rightarrow> nat \<Rightarrow> pos" where
  "scan P [] i = Npos"
| "scan P (c # cs) i = (if P c then At i else scan P cs (Suc i))"

definition find_if_from :: "(char \<Rightarrow> bool) \<Rightarrow> string \<Rightarrow> pos \<Rightarrow> pos" where
  "find_if_from P s p = (case p of Npos \<Rightarrow> Npos | At i \<Rightarrow> scan P (drop i s) i)"

text \<open>\<open>s.find(c, p)\<close>, \<open>s.find_first_of(chars, p)\<close> and \<open>s.substr(p, n)\<close>.\<close>

definition string_find :: "string \<Rightarrow> char \<Rightarrow> pos \<Rightarrow> pos" where
  "string_find s c p = find_if_from (\<lambda>x. x = c) s p"

definition string_find_first_of :: "string \<Rightarrow> string \<Rightarrow> pos \<Rightarrow> pos" where
  "string_find_first_of s cs p = find_if_from (\<lambda>x. x \<in> set cs) s p"

definition string_substr :: "string \<Rightarrow> pos \<Rightarrow> pos \<Rightarrow> string res" where
  "string_substr s p n =
     (case p of
        Npos \<Rightarrow> Inl (Throw (Out_of_range ''basic_string::substr''))
      | At i \<Rightarrow>
          if length s < i then Inl (Throw (Out_of_range ''basic_string::substr''))
          else Inr (case n of Npos \<Rightarrow> drop i s | At k \<Rightarrow> take k (drop i s)))"

lemma scan_shift: "scan P s (i + k) = (case scan P s i of Npos \<Rightarrow> Npos | At j \<Rightarrow> At (j + k))"
  by (induction s arbitrary: i) (simp_all flip: add_Suc)

lemma scan_Npos_iff: "scan P s i = Npos \<longleftrightarrow> (\<forall>c\<in>set s. \<not> P c)"
  by (induction s arbitrary: i) simp_all

lemma scan_At_bounds: "scan P s i = At j \<Longrightarrow> i \<le> j \<and> j < i + length s"
  by (induction s arbitrary: i) (fastforce split: if_splits)+

lemma scan_At_split:
  "scan P s i = At j \<Longrightarrow>
     (\<forall>c\<in>set (take (j - i) s). \<not> P c) \<and> P (s ! (j - i)) \<and> j - i < length s"
proof (induction s arbitrary: i)
  case (Cons c cs)
  show ?case
  proof (cases "P c")
    case False
    with Cons.prems have "scan P cs (Suc i) = At j" by simp
    with Cons.IH [of "Suc i"] scan_At_bounds [of P cs "Suc i" j] False show ?thesis
      by (auto simp: take_Cons' nth_Cons' Suc_diff_le)
  qed (use Cons.prems in simp)
qed simp

lemma find_if_from_Npos [simp]: "find_if_from P s Npos = Npos"
  by (simp add: find_if_from_def)

lemma find_if_from_At_bounds:
  "find_if_from P s (At i) = At j \<Longrightarrow> i \<le> j \<and> j < length s"
  using scan_At_bounds [of P "drop i s" i j] by (auto simp: find_if_from_def)

text \<open>A search never goes backwards.\<close>

lemma find_if_from_mono: "p \<le> find_if_from P s p"
  using find_if_from_At_bounds [of P s _ _] scan_At_bounds
  by (cases p; cases "find_if_from P s p") auto

end
