(* ===== verification/Delim_Iter.thy ===== *)
theory Delim_Iter
  imports Cpp_String
begin

text \<open>
  The two delimiter iterators of the code (\<open>PathComponents::Iterator\<close> and
  \<open>QueryString::Iterator\<close>) are the same state machine over a pair of positions; they differ
  in the characters that separate items and in what dereferencing makes of an item. This
  theory holds the state of the iterator, the specification of what the items of a string
  are (\<open>pieces\<close>: split at every separator, drop the last item when it is empty), and the
  locale in which one proof shows, for both, that a range-based \<open>for\<close> loop visits exactly the
  pieces, in order, terminates and never throws.
\<close>

section \<open>Specification: the pieces of a string\<close>

fun split_on :: "(char \<Rightarrow> bool) \<Rightarrow> string \<Rightarrow> string list" where
  "split_on sep [] = [[]]"
| "split_on sep (c # cs) =
     (if sep c then [] # split_on sep cs
      else (c # hd (split_on sep cs)) # tl (split_on sep cs))"

definition pieces :: "(char \<Rightarrow> bool) \<Rightarrow> string \<Rightarrow> string list" where
  "pieces sep s =
     (let ps = split_on sep s in if last ps = [] then butlast ps else ps)"

text \<open>The inverse: items joined with a separator character between them.\<close>

fun join_with :: "char \<Rightarrow> string list \<Rightarrow> string" where
  "join_with d [] = []"
| "join_with d [p] = p"
| "join_with d (p # q # ps) = p @ d # join_with d (q # ps)"

lemma split_on_not_Nil [simp]: "split_on sep s \<noteq> []"
  by (cases s) simp_all

lemma split_on_code [code]:
  "split_on sep [] = [[]]"
  "split_on sep (c # cs) =
     (case split_on sep cs of
        [] \<Rightarrow> [[c]]
      | p # ps \<Rightarrow> if sep c then [] # p # ps else (c # p) # ps)"
proof -
  show "split_on sep (c # cs) =
     (case split_on sep cs of
        [] \<Rightarrow> [[c]]
      | p # ps \<Rightarrow> if sep c then [] # p # ps else (c # p) # ps)"
    using split_on_not_Nil [of sep cs] by (cases "split_on sep cs") simp_all
qed simp

lemma split_on_no_sep: "p \<in> set (split_on sep s) \<Longrightarrow> c \<in> set p \<Longrightarrow> \<not> sep c"
proof (induction s arbitrary: p)
  case (Cons d s)
  have "split_on sep s = hd (split_on sep s) # tl (split_on sep s)" by simp
  then have "set (split_on sep s) = insert (hd (split_on sep s)) (set (tl (split_on sep s)))"
    by (metis list.simps(15))
  with Cons show ?case by (fastforce split: if_splits)
qed simp

lemma split_on_append_sep:
  "\<forall>c\<in>set p. \<not> sep c \<Longrightarrow> sep d \<Longrightarrow> split_on sep (p @ d # s) = p # split_on sep s"
  by (induction p) simp_all

lemma split_on_no_seps: "\<forall>c\<in>set p. \<not> sep c \<Longrightarrow> split_on sep p = [p]"
  by (induction p) simp_all

lemma pieces_Nil [simp]: "pieces sep [] = []"
  by (simp add: pieces_def)

lemma pieces_append_sep:
  "\<forall>c\<in>set p. \<not> sep c \<Longrightarrow> sep d \<Longrightarrow> pieces sep (p @ d # s) = p # pieces sep s"
  by (simp add: pieces_def split_on_append_sep Let_def)

lemma pieces_no_seps: "\<forall>c\<in>set p. \<not> sep c \<Longrightarrow> p \<noteq> [] \<Longrightarrow> pieces sep p = [p]"
  by (simp add: pieces_def split_on_no_seps)

lemma pieces_no_sep: "p \<in> set (pieces sep s) \<Longrightarrow> c \<in> set p \<Longrightarrow> \<not> sep c"
  by (auto simp: pieces_def Let_def split: if_splits dest: in_set_butlastD split_on_no_sep)

text \<open>Reading back what was joined: items without separators, the last one not empty.\<close>

lemma pieces_join_with:
  assumes "\<forall>p\<in>set ps. \<forall>c\<in>set p. \<not> sep c" and "sep d" and "ps \<noteq> [] \<Longrightarrow> last ps \<noteq> []"
  shows "pieces sep (join_with d ps) = ps"
  using assms
proof (induction d ps rule: join_with.induct)
  case (2 d p)
  then show ?case by (simp add: pieces_no_seps)
next
  case (3 d p q ps)
  then show ?case by (simp add: pieces_append_sep)
qed simp

lemma join_with_split_on:
  "join_with d (split_on (\<lambda>c. c = d) s) = s"
proof (induction s)
  case (Cons c s)
  obtain p ps where ps: "split_on (\<lambda>c. c = d) s = p # ps"
    by (metis split_on_not_Nil list.exhaust)
  with Cons show ?case by (cases ps) auto
qed simp

lemma join_with_butlast_Nil:
  "ps \<noteq> [] \<Longrightarrow> last ps = [] \<Longrightarrow> butlast ps \<noteq> [] \<Longrightarrow>
     join_with d ps = join_with d (butlast ps) @ [d]"
proof (induction d ps rule: join_with.induct)
  case (3 d p q ps)
  then show ?case by (cases ps) auto
qed simp_all

text \<open>Joining the pieces loses at most one trailing separator.\<close>

lemma join_with_pieces:
  "join_with d (pieces (\<lambda>c. c = d) s) = s \<or> join_with d (pieces (\<lambda>c. c = d) s) @ [d] = s"
proof -
  let ?ps = "split_on (\<lambda>c. c = d) s"
  consider "last ?ps \<noteq> []" | "last ?ps = []" "butlast ?ps = []" | "last ?ps = []" "butlast ?ps \<noteq> []"
    by blast
  then show ?thesis
  proof cases
    case 2
    then have "?ps = [[]]"
      by (metis append_butlast_last_id append_Nil split_on_not_Nil)
    then show ?thesis using join_with_split_on [of d s] by (simp add: pieces_def)
  next
    case 3
    then show ?thesis
      using join_with_split_on [of d s] join_with_butlast_Nil [of ?ps d] by (simp add: pieces_def)
  qed (simp add: pieces_def join_with_split_on)
qed

text \<open>One trailing separator is ignored.\<close>

lemma pieces_snoc_sep:
  "s \<noteq> [] \<Longrightarrow> \<not> sep (last s) \<Longrightarrow> sep d \<Longrightarrow> pieces sep (s @ [d]) = pieces sep s"
proof (induction s rule: length_induct)
  case (1 s)
  show ?case
  proof (cases "\<forall>c\<in>set s. \<not> sep c")
    case True
    with "1.prems" show ?thesis
      using pieces_append_sep [of s sep d "[]"] by (simp add: pieces_no_seps)
  next
    case False
    then obtain p e q where s: "s = p @ e # q" "sep e" "\<forall>c\<in>set p. \<not> sep c"
      using split_list_first_prop [of s sep] by blast
    with "1.prems" have q: "q \<noteq> []" by auto
    with s "1.prems" have "pieces sep (q @ [d]) = pieces sep q"
      by (intro "1.IH" [rule_format]) auto
    with s show ?thesis by (simp add: pieces_append_sep)
  qed
qed

section \<open>The iterator\<close>

text \<open>
  \<open>psep_\<close> is the position where the current item starts, \<open>nsep_\<close> the position of the separator
  that ends it.
\<close>

record piter =
  psep :: pos
  nsep :: pos

definition size_t_succ :: "pos \<Rightarrow> pos" where
  "size_t_succ p = (case p of At n \<Rightarrow> At (Suc n) | Npos \<Rightarrow> At 0)"

lemma size_t_succ_At [simp]: "size_t_succ (At n) = At (Suc n)"
  by (simp add: size_t_succ_def)

text \<open>A bound on the rounds that remain: every round moves \<open>nsep\<close> towards the end.\<close>

definition rounds_left :: "string \<Rightarrow> piter \<Rightarrow> nat" where
  "rounds_left s it =
     (case nsep it of Npos \<Rightarrow> (if psep it = Npos then 0 else 1)
                    | At n \<Rightarrow> 2 + (length s - n))"

section \<open>The shared behaviour\<close>

text \<open>
  \<open>inc\<close>, \<open>deref\<close> and \<open>loop\<close> are a class's \<open>increment\<close>, \<open>dereference\<close> and the range-based
  loop over it (with the loop body as an argument); \<open>sep\<close> says which characters separate and
  \<open>item\<close> what an item is turned into.
\<close>

locale delim_iterator =
  fixes sep :: "char \<Rightarrow> bool"
    and item :: "string \<Rightarrow> 'a"
    and inc :: "string \<Rightarrow> piter \<Rightarrow> piter"
    and deref :: "string \<Rightarrow> piter \<Rightarrow> 'a res"
    and loop :: "string \<Rightarrow> piter \<Rightarrow> ('s \<Rightarrow> 'a \<Rightarrow> 's res) \<Rightarrow> 's \<Rightarrow> 's res"
  assumes inc_first: "inc s \<lparr>psep = Npos, nsep = At k\<rparr> =
      (if s = [] then \<lparr>psep = Npos, nsep = Npos\<rparr>
       else \<lparr>psep = At 0, nsep = find_if_from sep s (At 0)\<rparr>)"
    and inc_middle: "inc s \<lparr>psep = At p, nsep = At k\<rparr> =
      (if Suc k = length s then \<lparr>psep = Npos, nsep = Npos\<rparr>
       else \<lparr>psep = At (Suc k), nsep = find_if_from sep s (At (Suc k))\<rparr>)"
    and inc_last: "inc s \<lparr>psep = At p, nsep = Npos\<rparr> = \<lparr>psep = Npos, nsep = Npos\<rparr>"
    and deref_last: "p \<le> length s \<Longrightarrow>
      deref s \<lparr>psep = At p, nsep = Npos\<rparr> = Inr (item (drop p s))"
    and deref_middle: "p \<le> k \<Longrightarrow> k \<le> length s \<Longrightarrow>
      deref s \<lparr>psep = At p, nsep = At k\<rparr> = Inr (item (take (k - p) (drop p s)))"
    and loop_end: "loop s \<lparr>psep = Npos, nsep = n\<rparr> f st = Inr st"
    and loop_step: "loop s \<lparr>psep = At p, nsep = n\<rparr> f st =
      bind_res (deref s \<lparr>psep = At p, nsep = n\<rparr>)
        (\<lambda>x. bind_res (f st x) (loop s (inc s \<lparr>psep = At p, nsep = n\<rparr>) f))"
begin

lemma loop_end_Inr: "loop s \<lparr>psep = Npos, nsep = n\<rparr> f = Inr"
  by (rule ext) (rule loop_end)

lemma loop_from:
  "i < length s \<Longrightarrow>
     loop s \<lparr>psep = At i, nsep = find_if_from sep s (At i)\<rparr> f st =
       fold_res f st (map item (pieces sep (drop i s)))"
proof (induction "length s - i" arbitrary: i st rule: less_induct)
  case less
  let ?n = "find_if_from sep s (At i)"
  show ?case
  proof (cases ?n)
    case Npos
    then have "\<forall>c\<in>set (drop i s). \<not> sep c"
      by (simp add: find_if_from_def scan_Npos_iff)
    then have "pieces sep (drop i s) = [drop i s]"
      using less.prems by (intro pieces_no_seps) auto
    then show ?thesis
      using Npos less.prems by (simp add: loop_step loop_end_Inr deref_last inc_last)
  next
    case (At k)
    let ?p = "take (k - i) (drop i s)"
    have k: "i \<le> k" "k < length s" "sep (s ! k)" "\<forall>c\<in>set ?p. \<not> sep c"
      using At less.prems scan_At_split [of sep "drop i s" i k]
        find_if_from_At_bounds [of sep s i k] by (auto simp: find_if_from_def)
    have "drop (k - i) (drop i s) = s ! k # drop (Suc k) s"
      using k(1,2) by (simp add: Cons_nth_drop_Suc)
    then have "drop i s = ?p @ s ! k # drop (Suc k) s"
      by (metis append_take_drop_id)
    with k(3,4) have pieces: "pieces sep (drop i s) = ?p # pieces sep (drop (Suc k) s)"
      by (metis pieces_append_sep)
    have "loop s (inc s \<lparr>psep = At i, nsep = At k\<rparr>) f st' =
        fold_res f st' (map item (pieces sep (drop (Suc k) s)))" for st'
      using less.hyps [of "Suc k" st'] k(1,2) less.prems
      by (auto simp: inc_middle loop_end)
    then have rest: "loop s (inc s \<lparr>psep = At i, nsep = At k\<rparr>) f =
        (\<lambda>st'. fold_res f st' (map item (pieces sep (drop (Suc k) s))))"
      by (rule ext)
    show ?thesis
      using k(1,2) by (simp add: At loop_step deref_middle pieces rest)
  qed
qed

theorem loop_pieces:
  "loop s (inc s \<lparr>psep = Npos, nsep = At 0\<rparr>) f st = fold_res f st (map item (pieces sep s))"
  using loop_from [of 0 s f st] by (simp add: inc_first loop_end)

lemma loop_never_fails:
  "(\<And>st x. f st x \<noteq> Inl e) \<Longrightarrow> loop s (inc s \<lparr>psep = Npos, nsep = At 0\<rparr>) f st \<noteq> Inl e"
proof -
  assume "\<And>st x. f st x \<noteq> Inl e"
  then have "fold_res f st xs \<noteq> Inl e" for st xs
  proof (induction xs arbitrary: st)
    case (Cons x xs)
    then show ?case by (cases "f st x") auto
  qed simp
  then show ?thesis by (simp add: loop_pieces)
qed

end

end
