(* ===== verification/Path_Components.thy ===== *)
theory Path_Components
  imports Delim_Iter
begin

text \<open>
  \<open>src/path_components.h\<close>: iteration over the \<open>/\<close>-separated components of a path. The iterator
  is a \<^term>\<open>piter\<close> over the path string; \<open>PathComponents_for\<close> is the range-based loop
  \<open>for (auto const& c : PathComponents(path)) body\<close>. The interpretation \<open>path_iter\<close> of the
  shared iterator locale gives the loop's meaning.
\<close>

section \<open>The iterator of the code\<close>

definition PathComponents_increment :: "string \<Rightarrow> piter \<Rightarrow> piter" where
  "PathComponents_increment path it =
     (let p = (if psep it = Npos \<and> nsep it \<noteq> Npos then At 0
               else if nsep it \<noteq> Npos then size_t_succ (nsep it)
               else nsep it);
          n = string_find path CHR ''/'' p
      in if p = At (length path) then \<lparr>psep = Npos, nsep = Npos\<rparr>
         else \<lparr>psep = p, nsep = n\<rparr>)"

definition PathComponents_equal :: "piter \<Rightarrow> piter \<Rightarrow> bool" where
  "PathComponents_equal a b = (psep a = psep b)"

definition PathComponents_dereference :: "string \<Rightarrow> piter \<Rightarrow> string res" where
  "PathComponents_dereference path it =
     string_substr path (psep it)
       (if nsep it \<noteq> Npos then pos_minus (nsep it) (psep it) else nsep it)"

definition PathComponents_begin :: "string \<Rightarrow> piter" where
  "PathComponents_begin path = PathComponents_increment path \<lparr>psep = Npos, nsep = At 0\<rparr>"

definition PathComponents_end :: piter where
  "PathComponents_end = \<lparr>psep = Npos, nsep = Npos\<rparr>"

text \<open>The loop ends from every state of the iterator: \<open>nsep\<close> moves on in every round.\<close>

lemma PathComponents_increment_rounds:
  "psep it \<noteq> Npos \<Longrightarrow> rounds_left path (PathComponents_increment path it) < rounds_left path it"
  using find_if_from_At_bounds [of "\<lambda>c. c = CHR ''/''" path "Suc (case nsep it of At n \<Rightarrow> n | Npos \<Rightarrow> 0)"]
  by (cases "nsep it")
     (auto simp: PathComponents_increment_def rounds_left_def string_find_def Let_def split: pos.splits)

function PathComponents_for ::
    "string \<Rightarrow> piter \<Rightarrow> ('s \<Rightarrow> string \<Rightarrow> 's res) \<Rightarrow> 's \<Rightarrow> 's res" where
  "PathComponents_for path it body st =
     (if PathComponents_equal it PathComponents_end then Inr st
      else bind_res (PathComponents_dereference path it)
             (\<lambda>c. bind_res (body st c)
               (\<lambda>st'. PathComponents_for path (PathComponents_increment path it) body st')))"
  by pat_completeness auto
termination
  by (relation "measure (\<lambda>(path, it, body, st). rounds_left path it)")
     (auto simp: PathComponents_equal_def PathComponents_end_def
       intro: PathComponents_increment_rounds)

declare PathComponents_for.simps [simp del]

section \<open>What the loop does\<close>

abbreviation is_slash :: "char \<Rightarrow> bool" where
  "is_slash \<equiv> (\<lambda>c. c = CHR ''/'')"

interpretation path_iter: delim_iterator is_slash "\<lambda>s. s"
  PathComponents_increment PathComponents_dereference PathComponents_for
proof unfold_locales
  show "PathComponents_increment s \<lparr>psep = Npos, nsep = At k\<rparr> =
      (if s = [] then \<lparr>psep = Npos, nsep = Npos\<rparr>
       else \<lparr>psep = At 0, nsep = find_if_from is_slash s (At 0)\<rparr>)" for s k
    by (simp add: PathComponents_increment_def string_find_def Let_def)
  show "PathComponents_increment s \<lparr>psep = At p, nsep = At k\<rparr> =
      (if Suc k = length s then \<lparr>psep = Npos, nsep = Npos\<rparr>
       else \<lparr>psep = At (Suc k), nsep = find_if_from is_slash s (At (Suc k))\<rparr>)" for s p k
    by (simp add: PathComponents_increment_def string_find_def Let_def)
  show "PathComponents_increment s \<lparr>psep = At p, nsep = Npos\<rparr> =
      \<lparr>psep = Npos, nsep = Npos\<rparr>" for s p
    by (simp add: PathComponents_increment_def string_find_def Let_def)
  show "p \<le> length s \<Longrightarrow> PathComponents_dereference s \<lparr>psep = At p, nsep = Npos\<rparr> =
      Inr (drop p s)" for s p
    by (simp add: PathComponents_dereference_def string_substr_def)
  show "p \<le> k \<Longrightarrow> k \<le> length s \<Longrightarrow>
      PathComponents_dereference s \<lparr>psep = At p, nsep = At k\<rparr> = Inr (take (k - p) (drop p s))"
    for s p k
    by (simp add: PathComponents_dereference_def string_substr_def)
  show "PathComponents_for s \<lparr>psep = Npos, nsep = n\<rparr> f st = Inr st" for s n f and st :: 's
    by (simp add: PathComponents_for.simps PathComponents_equal_def PathComponents_end_def)
  show "PathComponents_for s \<lparr>psep = At p, nsep = n\<rparr> f st =
      bind_res (PathComponents_dereference s \<lparr>psep = At p, nsep = n\<rparr>)
        (\<lambda>x. bind_res (f st x)
          (PathComponents_for s (PathComponents_increment s \<lparr>psep = At p, nsep = n\<rparr>) f))"
    for s p n f and st :: 's
    by (subst PathComponents_for.simps) (simp add: PathComponents_equal_def PathComponents_end_def)
qed

text \<open>The components of a path, as the loop visits them.\<close>

definition path_components :: "string \<Rightarrow> string list" where
  "path_components path = pieces is_slash path"

lemma PathComponents_for_eq:
  "PathComponents_for path (PathComponents_begin path) body st =
     fold_res body st (path_components path)"
  using path_iter.loop_pieces [of path body st]
  by (simp add: PathComponents_begin_def path_components_def)

lemma path_components_simps [simp]:
  "path_components [] = []"
  by (simp add: path_components_def)

lemma path_components_no_slash: "c \<in> set (path_components p) \<Longrightarrow> CHR ''/'' \<notin> set c"
  unfolding path_components_def using pieces_no_sep by blast

text \<open>A trailing slash is ignored.\<close>

lemma path_components_trailing_slash:
  "p \<noteq> [] \<Longrightarrow> last p \<noteq> CHR ''/'' \<Longrightarrow> path_components (p @ ''/'') = path_components p"
  by (simp add: path_components_def pieces_snoc_sep)

lemma path_components_examples:
  "path_components ''/foo/bar'' = ['''', ''foo'', ''bar'']"
  "path_components ''a/b/c/'' = [''a'', ''b'', ''c'']"
  "path_components ''/'' = ['''']"
  "path_components ''a//b'' = [''a'', '''', ''b'']"
  by (simp_all add: path_components_def pieces_def)

section \<open>Properties\<close>

text \<open>C14: A range-based loop over the components of a path terminates, never leaves the string, and
  runs its body on exactly the components of the path in order; these hold no slash, and joined
  with slashes they are the path again, up to one trailing slash.\<close>

theorem path_loop_correct:
  "PathComponents_for p (PathComponents_begin p) body st = fold_res body st (path_components p) \<and>
   CHR ''/'' \<notin> \<Union> (set ` set (path_components p)) \<and>
   p \<in> {join_with CHR ''/'' (path_components p), join_with CHR ''/'' (path_components p) @ ''/''}"
proof -
  have "CHR ''/'' \<notin> \<Union> (set ` set (path_components p))"
    using path_components_no_slash by blast
  moreover have "p \<in> {join_with CHR ''/'' (path_components p), join_with CHR ''/'' (path_components p) @ ''/''}"
    using join_with_pieces [of "CHR ''/''" p] by (auto simp: path_components_def)
  ultimately show ?thesis by (simp only: PathComponents_for_eq simp_thms)
qed

text \<open>Components without slashes, the last one not empty, joined to a path with slashes, are
  recovered by the loop.\<close>

theorem path_round_trip:
  assumes "\<forall>c\<in>set cs. CHR ''/'' \<notin> set c" and "cs \<noteq> [] \<Longrightarrow> last cs \<noteq> []"
  shows "PathComponents_for (join_with CHR ''/'' cs) (PathComponents_begin (join_with CHR ''/'' cs))
    (\<lambda>acc c. Inr (acc @ [c])) [] = Inr cs"
proof -
  have "path_components (join_with CHR ''/'' cs) = cs"
    unfolding path_components_def using assms by (intro pieces_join_with) auto
  then show ?thesis by (simp add: PathComponents_for_eq fold_res_pure foldl_snoc)
qed

theorem path_round_trip_witness:
  "PathComponents_for ''/foo/bar'' (PathComponents_begin ''/foo/bar'') (\<lambda>acc c. Inr (acc @ [c])) [] =
     Inr ['''', ''foo'', ''bar'']"
  using path_round_trip [of "['''', ''foo'', ''bar'']"] by simp

end
