(* ===== verification/Query_String.thy ===== *)
theory Query_String
  imports Delim_Iter
begin

text \<open>
  \<open>src/query_string.h\<close>: iteration over the \<open>key=value\<close> pairs of a query string, separated by
  \<open>&\<close> or \<open>;\<close>. The iterator has the same states as the path iterator; dereferencing splits the
  item at its first \<open>=\<close>. The interpretation \<open>query_iter\<close> gives the meaning of the loop.
\<close>

section \<open>The iterator of the code\<close>

definition QueryString_increment :: "string \<Rightarrow> piter \<Rightarrow> piter" where
  "QueryString_increment query it =
     (let p = (if psep it = Npos \<and> nsep it \<noteq> Npos then At 0
               else if nsep it \<noteq> Npos then size_t_succ (nsep it)
               else nsep it);
          n = string_find_first_of query ''&;'' p
      in if p = At (length query) then \<lparr>psep = Npos, nsep = Npos\<rparr>
         else \<lparr>psep = p, nsep = n\<rparr>)"

definition QueryString_equal :: "piter \<Rightarrow> piter \<Rightarrow> bool" where
  "QueryString_equal a b = (psep a = psep b)"

definition splitKeyValue :: "string \<Rightarrow> (string \<times> string) res" where
  "splitKeyValue params =
     (let p = string_find params CHR ''='' (At 0)
      in if p = Npos then Inr (params, '''')
         else bind_res (string_substr params (At 0) p)
           (\<lambda>k. bind_res (string_substr params (size_t_succ p) Npos)
             (\<lambda>v. Inr (k, v))))"

definition QueryString_dereference :: "string \<Rightarrow> piter \<Rightarrow> (string \<times> string) res" where
  "QueryString_dereference query it =
     bind_res (string_substr query (psep it)
       (if nsep it \<noteq> Npos then pos_minus (nsep it) (psep it) else nsep it))
     splitKeyValue"

definition QueryString_begin :: "string \<Rightarrow> piter" where
  "QueryString_begin query = QueryString_increment query \<lparr>psep = Npos, nsep = At 0\<rparr>"

definition QueryString_end :: piter where
  "QueryString_end = \<lparr>psep = Npos, nsep = Npos\<rparr>"

lemma QueryString_increment_rounds:
  "psep it \<noteq> Npos \<Longrightarrow> rounds_left query (QueryString_increment query it) < rounds_left query it"
  using find_if_from_At_bounds [of "\<lambda>c. c \<in> set ''&;''" query "Suc (case nsep it of At n \<Rightarrow> n | Npos \<Rightarrow> 0)"]
  by (cases "nsep it")
     (auto simp: QueryString_increment_def rounds_left_def string_find_first_of_def
       Let_def split: pos.splits)

function QueryString_for ::
    "string \<Rightarrow> piter \<Rightarrow> ('s \<Rightarrow> string \<times> string \<Rightarrow> 's res) \<Rightarrow> 's \<Rightarrow> 's res" where
  "QueryString_for query it body st =
     (if QueryString_equal it QueryString_end then Inr st
      else bind_res (QueryString_dereference query it)
             (\<lambda>kv. bind_res (body st kv)
               (\<lambda>st'. QueryString_for query (QueryString_increment query it) body st')))"
  by pat_completeness auto
termination
  by (relation "measure (\<lambda>(query, it, body, st). rounds_left query it)")
     (auto simp: QueryString_equal_def QueryString_end_def intro: QueryString_increment_rounds)

declare QueryString_for.simps [simp del]

section \<open>What the loop does\<close>

text \<open>The specification of an item: what stands before the first \<open>=\<close>, and what after it.\<close>

fun key_value :: "string \<Rightarrow> string \<times> string" where
  "key_value [] = ([], [])"
| "key_value (c # cs) =
     (if c = CHR ''='' then ([], cs) else apfst (Cons c) (key_value cs))"

lemma key_value_scan:
  "scan (\<lambda>c. c = CHR ''='') s i =
     (if CHR ''='' \<in> set s then At (i + length (fst (key_value s))) else Npos)"
  by (induction s arbitrary: i) auto

lemma key_value_fst: "fst (key_value s) = take (length (fst (key_value s))) s"
  by (induction s) auto

lemma key_value_snd: "CHR ''='' \<in> set s \<Longrightarrow> snd (key_value s) = drop (Suc (length (fst (key_value s)))) s"
  by (induction s) auto

lemma key_value_no_equals: "CHR ''='' \<notin> set s \<Longrightarrow> key_value s = (s, [])"
  by (induction s) auto

lemma key_value_length: "CHR ''='' \<in> set s \<Longrightarrow> length (fst (key_value s)) < length s"
  by (induction s) auto

lemma splitKeyValue_eq: "splitKeyValue s = Inr (key_value s)"
proof (cases "CHR ''='' \<in> set s")
  case True
  then show ?thesis
    using key_value_length [OF True] key_value_fst [of s] key_value_snd [OF True]
    by (simp add: splitKeyValue_def string_find_def find_if_from_def key_value_scan
        string_substr_def prod_eq_iff)
next
  case False
  then show ?thesis
    by (simp add: splitKeyValue_def string_find_def find_if_from_def key_value_scan
        key_value_no_equals)
qed

abbreviation is_query_sep :: "char \<Rightarrow> bool" where
  "is_query_sep \<equiv> (\<lambda>c. c \<in> set ''&;'')"

interpretation query_iter: delim_iterator is_query_sep key_value
  QueryString_increment QueryString_dereference QueryString_for
proof unfold_locales
  show "QueryString_increment s \<lparr>psep = Npos, nsep = At k\<rparr> =
      (if s = [] then \<lparr>psep = Npos, nsep = Npos\<rparr>
       else \<lparr>psep = At 0, nsep = find_if_from is_query_sep s (At 0)\<rparr>)" for s k
    by (simp add: QueryString_increment_def string_find_first_of_def Let_def)
  show "QueryString_increment s \<lparr>psep = At p, nsep = At k\<rparr> =
      (if Suc k = length s then \<lparr>psep = Npos, nsep = Npos\<rparr>
       else \<lparr>psep = At (Suc k), nsep = find_if_from is_query_sep s (At (Suc k))\<rparr>)" for s p k
    by (simp add: QueryString_increment_def string_find_first_of_def Let_def)
  show "QueryString_increment s \<lparr>psep = At p, nsep = Npos\<rparr> =
      \<lparr>psep = Npos, nsep = Npos\<rparr>" for s p
    by (simp add: QueryString_increment_def string_find_first_of_def Let_def)
  show "p \<le> length s \<Longrightarrow> QueryString_dereference s \<lparr>psep = At p, nsep = Npos\<rparr> =
      Inr (key_value (drop p s))" for s p
    by (simp add: QueryString_dereference_def string_substr_def splitKeyValue_eq)
  show "p \<le> k \<Longrightarrow> k \<le> length s \<Longrightarrow>
      QueryString_dereference s \<lparr>psep = At p, nsep = At k\<rparr> =
        Inr (key_value (take (k - p) (drop p s)))" for s p k
    by (simp add: QueryString_dereference_def string_substr_def splitKeyValue_eq)
  show "QueryString_for s \<lparr>psep = Npos, nsep = n\<rparr> f st = Inr st" for s n f and st :: 's
    by (simp add: QueryString_for.simps QueryString_equal_def QueryString_end_def)
  show "QueryString_for s \<lparr>psep = At p, nsep = n\<rparr> f st =
      bind_res (QueryString_dereference s \<lparr>psep = At p, nsep = n\<rparr>)
        (\<lambda>x. bind_res (f st x)
          (QueryString_for s (QueryString_increment s \<lparr>psep = At p, nsep = n\<rparr>) f))"
    for s p n f and st :: 's
    by (subst QueryString_for.simps) (simp add: QueryString_equal_def QueryString_end_def)
qed

text \<open>The pairs of a query string, as the loop visits them.\<close>

definition query_pairs :: "string \<Rightarrow> (string \<times> string) list" where
  "query_pairs query = map key_value (pieces is_query_sep query)"

lemma QueryString_for_eq:
  "QueryString_for query (QueryString_begin query) body st = fold_res body st (query_pairs query)"
  using query_iter.loop_pieces [of query body st]
  by (simp add: QueryString_begin_def query_pairs_def)

text \<open>Printing pairs as \<open>k=v&k=v\<close> and reading them back.\<close>

definition print_pair :: "string \<times> string \<Rightarrow> string" where
  "print_pair kv = fst kv @ ''='' @ snd kv"

definition print_query :: "(string \<times> string) list \<Rightarrow> string" where
  "print_query kvs = join_with CHR ''&'' (map print_pair kvs)"

lemma key_value_print_pair: "CHR ''='' \<notin> set k \<Longrightarrow> key_value (print_pair (k, v)) = (k, v)"
  by (induction k) (auto simp: print_pair_def)

lemma query_pairs_print_query:
  assumes "\<forall>(k, v)\<in>set kvs. set k \<inter> {CHR ''&'', CHR '';'', CHR ''=''} = {} \<and>
             set v \<inter> {CHR ''&'', CHR '';''} = {}"
  shows "query_pairs (print_query kvs) = kvs"
proof -
  have "pieces is_query_sep (print_query kvs) = map print_pair kvs"
    unfolding print_query_def
  proof (rule pieces_join_with)
    show "\<forall>p\<in>set (map print_pair kvs). \<forall>c\<in>set p. \<not> is_query_sep c"
      using assms by (fastforce simp: print_pair_def)
    show "map print_pair kvs \<noteq> [] \<Longrightarrow> last (map print_pair kvs) \<noteq> []"
      by (simp add: last_map print_pair_def)
  qed simp
  moreover have "map (\<lambda>x. key_value (print_pair x)) kvs = kvs"
    using assms by (intro map_idI) (auto intro!: key_value_print_pair)
  ultimately show ?thesis by (simp add: query_pairs_def comp_def)
qed

lemma key_value_parts:
  "CHR ''='' \<notin> set (fst (key_value s)) \<and> set (fst (key_value s)) \<subseteq> set s \<and> set (snd (key_value s)) \<subseteq> set s"
  by (induction s) auto

section \<open>Properties\<close>

text \<open>C31: A loop over a query string terminates, never throws by itself, and runs its body on the
  pairs of the items between separators, in order; no separator is in a key or a value, and no
  equals sign in a key.\<close>

theorem query_loop_correct:
  "QueryString_for q (QueryString_begin q) body st = fold_res body st (query_pairs q) \<and>
   query_pairs q = map key_value (pieces is_query_sep q) \<and>
   {CHR ''&'', CHR '';'', CHR ''=''} \<inter> \<Union> (set ` fst ` set (query_pairs q)) = {} \<and>
   {CHR ''&'', CHR '';''} \<inter> \<Union> (set ` snd ` set (query_pairs q)) = {}"
proof -
  have "c \<notin> set p" if "p \<in> set (pieces is_query_sep q)" "c \<in> {CHR ''&'', CHR '';''}" for p c
    using pieces_no_sep [OF that(1), of c] that(2) by auto
  then have "{CHR ''&'', CHR '';'', CHR ''=''} \<inter> set (fst (key_value p)) = {} \<and>
      {CHR ''&'', CHR '';''} \<inter> set (snd (key_value p)) = {}" if "p \<in> set (pieces is_query_sep q)" for p
    using that key_value_parts [of p] by fast
  then have "{CHR ''&'', CHR '';'', CHR ''=''} \<inter> \<Union> (set ` fst ` set (query_pairs q)) = {} \<and>
      {CHR ''&'', CHR '';''} \<inter> \<Union> (set ` snd ` set (query_pairs q)) = {}"
    unfolding query_pairs_def set_map by blast
  then show ?thesis by (simp add: QueryString_for_eq query_pairs_def)
qed

text \<open>C30: Pairs whose parts are free of separators (and keys of equals signs), printed as a query
  string, are recovered by the loop, repeated keys included.\<close>

theorem query_round_trip:
  assumes "\<forall>(k, v)\<in>set kvs. set k \<inter> {CHR ''&'', CHR '';'', CHR ''=''} = {} \<and>
             set v \<inter> {CHR ''&'', CHR '';''} = {}"
  shows "QueryString_for (print_query kvs) (QueryString_begin (print_query kvs))
    (\<lambda>acc kv. Inr (acc @ [kv])) [] = Inr kvs"
  by (simp add: QueryString_for_eq fold_res_pure foldl_snoc query_pairs_print_query [OF assms])

theorem query_round_trip_witness:
  "QueryString_for ''a=1&b=x=y&a='' (QueryString_begin ''a=1&b=x=y&a='') (\<lambda>acc kv. Inr (acc @ [kv])) [] =
     Inr [(''a'', ''1''), (''b'', ''x=y''), (''a'', '''')]"
  using query_round_trip [of "[(''a'', ''1''), (''b'', ''x=y''), (''a'', '''')]"]
  by (simp add: print_query_def print_pair_def)

end
