(* ===== verification/Cpp_Integer.thy ===== *)
theory Cpp_Integer
  imports Prelude "HOL-Library.Word"
begin

text \<open>
  The conversions between strings and integers the sources use: the decimal output of an
  integer by a stream, \<open>std::stoll\<close>, and \<open>static_cast<T>\<close> of a \<open>long long\<close> to an integral
  type \<open>T\<close>, with its truncation to the width of \<open>T\<close>.
\<close>

section \<open>Decimal output\<close>

definition digit_char :: "nat \<Rightarrow> char" where
  "digit_char d = char_of (48 + d)"

fun dec_nat :: "nat \<Rightarrow> string" where
  "dec_nat n = (if n < 10 then [digit_char n] else dec_nat (n div 10) @ [digit_char (n mod 10)])"

declare dec_nat.simps [simp del]

definition dec_int :: "int \<Rightarrow> string" where
  "dec_int v = (if v < 0 then CHR ''-'' # dec_nat (nat (- v)) else dec_nat (nat v))"

section \<open>std::stoll\<close>

definition is_digit :: "char \<Rightarrow> bool" where
  "is_digit c = (48 \<le> (of_char c :: nat) \<and> (of_char c :: nat) \<le> 57)"

definition digit_val :: "char \<Rightarrow> nat" where
  "digit_val c = of_char c - 48"

text \<open>\<open>isspace\<close> in the C locale: blank, tab, newline, vertical tab, form feed, carriage return.\<close>

definition is_space :: "char \<Rightarrow> bool" where
  "is_space c = (of_char c \<in> {32, 9, 10, 11, 12, 13 :: nat})"

definition digits_val :: "string \<Rightarrow> nat" where
  "digits_val ds = foldl (\<lambda>v c. 10 * v + digit_val c) 0 ds"

text \<open>The optional sign: whether it is a minus, and what follows it.\<close>

fun sign_of :: "string \<Rightarrow> bool \<times> string" where
  "sign_of [] = (False, [])"
| "sign_of (c # cs) =
     (if c = CHR ''-'' then (True, cs) else if c = CHR ''+'' then (False, cs) else (False, c # cs))"

definition llong_min :: int where "llong_min = - (2 ^ 63)"
definition llong_max :: int where "llong_max = 2 ^ 63 - 1"

text \<open>
  \<open>stoll(s, &pos)\<close>: the value and the position after the last character used. It throws
  \<open>invalid_argument\<close> when there are no digits and \<open>out_of_range\<close> when the value does not fit
  \<open>long long\<close>.
\<close>

definition stoll :: "string \<Rightarrow> (int \<times> nat) res" where
  "stoll s =
     (let (neg, r) = sign_of (dropWhile is_space s);
          ds = takeWhile is_digit r;
          v = (if neg then - int (digits_val ds) else int (digits_val ds))
      in if ds = [] then Inl (Throw (Invalid_argument ''stoll''))
         else if v < llong_min \<or> llong_max < v then Inl (Throw (Out_of_range ''stoll''))
         else Inr (v, length s - length (dropWhile is_digit r)))"

section \<open>static_cast\<close>

text \<open>The integral types: signed and unsigned of a width, and \<open>bool\<close>.\<close>

datatype int_type = SInt nat | UInt nat | Bool

fun static_cast :: "int_type \<Rightarrow> int \<Rightarrow> int" where
  "static_cast (SInt w) v = signed_take_bit (w - 1) v"
| "static_cast (UInt w) v = take_bit w v"
| "static_cast Bool v = (if v = 0 then 0 else 1)"

fun int_type_range :: "int_type \<Rightarrow> int set" where
  "int_type_range (SInt w) = {- (2 ^ (w - 1)) ..< 2 ^ (w - 1)}"
| "int_type_range (UInt w) = {0 ..< 2 ^ w}"
| "int_type_range Bool = {0, 1}"

lemma static_cast_in_range: "static_cast t v \<in> int_type_range t"
  by (cases t)
     (auto simp: signed_take_bit_int_less_exp signed_take_bit_int_greater_eq_minus_exp)

lemma static_cast_id: "v \<in> int_type_range t \<Longrightarrow> static_cast t v = v"
  by (cases t)
     (auto simp: signed_take_bit_int_eq_self_iff take_bit_int_eq_self_iff)

text \<open>The casts are those of machine words.\<close>

lemma static_cast_SInt_word:
  "static_cast (SInt LENGTH('w::len)) v = sint (word_of_int v :: 'w word)"
  by (simp add: signed_of_int)

lemma static_cast_UInt_word:
  "static_cast (UInt LENGTH('w::len)) v = uint (word_of_int v :: 'w word)"
  by (simp add: unsigned_of_int)

section \<open>Reading back what was printed\<close>

lemma of_char_digit_char: "d < 10 \<Longrightarrow> of_char (digit_char d) = (48 + d :: nat)"
  by (simp add: digit_char_def)

lemma is_digit_digit_char: "d < 10 \<Longrightarrow> is_digit (digit_char d)"
  by (simp add: is_digit_def of_char_digit_char)

lemma digit_val_digit_char: "d < 10 \<Longrightarrow> digit_val (digit_char d) = d"
  by (simp add: digit_val_def of_char_digit_char)

lemma dec_nat_digits: "c \<in> set (dec_nat n) \<Longrightarrow> is_digit c"
  by (induction n rule: dec_nat.induct)
     (subst (asm) (2) dec_nat.simps, auto simp: is_digit_digit_char split: if_splits)

lemma dec_nat_not_Nil [simp]: "dec_nat n \<noteq> []"
  by (subst dec_nat.simps) simp

lemma digits_val_snoc: "digits_val (ds @ [c]) = 10 * digits_val ds + digit_val c"
  by (simp add: digits_val_def)

lemma digits_val_dec_nat: "digits_val (dec_nat n) = n"
proof (induction n rule: dec_nat.induct)
  case (1 n)
  show ?case
  proof (cases "n < 10")
    case True
    then show ?thesis
      using digits_val_snoc [of "[]"]
      by (subst dec_nat.simps) (simp add: digit_val_digit_char digits_val_def)
  next
    case False
    with 1 show ?thesis
      by (subst dec_nat.simps) (simp add: digits_val_snoc digit_val_digit_char)
  qed
qed

lemma is_digit_not_space: "is_digit c \<Longrightarrow> \<not> is_space c"
  by (auto simp: is_digit_def is_space_def)

lemma is_digit_not_sign: "is_digit c \<Longrightarrow> c \<noteq> CHR ''-'' \<and> c \<noteq> CHR ''+''"
  by (auto simp: is_digit_def)

lemma sign_of_digits:
  "ds \<noteq> [] \<Longrightarrow> \<forall>c\<in>set ds. is_digit c \<Longrightarrow> sign_of ds = (False, ds)"
  using is_digit_not_sign by (cases ds) auto

lemma stoll_digits:
  assumes "ds \<noteq> []" and "\<forall>c\<in>set ds. is_digit c" and "int (digits_val ds) \<le> llong_max"
  shows "stoll ds = Inr (int (digits_val ds), length ds)"
proof -
  have blank: "dropWhile is_space ds = ds"
    using assms(1,2) is_digit_not_space by (cases ds) auto
  have digits: "takeWhile is_digit ds = ds" "dropWhile is_digit ds = []"
    using assms(2) by auto
  show ?thesis
    using assms(1,3) sign_of_digits [OF assms(1,2)] by (simp add: blank digits stoll_def llong_min_def Let_def)
qed

lemma stoll_minus_digits:
  assumes "ds \<noteq> []" and "\<forall>c\<in>set ds. is_digit c" and "llong_min \<le> - int (digits_val ds)"
  shows "stoll (CHR ''-'' # ds) = Inr (- int (digits_val ds), Suc (length ds))"
proof -
  have digits: "takeWhile is_digit ds = ds" "dropWhile is_digit ds = []"
    using assms(2) by auto
  show ?thesis
    using assms(1,3) by (simp add: digits stoll_def is_space_def llong_max_def Let_def)
qed

lemma stoll_dec_int:
  "llong_min \<le> v \<Longrightarrow> v \<le> llong_max \<Longrightarrow> stoll (dec_int v) = Inr (v, length (dec_int v))"
  using stoll_digits [of "dec_nat (nat v)"] stoll_minus_digits [of "dec_nat (nat (- v))"]
  by (auto simp: dec_int_def digits_val_dec_nat dec_nat_digits)

text \<open>What \<open>stoll\<close> returns always fits \<open>long long\<close>.\<close>

lemma stoll_in_range: "stoll s = Inr (v, p) \<Longrightarrow> llong_min \<le> v \<and> v \<le> llong_max"
  by (auto simp: stoll_def Let_def split: prod.splits if_splits)

section \<open>The texts of integers\<close>

text \<open>The value of digits behind an optional sign.\<close>

definition signed_val :: "string \<Rightarrow> string \<Rightarrow> int" where
  "signed_val sg ds = (if sg = ''-'' then - int (digits_val ds) else int (digits_val ds))"

lemma stoll_text:
  assumes ws: "\<forall>c\<in>set ws. is_space c" and sg: "sg \<in> {'''', ''-'', ''+''}"
    and ds: "ds \<noteq> []" "\<forall>c\<in>set ds. is_digit c" and rest: "rest = [] \<or> \<not> is_digit (hd rest)"
  shows "stoll (ws @ sg @ ds @ rest) =
    (if signed_val sg ds < llong_min \<or> llong_max < signed_val sg ds
     then Inl (Throw (Out_of_range ''stoll''))
     else Inr (signed_val sg ds, length (ws @ sg @ ds)))"
proof -
  have "hd (sg @ ds @ rest) \<in> set sg \<union> set ds"
    using ds(1) by (cases sg; cases ds) auto
  then have "\<not> is_space (hd (sg @ ds @ rest))"
    using sg ds(2) is_digit_not_space by (auto simp: is_space_def)
  then have blank: "dropWhile is_space (ws @ sg @ ds @ rest) = sg @ ds @ rest"
    using ws ds(1) by (cases "sg @ ds @ rest") (simp_all add: dropWhile_append)
  have sign: "sign_of (sg @ ds @ rest) = (sg = ''-'', ds @ rest)"
    using sg ds is_digit_not_sign by (cases ds) auto
  have "takeWhile is_digit rest = []" "dropWhile is_digit rest = rest"
    using rest by (cases rest; simp)+
  then have digits: "takeWhile is_digit (ds @ rest) = ds" "dropWhile is_digit (ds @ rest) = rest"
    using ds(2) by (simp_all add: takeWhile_append dropWhile_append)
  show ?thesis
    using ds(1) by (simp add: stoll_def blank sign digits signed_val_def Let_def)
qed

end
