(* ===== verification/Params.thy ===== *)
theory Params
  imports Query_String Cpp_Integer
begin

text \<open>
  \<open>include/parameter.h\<close>, \<open>src/parameter.cc\<close>, \<open>src/parameter_internal.h\<close>, \<open>include/entity.h\<close> and
  \<open>src/entity.cc\<close>: the values a request handler receives. Path parameters are parsed from
  strings (\<open>StringParam\<close>, \<open>IntParam<T>\<close>); query, post and header parameters are lookups in the
  containers filled from the request.

  A \<open>std::unordered_multimap\<close> is modelled by the sequence of its elements in iteration order.
  Where an inserted element goes among those with the same key is left open by the standard,
  so the insertion operation is a parameter of what fills a multimap; its contract is the
  locale \<open>multimap_insertion\<close>, with one interpretation for each of two known placements.
\<close>

section \<open>Containers\<close>

type_synonym ummap = "(string \<times> string) list"

definition umm_equal_range :: "ummap \<Rightarrow> string \<Rightarrow> ummap" where
  "umm_equal_range m name = filter (\<lambda>kv. fst kv = name) m"

definition umm_eq :: "ummap \<Rightarrow> ummap \<Rightarrow> bool" where
  "umm_eq a b = (mset a = mset b)"

section \<open>Query, post and header parameters\<close>

text \<open>\<open>get\<close> pushes the values of the range of equal keys into a fresh vector.\<close>

definition push_values :: "ummap \<Rightarrow> string list" where
  "push_values rng = foldl (\<lambda>ret it. ret @ [snd it]) [] rng"

record query_params =
  qparams :: ummap

record post_params =
  pparams :: ummap

record header_params =
  hparams :: "(string, string) umap"

definition QueryParamsImpl_get :: "query_params \<Rightarrow> string \<Rightarrow> string list" where
  "QueryParamsImpl_get q name = push_values (umm_equal_range (qparams q) name)"

definition QueryParamsImpl_eq :: "query_params \<Rightarrow> query_params \<Rightarrow> bool" where
  "QueryParamsImpl_eq q r = umm_eq (qparams q) (qparams r)"

definition PostParamsImpl_get :: "post_params \<Rightarrow> string \<Rightarrow> string list" where
  "PostParamsImpl_get q name = push_values (umm_equal_range (pparams q) name)"

definition PostParamsImpl_eq :: "post_params \<Rightarrow> post_params \<Rightarrow> bool" where
  "PostParamsImpl_eq q r = umm_eq (pparams q) (pparams r)"

definition HeaderParamsImpl_get :: "header_params \<Rightarrow> string \<Rightarrow> string" where
  "HeaderParamsImpl_get h name =
     (case map_of (hparams h) name of Some v \<Rightarrow> v | None \<Rightarrow> '''')"

definition HeaderParamsImpl_eq :: "header_params \<Rightarrow> header_params \<Rightarrow> bool" where
  "HeaderParamsImpl_eq h k = (mset (hparams h) = mset (hparams k))"

record entity =
  evalue :: string

definition Entity_of :: "string \<Rightarrow> entity" where
  "Entity_of v = \<lparr>evalue = v\<rparr>"

definition Entity_toString :: "entity \<Rightarrow> string" where
  "Entity_toString e = evalue e"

text \<open>The references of \<open>UriInfo\<close> all point at immutable objects, so they are kept as values.\<close>

record uri_info =
  queryParams :: query_params
  postParams :: post_params
  headerParams :: header_params
  entity :: entity

section \<open>The abstract classes\<close>

text \<open>
  An object seen through one of the abstract classes of \<open>include/parameter.h\<close> is of the class
  the library derives from it, or of one a client derives, of which only the answers of its
  \<open>get\<close> are known. The overridden comparison casts its argument to the library's class without
  a check, which is undefined for an object of another class.
\<close>

datatype query_object = QueryParamsImpl query_params | ForeignQuery "string \<Rightarrow> string list"

datatype post_object = PostParamsImpl post_params | ForeignPost "string \<Rightarrow> string list"

datatype header_object = HeaderParamsImpl header_params | ForeignHeader "string \<Rightarrow> string"

fun QueryParams_get :: "query_object \<Rightarrow> string \<Rightarrow> string list" where
  "QueryParams_get (QueryParamsImpl q) name = QueryParamsImpl_get q name"
| "QueryParams_get (ForeignQuery g) name = g name"

fun PostParams_get :: "post_object \<Rightarrow> string \<Rightarrow> string list" where
  "PostParams_get (PostParamsImpl p) name = PostParamsImpl_get p name"
| "PostParams_get (ForeignPost g) name = g name"

fun HeaderParams_get :: "header_object \<Rightarrow> string \<Rightarrow> string" where
  "HeaderParams_get (HeaderParamsImpl h) name = HeaderParamsImpl_get h name"
| "HeaderParams_get (ForeignHeader g) name = g name"

fun QueryParams_eq :: "query_params \<Rightarrow> query_object \<Rightarrow> bool res" where
  "QueryParams_eq q (QueryParamsImpl r) = Inr (QueryParamsImpl_eq q r)"
| "QueryParams_eq q (ForeignQuery g) = Inl Undef"

fun PostParams_eq :: "post_params \<Rightarrow> post_object \<Rightarrow> bool res" where
  "PostParams_eq p (PostParamsImpl r) = Inr (PostParamsImpl_eq p r)"
| "PostParams_eq p (ForeignPost g) = Inl Undef"

fun HeaderParams_eq :: "header_params \<Rightarrow> header_object \<Rightarrow> bool res" where
  "HeaderParams_eq h (HeaderParamsImpl k) = Inr (HeaderParamsImpl_eq h k)"
| "HeaderParams_eq h (ForeignHeader g) = Inl Undef"

section \<open>Lookups\<close>

lemma push_values_eq [simp]: "push_values m = map snd m"
proof -
  have "foldl (\<lambda>ret it. ret @ [snd it]) acc m = acc @ map snd m" for acc
    by (induction m arbitrary: acc) simp_all
  then show ?thesis by (simp add: push_values_def)
qed

lemma umm_get_mset:
  "mset (push_values (umm_equal_range m name)) =
     image_mset snd (filter_mset (\<lambda>kv. fst kv = name) (mset m))"
  by (simp add: umm_equal_range_def)

text \<open>Equal containers answer every lookup with the same values, up to their order.\<close>

lemma umm_eq_get:
  "umm_eq a b \<Longrightarrow> mset (push_values (umm_equal_range a name)) = mset (push_values (umm_equal_range b name))"
  by (simp only: umm_get_mset umm_eq_def)

text \<open>Objects that compare equal cannot be told apart by lookups through the interface.\<close>

lemma query_objects_equal:
  "QueryParams_eq q obj = Inr True \<Longrightarrow>
     mset (QueryParams_get (QueryParamsImpl q) name) = mset (QueryParams_get obj name)"
  using umm_eq_get by (cases obj) (auto simp: QueryParamsImpl_eq_def QueryParamsImpl_get_def simp del: push_values_eq)

lemma post_objects_equal:
  "PostParams_eq p obj = Inr True \<Longrightarrow>
     mset (PostParams_get (PostParamsImpl p) name) = mset (PostParams_get obj name)"
  using umm_eq_get by (cases obj) (auto simp: PostParamsImpl_eq_def PostParamsImpl_get_def simp del: push_values_eq)

lemma header_objects_equal:
  assumes "HeaderParams_eq h obj = Inr True" "distinct (map fst (hparams h))"
  shows "HeaderParams_get (HeaderParamsImpl h) name = HeaderParams_get obj name"
proof (cases obj)
  case (HeaderParamsImpl k)
  with assms have m: "mset (hparams h) = mset (hparams k)" by (simp add: HeaderParamsImpl_eq_def)
  then have "distinct (map fst (hparams k))"
    using assms(2) mset_eq_imp_distinct_iff [of "map fst (hparams h)" "map fst (hparams k)"]
    by (metis mset_map)
  then have "map_of (hparams h) = map_of (hparams k)"
    using assms(2) m by (metis map_of_inject_set mset_eq_setD)
  with HeaderParamsImpl show ?thesis by (simp add: HeaderParamsImpl_get_def)
qed (use assms in simp)

section \<open>Filling a multimap\<close>

text \<open>
  \<open>RequestBuilder::parseQueryParameters\<close> inserts the pairs of a query string one by one;
  \<open>ins\<close> is \<open>unordered_multimap::insert\<close>.
\<close>

definition parseQueryParameters ::
    "(string \<times> string \<Rightarrow> ummap \<Rightarrow> ummap) \<Rightarrow> string \<Rightarrow> ummap res" where
  "parseQueryParameters ins s =
     QueryString_for s (QueryString_begin s) (\<lambda>ret param. Inr (ins param ret)) []"

locale multimap_insertion =
  fixes ins :: "string \<times> string \<Rightarrow> ummap \<Rightarrow> ummap"
  assumes mset_ins: "mset (ins p m) = add_mset p (mset m)"
begin

lemma mset_fold_ins: "mset (foldl (\<lambda>m p. ins p m) m ps) = mset m + mset ps"
  by (induction ps arbitrary: m) (simp_all add: mset_ins)

lemma parse_content:
  "\<exists>m. parseQueryParameters ins s = Inr m \<and> mset m = mset (query_pairs s)"
  by (simp add: parseQueryParameters_def QueryString_for_eq fold_res_pure mset_fold_ins)

text \<open>The values of a name are those the query string gives it, each as often as it does.\<close>

lemma parse_get:
  assumes "parseQueryParameters ins s = Inr m"
  shows "mset (push_values (umm_equal_range m name)) =
           mset [v. (k, v) \<leftarrow> query_pairs s, k = name]"
proof -
  have "mset m = mset (query_pairs s)" using assms parse_content [of s] by auto
  moreover have "image_mset snd (filter_mset (\<lambda>kv. fst kv = name) (mset ps)) =
      mset [v. (k, v) \<leftarrow> ps, k = name]" for ps :: ummap
    by (induction ps) auto
  ultimately show ?thesis by (simp only: umm_get_mset)
qed

text \<open>A name given once has that one value, wherever insertions go.\<close>

lemma parse_get_single:
  assumes "parseQueryParameters ins s = Inr m" and "[v. (k, v) \<leftarrow> query_pairs s, k = name] = [w]"
  shows "push_values (umm_equal_range m name) = [w]"
  using parse_get [OF assms(1), of name] unfolding assms(2) by (simp del: push_values_eq)

end

text \<open>A new element behind all others, and a new element in front of those of its key.\<close>

definition insert_back :: "string \<times> string \<Rightarrow> ummap \<Rightarrow> ummap" where
  "insert_back p m = m @ [p]"

fun insert_before_equal :: "string \<times> string \<Rightarrow> ummap \<Rightarrow> ummap" where
  "insert_before_equal p [] = [p]"
| "insert_before_equal p (q # m) =
     (if fst q = fst p then p # q # m else q # insert_before_equal p m)"

interpretation ins_back: multimap_insertion insert_back
  by unfold_locales (simp add: insert_back_def)

lemma mset_insert_before_equal: "mset (insert_before_equal p m) = add_mset p (mset m)"
  by (induction p m rule: insert_before_equal.induct) (simp_all add: add_mset_commute)

interpretation ins_front: multimap_insertion insert_before_equal
  by unfold_locales (rule mset_insert_before_equal)

section \<open>Path parameters\<close>

definition StringParam :: "string \<Rightarrow> string" where
  "StringParam v = v"

definition StringParam_parse :: "string \<Rightarrow> string" where
  "StringParam_parse input = StringParam input"

lemma StringParam_parse_eq: "StringParam_parse input = input"
  by (simp add: StringParam_parse_def StringParam_def)

text \<open>\<open>IntParam<T>::parse\<close>; the result is the value of the parameter, in the range of \<open>T\<close>.\<close>

definition IntParam_parse :: "int_type \<Rightarrow> string \<Rightarrow> int res" where
  "IntParam_parse T input =
     bind_res (stoll input)
       (\<lambda>(v, p). let val = static_cast T v in
          if p \<noteq> length input then Inl (Throw (Invalid_argument ''Invalid integral string''))
          else Inr val)"

lemma IntParam_parse_range: "IntParam_parse T s = Inr v \<Longrightarrow> v \<in> int_type_range T"
  by (auto simp: IntParam_parse_def bind_res_Inr_iff Let_def static_cast_in_range split: if_splits)

lemma IntParam_parse_dec_int:
  assumes "llong_min \<le> v" and "v \<le> llong_max"
  shows "IntParam_parse T (dec_int v) = Inr (static_cast T v)"
  by (simp add: IntParam_parse_def stoll_dec_int [OF assms])

lemma IntParam_parse_no_undef: "IntParam_parse T s \<noteq> Inl Undef"
  by (auto simp: IntParam_parse_def stoll_def bind_res_def Let_def split: sum.splits prod.splits if_splits)

section \<open>Properties\<close>

text \<open>C24: Whatever place a multimap gives to equal keys, a query string (or a form body) is read without
  failing, and \<open>get\<close> returns for every name exactly the values the string has for it, each as often
  as it occurs.\<close>

theorem query_parameters_get:
  assumes "multimap_insertion ins"
  shows "\<exists>m. parseQueryParameters ins s = Inr m \<and>
    (\<forall>name. mset (QueryParamsImpl_get \<lparr>qparams = m\<rparr> name) = mset [v. (k, v) \<leftarrow> query_pairs s, k = name] \<and>
            mset (PostParamsImpl_get \<lparr>pparams = m\<rparr> name) = mset [v. (k, v) \<leftarrow> query_pairs s, k = name])"
proof -
  note * = assms
  from multimap_insertion.parse_content [OF *] obtain m where m: "parseQueryParameters ins s = Inr m"
    by blast
  from multimap_insertion.parse_get [OF * m] show ?thesis
    using m by (auto simp: QueryParamsImpl_get_def PostParamsImpl_get_def)
qed

theorem query_parameters_get_witness:
  "\<exists>m. parseQueryParameters insert_before_equal ''a=1&b=2;a=3'' = Inr m \<and>
     mset (QueryParamsImpl_get \<lparr>qparams = m\<rparr> ''a'') = {#''1'', ''3''#}"
proof -
  have "[v. (k, v) \<leftarrow> query_pairs ''a=1&b=2;a=3'', k = ''a''] = [''1'', ''3'']" by code_simp
  then have *: "mset [v. (k, v) \<leftarrow> query_pairs ''a=1&b=2;a=3'', k = ''a''] = {#''1'', ''3''#}"
    by (simp only: mset.simps)
  from query_parameters_get [OF ins_front.multimap_insertion_axioms, of "''a=1&b=2;a=3''"]
  obtain m where "parseQueryParameters insert_before_equal ''a=1&b=2;a=3'' = Inr m"
    "mset (QueryParamsImpl_get \<lparr>qparams = m\<rparr> ''a'') = {#''1'', ''3''#}"
    unfolding * [symmetric] by blast
  then show ?thesis by blast
qed

text \<open>C23: An integer printed in decimal is read back as its \<open>static_cast\<close> to the parameter's type: itself
  when it is in the range of that type, and always a value of the type. (Printed values outside
  \<open>long long\<close> are the next property.)\<close>

theorem int_param_round_trip:
  assumes "llong_min \<le> v" and "v \<le> llong_max"
  shows "IntParam_parse T (dec_int v) = Inr (static_cast T v) \<and>
    static_cast T v \<in> int_type_range T \<and> (v \<in> int_type_range T \<longrightarrow> static_cast T v = v)"
  by (simp add: IntParam_parse_dec_int [OF assms] static_cast_in_range static_cast_id)

theorem int_param_round_trip_witness:
  "IntParam_parse (SInt 8) ''-128'' = Inr (- 128) \<and>
   IntParam_parse (SInt 8) ''300'' = Inr 44"
proof -
  have "dec_int (- 128) = ''-128''" "dec_int 300 = ''300''" by code_simp+
  moreover have "static_cast (SInt 8) (- 128) = - 128" "static_cast (SInt 8) 300 = 44"
    by code_simp+
  moreover have "IntParam_parse (SInt 8) (dec_int (- 128)) = Inr (static_cast (SInt 8) (- 128))"
    using int_param_round_trip [of "- 128" "SInt 8"] by (simp add: llong_min_def llong_max_def)
  moreover have "IntParam_parse (SInt 8) (dec_int 300) = Inr (static_cast (SInt 8) 300)"
    using int_param_round_trip [of 300 "SInt 8"] by (simp add: llong_min_def llong_max_def)
  ultimately show ?thesis by (simp only:)
qed

text \<open>What an integer parameter makes of blanks, an optional sign, digits and a rest: an
  \<open>out_of_range\<close> exception when the value does not fit \<open>long long\<close> (for every type, so also for
  unsigned 64-bit values that would fit their type), an \<open>invalid_argument\<close> exception when there is a
  rest, and the value cast to the type otherwise.\<close>

theorem int_param_text:
  assumes "\<forall>c\<in>set ws. is_space c" and "sg \<in> {'''', ''-'', ''+''}"
    and "ds \<noteq> []" and "\<forall>c\<in>set ds. is_digit c" and "rest = [] \<or> \<not> is_digit (hd rest)"
  shows "IntParam_parse T (ws @ sg @ ds @ rest) =
    (if signed_val sg ds < llong_min \<or> llong_max < signed_val sg ds
     then Inl (Throw (Out_of_range ''stoll''))
     else if rest \<noteq> [] then Inl (Throw (Invalid_argument ''Invalid integral string''))
     else Inr (static_cast T (signed_val sg ds)))"
  using stoll_text [OF assms] by (simp add: IntParam_parse_def)

theorem int_param_text_witness:
  "IntParam_parse (UInt 64) ''18446744073709551615'' = Inl (Throw (Out_of_range ''stoll'')) \<and>
   IntParam_parse (SInt 32) ''12abc'' = Inl (Throw (Invalid_argument ''Invalid integral string'')) \<and>
   IntParam_parse (UInt 8) '' -1'' = Inr 255"
proof (intro conjI)
  show "IntParam_parse (UInt 64) ''18446744073709551615'' = Inl (Throw (Out_of_range ''stoll''))"
    using int_param_text [of "[]" "[]" "''18446744073709551615''" "[]" "UInt 64"]
    by (simp add: is_digit_def signed_val_def digits_val_def digit_val_def llong_max_def)
  show "IntParam_parse (SInt 32) ''12abc'' = Inl (Throw (Invalid_argument ''Invalid integral string''))"
    using int_param_text [of "[]" "[]" "''12''" "''abc''" "SInt 32"]
    by (simp add: is_digit_def signed_val_def digits_val_def digit_val_def llong_max_def llong_min_def)
  show "IntParam_parse (UInt 8) '' -1'' = Inr 255"
    using int_param_text [of "'' ''" "''-''" "''1''" "[]" "UInt 8"]
    by (simp add: is_digit_def is_space_def signed_val_def digits_val_def digit_val_def llong_max_def
        llong_min_def mask_numeral)
qed

end
