(* ===== verification/Http_Response.thy ===== *)
theory Http_Response
  imports Cpp_Integer
begin

text \<open>
  \<open>include/response.h\<close> and \<open>src/response.cc\<close>: responses and their HTTP/1.1 text. The second
  half specifies how a client reads a response (\<open>read_response\<close>: status line, header lines up
  to the empty line, a body of the announced length) and shows that it recovers what the
  server wrote, whatever bytes the body holds.
\<close>

section \<open>Responses\<close>

datatype http_code = OK | CREATED | FORBIDDEN | NOT_FOUND | NOT_ALLOWED | INTERNAL_ERROR

datatype media_type = NONE | APPLICATION_JSON | TEXT_PLAIN

fun codeToInt :: "http_code \<Rightarrow> int" where
  "codeToInt OK = 200"
| "codeToInt CREATED = 201"
| "codeToInt FORBIDDEN = 403"
| "codeToInt NOT_FOUND = 404"
| "codeToInt NOT_ALLOWED = 405"
| "codeToInt INTERNAL_ERROR = 500"

fun mediaTypeToString :: "media_type \<Rightarrow> string" where
  "mediaTypeToString APPLICATION_JSON = ''application/json''"
| "mediaTypeToString TEXT_PLAIN = ''text/plain''"
| "mediaTypeToString NONE = ''application/octet-stream''"

fun reasonPhrase :: "http_code \<Rightarrow> string" where
  "reasonPhrase OK = ''OK''"
| "reasonPhrase CREATED = ''Created''"
| "reasonPhrase FORBIDDEN = ''Forbidden''"
| "reasonPhrase NOT_FOUND = ''Not Found''"
| "reasonPhrase NOT_ALLOWED = ''Method Not Allowed''"
| "reasonPhrase INTERNAL_ERROR = ''Internal Server Error''"

record response =
  rcode :: http_code
  rtype :: media_type
  rcontent :: string

definition Response_code :: "http_code \<Rightarrow> response" where
  "Response_code code = \<lparr>rcode = code, rtype = TEXT_PLAIN, rcontent = ''''\<rparr>"

definition Response :: "http_code \<Rightarrow> media_type \<Rightarrow> string \<Rightarrow> response" where
  "Response code type content = \<lparr>rcode = code, rtype = type, rcontent = content\<rparr>"

definition notAllowed :: response where
  "notAllowed = Response_code NOT_ALLOWED"

definition notFound :: response where
  "notFound = Response_code NOT_FOUND"

definition kCrlf :: string where "kCrlf = [CHR 0x0D, CHR 0x0A]"
definition kVersion :: string where "kVersion = ''HTTP/1.1''"

text \<open>\<open>Response::to_string\<close>: what is streamed, in order.\<close>

definition to_string :: "response \<Rightarrow> string" where
  "to_string r =
     concat [kVersion, '' '', dec_int (codeToInt (rcode r)), '' '', reasonPhrase (rcode r), kCrlf,
       ''Content-Length: '', dec_nat (length (rcontent r)), kCrlf,
       ''Connection: close'', kCrlf,
       ''Content-Type: '', mediaTypeToString (rtype r), kCrlf, kCrlf,
       rcontent r]"

section \<open>How a client reads a response\<close>

text \<open>The text up to the first CRLF and what follows it.\<close>

fun split_crlf :: "string \<Rightarrow> (string \<times> string) option" where
  "split_crlf (c # d # s) =
     (if c = CHR 0x0D \<and> d = CHR 0x0A then Some ([], s)
      else map_option (apfst (Cons c)) (split_crlf (d # s)))"
| "split_crlf s = None"

lemma split_crlf_length: "split_crlf s = Some (l, r) \<Longrightarrow> length r < length s"
proof (induction s arbitrary: l r rule: split_crlf.induct)
  case (1 c d s)
  show ?case
  proof (cases "c = CHR 0x0D \<and> d = CHR 0x0A")
    case False
    with "1.prems" obtain l' where "split_crlf (d # s) = Some (l', r)" by auto
    with "1.IH" [OF False] show ?thesis by force
  qed (use "1.prems" in simp)
qed simp_all

text \<open>The lines up to the first empty one, and the body behind it.\<close>

function read_head :: "string \<Rightarrow> (string list \<times> string) option" where
  "read_head s =
     (case split_crlf s of
        None \<Rightarrow> None
      | Some (l, r) \<Rightarrow>
          if l = [] then Some ([], r) else map_option (apfst (Cons l)) (read_head r))"
  by pat_completeness auto
termination
  by (relation "measure length") (auto dest: split_crlf_length)

declare read_head.simps [simp del]

definition header_prefix :: string where "header_prefix = ''Content-Length: ''"

definition content_length :: "string list \<Rightarrow> int option" where
  "content_length hs =
     (case filter (\<lambda>h. take (length header_prefix) h = header_prefix) hs of
        [h] \<Rightarrow> (case stoll (drop (length header_prefix) h) of
                  Inr (n, p) \<Rightarrow> if p = length h - length header_prefix then Some n else None
                | Inl e \<Rightarrow> None)
      | _ \<Rightarrow> None)"

definition read_response :: "string \<Rightarrow> (string \<times> string list \<times> string) option" where
  "read_response s =
     (case read_head s of
        Some (status # hs, body) \<Rightarrow>
          (case content_length hs of
             Some n \<Rightarrow> if n = int (length body) then Some (status, hs, body) else None
           | None \<Rightarrow> None)
      | _ \<Rightarrow> None)"

section \<open>A client reads what was written\<close>

lemma split_crlf_line:
  "CHR 0x0D \<notin> set l \<Longrightarrow> split_crlf (l @ kCrlf @ s) = Some (l, s)"
proof (induction l)
  case (Cons c l)
  obtain d t where dt: "l @ kCrlf @ s = d # t" by (cases l) (simp_all add: kCrlf_def)
  with Cons show ?case by auto
qed (simp add: kCrlf_def)

lemma read_head_line:
  "l \<noteq> [] \<Longrightarrow> CHR 0x0D \<notin> set l \<Longrightarrow>
     read_head (l @ kCrlf @ s) = map_option (apfst (Cons l)) (read_head s)"
  by (subst read_head.simps) (simp add: split_crlf_line)

lemma read_head_end: "read_head (kCrlf @ s) = Some ([], s)"
  using split_crlf_line [of "[]" s] by (subst read_head.simps) simp

definition status_line :: "http_code \<Rightarrow> string" where
  "status_line code = kVersion @ '' '' @ dec_int (codeToInt code) @ '' '' @ reasonPhrase code"

definition header_lines :: "response \<Rightarrow> string list" where
  "header_lines r =
     [header_prefix @ dec_nat (length (rcontent r)), ''Connection: close'',
      ''Content-Type: '' @ mediaTypeToString (rtype r)]"

lemma dec_nat_no_cr: "CHR 0x0D \<notin> set (dec_nat n)"
  using dec_nat_digits [of "CHR 0x0D" n] by (auto simp: is_digit_def)

lemma status_line_no_cr: "CHR 0x0D \<notin> set (status_line code)"
  by (cases code) (simp_all add: status_line_def kVersion_def dec_int_def dec_nat_no_cr)

lemma media_no_cr: "CHR 0x0D \<notin> set (mediaTypeToString t)"
  by (cases t) simp_all

lemma to_string_lines:
  "to_string r = concat (map (\<lambda>l. l @ kCrlf) (status_line (rcode r) # header_lines r)) @
     kCrlf @ rcontent r"
  by (simp add: to_string_def status_line_def header_lines_def header_prefix_def)

lemma read_head_lines:
  "\<forall>l\<in>set ls. l \<noteq> [] \<and> CHR 0x0D \<notin> set l \<Longrightarrow>
     read_head (concat (map (\<lambda>l. l @ kCrlf) ls) @ kCrlf @ s) = Some (ls, s)"
  by (induction ls) (simp_all add: read_head_line read_head_end)

lemma header_lines_ok: "l \<in> set (header_lines r) \<Longrightarrow> l \<noteq> [] \<and> CHR 0x0D \<notin> set l"
  by (auto simp: header_lines_def header_prefix_def dec_nat_no_cr media_no_cr)

lemma read_head_to_string:
  "read_head (to_string r) = Some (status_line (rcode r) # header_lines r, rcontent r)"
proof -
  have "\<forall>l\<in>set (status_line (rcode r) # header_lines r). l \<noteq> [] \<and> CHR 0x0D \<notin> set l"
    using header_lines_ok status_line_no_cr by (auto simp: status_line_def kVersion_def)
  then show ?thesis unfolding to_string_lines by (rule read_head_lines)
qed

lemma content_length_header_lines:
  "int (length (rcontent r)) \<le> llong_max \<Longrightarrow>
     content_length (header_lines r) = Some (int (length (rcontent r)))"
  using stoll_dec_int [of "int (length (rcontent r))"]
  by (simp add: content_length_def header_lines_def header_prefix_def dec_int_def llong_min_def)

lemma read_to_string:
  "int (length (rcontent r)) \<le> llong_max \<Longrightarrow>
     read_response (to_string r) = Some (status_line (rcode r), header_lines r, rcontent r)"
  by (simp add: read_response_def read_head_to_string content_length_header_lines)

lemma codeToInt_inj: "codeToInt a = codeToInt b \<Longrightarrow> a = b"
  by (cases a; cases b) simp_all

lemma status_lines:
  "status_line OK = ''HTTP/1.1 200 OK''"
  "status_line CREATED = ''HTTP/1.1 201 Created''"
  "status_line FORBIDDEN = ''HTTP/1.1 403 Forbidden''"
  "status_line NOT_FOUND = ''HTTP/1.1 404 Not Found''"
  "status_line NOT_ALLOWED = ''HTTP/1.1 405 Method Not Allowed''"
  "status_line INTERNAL_ERROR = ''HTTP/1.1 500 Internal Server Error''"
  by code_simp+

lemma status_line_inj: "status_line a = status_line b \<Longrightarrow> a = b"
  by (cases a; cases b) (simp_all add: status_lines)

section \<open>Properties\<close>

text \<open>C13: A client that reads the status line, the header lines up to the empty line and the body of
  the announced length recovers exactly what the server printed, whatever bytes the content has
  (for contents whose length fits a \<open>long long\<close>).\<close>

theorem client_reads_response:
  assumes "int (length (rcontent r)) \<le> llong_max"
  shows "read_response (to_string r) = Some (status_line (rcode r), header_lines r, rcontent r)"
  by (rule read_to_string [OF assms])

theorem client_reads_response_witness:
  "read_response (to_string (Response NOT_FOUND TEXT_PLAIN kCrlf)) =
     Some (''HTTP/1.1 404 Not Found'',
       [''Content-Length: 2'', ''Connection: close'', ''Content-Type: text/plain''], kCrlf)"
proof -
  have "read_response (to_string (Response NOT_FOUND TEXT_PLAIN kCrlf)) =
      Some (status_line NOT_FOUND, header_lines (Response NOT_FOUND TEXT_PLAIN kCrlf), kCrlf)"
    using client_reads_response [of "Response NOT_FOUND TEXT_PLAIN kCrlf"]
    by (simp add: Response_def kCrlf_def llong_max_def)
  moreover have "header_lines (Response NOT_FOUND TEXT_PLAIN kCrlf) =
      [''Content-Length: 2'', ''Connection: close'', ''Content-Type: text/plain'']" by code_simp
  ultimately show ?thesis by (simp add: status_lines)
qed

text \<open>Different responses have different texts.\<close>

theorem to_string_injective: "to_string a = to_string b \<longleftrightarrow> a = b"
proof
  assume "to_string a = to_string b"
  then have h: "status_line (rcode a) = status_line (rcode b)" "header_lines a = header_lines b"
    "rcontent a = rcontent b"
    using read_head_to_string [of a] read_head_to_string [of b] by simp_all
  have "rcode a = rcode b"
    using h(1) by (rule status_line_inj)
  moreover have "rtype a = rtype b"
    using h(2) by (cases "rtype a"; cases "rtype b") (simp_all add: header_lines_def)
  ultimately show "a = b" using h(3) by simp
qed simp

end
