(* ===== verification/Dispatch.thy ===== *)
theory Dispatch
  imports Params Http_Response
begin

text \<open>
  \<open>include/resource.h\<close> and \<open>include/detail/\<close> (\<open>tuple_util.h\<close>, \<open>invoker.h\<close>, \<open>dispatcher.h\<close>,
  \<open>server-impl.h\<close>): how a request's path parameters and request data become the arguments of
  a handler method.

  A handler's C++ signature is the list of its parameter types (\<open>param_type\<close>), and the handler
  itself, which is user code, a function from the tuple of arguments to a result. The template
  recursions over the parameter pack become recursions over that list.
\<close>

section \<open>Parameter types and arguments\<close>

datatype param_type = TString | TInt int_type | TQuery | TPost | THeader | TEntity

datatype arg =
    AString string
  | AInt int
  | AQuery query_params
  | APost post_params
  | AHeader header_params
  | AEntity entity

text \<open>\<open>params[index]\<close>: indexing a vector out of range is undefined.\<close>

definition vector_at :: "'a list \<Rightarrow> nat \<Rightarrow> 'a res" where
  "vector_at v i = (if i < length v then Inr (v ! i) else Inl Undef)"

fun GetParam :: "param_type \<Rightarrow> string list \<Rightarrow> nat \<Rightarrow> uri_info \<Rightarrow> arg res" where
  "GetParam TQuery params index uriInfo = Inr (AQuery (queryParams uriInfo))"
| "GetParam TPost params index uriInfo = Inr (APost (postParams uriInfo))"
| "GetParam THeader params index uriInfo = Inr (AHeader (headerParams uriInfo))"
| "GetParam TEntity params index uriInfo = Inr (AEntity (entity uriInfo))"
| "GetParam TString params index uriInfo =
     bind_res (vector_at params index) (\<lambda>p. Inr (AString (StringParam_parse p)))"
| "GetParam (TInt T) params index uriInfo =
     bind_res (vector_at params index) (\<lambda>p. bind_res (IntParam_parse T p) (\<lambda>v. Inr (AInt v)))"

fun NextIndex :: "param_type \<Rightarrow> nat \<Rightarrow> nat" where
  "NextIndex TString index = index + 1"
| "NextIndex (TInt T) index = index + 1"
| "NextIndex _ index = index"

text \<open>
  The recursion over the pack: the first type takes its parameter at the current index, the
  others go on from the next index. (The order in which C++ evaluates the two is open; it can
  only make a difference to which of several exceptions is thrown.)
\<close>

fun ExtractorHelper :: "nat \<Rightarrow> param_type list \<Rightarrow> string list \<Rightarrow> uri_info \<Rightarrow> arg list res" where
  "ExtractorHelper index [] params uriInfo = Inr []"
| "ExtractorHelper index [R] params uriInfo =
     bind_res (GetParam R params index uriInfo) (\<lambda>a. Inr [a])"
| "ExtractorHelper index (R1 # R) params uriInfo =
     bind_res (GetParam R1 params index uriInfo)
       (\<lambda>a. bind_res (ExtractorHelper (NextIndex R1 index) R params uriInfo)
         (\<lambda>as. Inr (a # as)))"

definition Extractor :: "param_type list \<Rightarrow> string list \<Rightarrow> uri_info \<Rightarrow> arg list res" where
  "Extractor R params uriInfo =
     (if R = [] then Inr [] else ExtractorHelper 0 R params uriInfo)"

section \<open>Invocation\<close>

text \<open>The index sequence \<open>0, 1, ..., n-1\<close> of a pack, built with an accumulator.\<close>

fun make_indices_impl :: "nat \<Rightarrow> nat list \<Rightarrow> 'a list \<Rightarrow> nat list" where
  "make_indices_impl I Indices (T # Types) = make_indices_impl (I + 1) (Indices @ [I]) Types"
| "make_indices_impl I Indices [] = Indices"

definition make_indices :: "'a list \<Rightarrow> nat list" where
  "make_indices Types = make_indices_impl 0 [] Types"

text \<open>A handler method: its parameter types and its code.\<close>

record handler =
  signature :: "param_type list"
  body :: "arg list \<Rightarrow> response res"

definition invoke_member :: "handler \<Rightarrow> arg list \<Rightarrow> response res" where
  "invoke_member f args =
     bind_res (fold_res (\<lambda>as i. bind_res (vector_at args i) (\<lambda>a. Inr (as @ [a]))) []
                 (make_indices (signature f)))
       (body f)"

definition dispatch_handler :: "handler \<Rightarrow> string list \<Rightarrow> uri_info \<Rightarrow> response res" where
  "dispatch_handler method params uriInfo =
     bind_res (Extractor (signature method) params uriInfo) (invoke_member method)"

section \<open>Resources\<close>

text \<open>
  A resource: the address of the object, its path template and its methods; a method that is
  not overridden is the default one.
\<close>

record resource =
  address :: nat
  path :: string
  get_method :: handler
  put_method :: handler
  post_method :: handler
  del_method :: handler
  head_method :: handler

definition default_method :: handler where
  "default_method = \<lparr>signature = [], body = (\<lambda>_. Inr notAllowed)\<rparr>"

definition Resource :: "nat \<Rightarrow> string \<Rightarrow> resource" where
  "Resource a p = \<lparr>address = a, path = p, get_method = default_method, put_method = default_method,
     post_method = default_method, del_method = default_method, head_method = default_method\<rparr>"

type_synonym method_fn = "string list \<Rightarrow> uri_info \<Rightarrow> response res"

record methods =
  get :: method_fn
  put :: method_fn
  post :: method_fn
  del :: method_fn

definition bindMethods :: "resource \<Rightarrow> methods" where
  "bindMethods r =
     \<lparr>get = (\<lambda>params uriInfo. dispatch_handler (get_method r) params uriInfo),
      put = (\<lambda>params uriInfo. dispatch_handler (put_method r) params uriInfo),
      post = (\<lambda>params uriInfo. dispatch_handler (post_method r) params uriInfo),
      del = (\<lambda>params uriInfo. dispatch_handler (del_method r) params uriInfo)\<rparr>"

section \<open>Extraction: which argument gets what\<close>

definition takes_path_param :: "param_type \<Rightarrow> bool" where
  "takes_path_param t = (case t of TString \<Rightarrow> True | TInt _ \<Rightarrow> True | _ \<Rightarrow> False)"

text \<open>The specification: the argument for the type at position \<open>j\<close> of a signature, given the
  number of path parameters the types before it have used.\<close>

definition path_index :: "param_type list \<Rightarrow> nat \<Rightarrow> nat" where
  "path_index R j = length (filter takes_path_param (take j R))"

lemma NextIndex_eq: "NextIndex t i = (if takes_path_param t then i + 1 else i)"
  by (cases t) (simp_all add: takes_path_param_def)

lemma ExtractorHelper_Cons:
  "ExtractorHelper i (t # R) params u =
     bind_res (GetParam t params i u)
       (\<lambda>a. bind_res (ExtractorHelper (NextIndex t i) R params u) (\<lambda>as. Inr (a # as)))"
  by (cases R) simp_all

lemma Extractor_eq: "Extractor R params u = ExtractorHelper 0 R params u"
  by (cases R) (simp_all add: Extractor_def)

lemma ExtractorHelper_Inr:
  "ExtractorHelper i R params u = Inr as \<longleftrightarrow>
     length as = length R \<and>
     (\<forall>j<length R. GetParam (R ! j) params (i + path_index R j) u = Inr (as ! j))"
proof (induction R arbitrary: i as)
  case (Cons t R)
  have shift: "i + path_index (t # R) (Suc j) = NextIndex t i + path_index R j" for j
    by (simp add: NextIndex_eq path_index_def)
  have first: "path_index (t # R) 0 = 0" by (simp add: path_index_def)
  show ?case
    by (cases as)
       (auto simp: ExtractorHelper_Cons bind_res_Inr_iff Cons.IH All_less_Suc2 shift first)
qed (auto simp: path_index_def)

text \<open>Reading the parameters never runs out of the vector when there are enough of them.\<close>

lemma GetParam_defined:
  "(takes_path_param t \<Longrightarrow> i < length params) \<Longrightarrow> GetParam t params i u \<noteq> Inl Undef"
  using IntParam_parse_no_undef
  by (cases t) (auto simp: takes_path_param_def vector_at_def bind_res_def split: sum.splits)

lemma ExtractorHelper_defined:
  "i + length (filter takes_path_param R) \<le> length params \<Longrightarrow>
     ExtractorHelper i R params u \<noteq> Inl Undef"
proof (induction R arbitrary: i)
  case (Cons t R)
  have "GetParam t params i u \<noteq> Inl Undef"
    using Cons.prems by (intro GetParam_defined) (auto split: if_splits)
  moreover have "ExtractorHelper (NextIndex t i) R params u \<noteq> Inl Undef"
    using Cons.prems by (intro Cons.IH) (auto simp: NextIndex_eq split: if_splits)
  ultimately show ?case
    by (auto simp: ExtractorHelper_Cons bind_res_def split: sum.splits)
qed simp

text \<open>The type discipline: the arguments a handler is called with are those of its signature.\<close>

fun has_type :: "arg \<Rightarrow> param_type \<Rightarrow> bool" where
  "has_type (AString s) t \<longleftrightarrow> t = TString"
| "has_type (AInt v) t \<longleftrightarrow> (case t of TInt T \<Rightarrow> v \<in> int_type_range T | _ \<Rightarrow> False)"
| "has_type (AQuery q) t \<longleftrightarrow> t = TQuery"
| "has_type (APost q) t \<longleftrightarrow> t = TPost"
| "has_type (AHeader h) t \<longleftrightarrow> t = THeader"
| "has_type (AEntity e) t \<longleftrightarrow> t = TEntity"

lemma GetParam_type: "GetParam t params i u = Inr a \<Longrightarrow> has_type a t"
  by (cases t) (auto simp: bind_res_Inr_iff IntParam_parse_range)

lemma ExtractorHelper_types:
  "ExtractorHelper i R params u = Inr as \<Longrightarrow> list_all2 has_type as R"
  by (auto simp: ExtractorHelper_Inr list_all2_conv_all_nth intro: GetParam_type)

lemma ExtractorHelper_undefined:
  assumes "takes_path_param (R ! j)" "j < length R" "length params \<le> i + path_index R j"
  shows "\<exists>e. ExtractorHelper i R params u = Inl e"
proof (rule ccontr)
  assume "\<nexists>e. ExtractorHelper i R params u = Inl e"
  then obtain as where "ExtractorHelper i R params u = Inr as"
    by (cases "ExtractorHelper i R params u") auto
  then have "GetParam (R ! j) params (i + path_index R j) u = Inr (as ! j)"
    using assms(2) by (simp add: ExtractorHelper_Inr)
  with assms(1,3) show False
    by (cases "R ! j") (simp_all add: takes_path_param_def vector_at_def)
qed

lemma make_indices_impl_eq:
  "make_indices_impl i is ts = is @ [i..<i + length ts]"
  by (induction i "is" ts rule: make_indices_impl.induct) (simp_all add: upt_rec)

lemma make_indices_eq: "make_indices ts = [0..<length ts]"
  by (simp add: make_indices_def make_indices_impl_eq)

lemma collect_args:
  "n \<le> length args \<Longrightarrow>
     fold_res (\<lambda>as i. bind_res (vector_at args i) (\<lambda>a. Inr (as @ [a]))) [] [0..<n] = Inr (take n args)"
  by (induction n) (simp_all add: fold_res_append vector_at_def take_Suc_conv_app_nth)

lemma invoke_member_eq:
  "length args = length (signature f) \<Longrightarrow> invoke_member f args = body f args"
  by (simp add: invoke_member_def make_indices_eq collect_args)

lemma dispatch_handler_eq:
  "dispatch_handler f params u = bind_res (Extractor (signature f) params u) (body f)"
proof (cases "Extractor (signature f) params u")
  case (Inr as)
  then have "length as = length (signature f)"
    by (simp add: Extractor_eq ExtractorHelper_Inr)
  with Inr show ?thesis by (simp add: dispatch_handler_def invoke_member_eq)
qed (simp add: dispatch_handler_def)

section \<open>Properties\<close>

text \<open>C17: Dispatching calls the handler's code on the extracted arguments. They are extracted exactly
  when each parameter can be: the argument at position \<open>j\<close> is made, for its type, from the path
  parameter whose index is the number of path parameters before \<open>j\<close> in the signature.\<close>

theorem extraction_correct:
  "dispatch_handler f params u = bind_res (Extractor (signature f) params u) (body f) \<and>
   (Extractor (signature f) params u = Inr as \<longleftrightarrow>
      length as = length (signature f) \<and>
      (\<forall>j<length (signature f).
         GetParam (signature f ! j) params (path_index (signature f) j) u = Inr (as ! j)))"
  by (simp add: dispatch_handler_eq Extractor_eq ExtractorHelper_Inr)

theorem extraction_correct_witness:
  "Extractor [TString, TQuery, TInt (SInt 32)] [''bob'', ''7'']
     \<lparr>queryParams = \<lparr>qparams = []\<rparr>, postParams = \<lparr>pparams = []\<rparr>, headerParams = \<lparr>hparams = []\<rparr>,
      entity = Entity_of ''''\<rparr> = Inr [AString ''bob'', AQuery \<lparr>qparams = []\<rparr>, AInt 7]"
proof -
  let ?R = "[TString, TQuery, TInt (SInt 32)]"
  let ?u = "\<lparr>queryParams = \<lparr>qparams = []\<rparr>, postParams = \<lparr>pparams = []\<rparr>, headerParams = \<lparr>hparams = []\<rparr>,
      entity = Entity_of ''''\<rparr>"
  let ?as = "[AString ''bob'', AQuery \<lparr>qparams = []\<rparr>, AInt 7]"
  have "IntParam_parse (SInt 32) ''7'' = Inr 7" by code_simp
  then have "\<forall>j<length ?R. GetParam (?R ! j) [''bob'', ''7''] (path_index ?R j) ?u = Inr (?as ! j)"
    by (auto simp: less_Suc_eq numeral_3_eq_3 path_index_def takes_path_param_def vector_at_def
        StringParam_parse_eq)
  then show ?thesis
    using extraction_correct [of "\<lparr>signature = ?R, body = (\<lambda>_. Inr notFound)\<rparr>" "[''bob'', ''7'']" ?u ?as]
    by simp
qed

text \<open>C38: When a route has at least as many path parameters as a handler takes, reading them has no
  undefined behaviour, and what is read has the types of the signature (integers are in the range
  of their type).\<close>

theorem extraction_type_safe:
  assumes "length (filter takes_path_param (signature f)) \<le> length params"
  shows "Extractor (signature f) params u \<noteq> Inl Undef \<and>
    (\<forall>as. Extractor (signature f) params u = Inr as \<longrightarrow> list_all2 has_type as (signature f))"
  using assms ExtractorHelper_defined [of 0 "signature f" params u] ExtractorHelper_types
  by (simp add: Extractor_eq)

theorem extraction_type_safe_witness:
  "\<forall>u. Extractor [TInt (UInt 8), TEntity] [''300''] u \<noteq> Inl Undef"
  using extraction_type_safe [of "\<lparr>signature = [TInt (UInt 8), TEntity], body = (\<lambda>_. Inr notFound)\<rparr>"
      "[''300'']"]
  by (simp add: takes_path_param_def)

end
