(* ===== verification/Matcher_Heap.thy ===== *)
theory Matcher_Heap
  imports Path_Components Dispatch
begin

text \<open>
  The data structure of \<open>src/resource_matcher.h\<close> and the registration of resources
  (\<open>ResourceMatcher::addResource\<close> in \<open>src/resource_matcher.cc\<close>): a trie of heap-allocated
  nodes, indexed by path components, with one extra child per node for a variable component.

  The heap is explicit: nodes live in a store from addresses to nodes, \<open>new Node()\<close> takes a
  fresh address, and following a dangling pointer is undefined. The specification sees a
  matcher as a finite map from templates (lists of literal or variable segments) to the
  resource and methods registered there (\<open>routes\<close>); registration is a map update that fails
  when the template is taken.
\<close>

section \<open>Nodes and the heap\<close>

type_synonym addr = nat

record node =
  nresource :: "resource option"
  nmethods :: "methods option"
  children :: "(string, addr) umap"
  varChild :: "addr option"

definition new_Node :: node where
  "new_Node = \<lparr>nresource = None, nmethods = None, children = [], varChild = None\<rparr>"

text \<open>The matcher: the node \<open>head_\<close> at address 0, the nodes allocated so far, the registered
  resources in order. \<open>fresh\<close> is the next address of the allocator.\<close>

record matcher =
  store :: "addr \<Rightarrow> node option"
  fresh :: addr
  resources :: "resource list"

definition head_addr :: addr where "head_addr = 0"

definition ResourceMatcher :: matcher where
  "ResourceMatcher = \<lparr>store = [head_addr \<mapsto> new_Node], fresh = 1, resources = []\<rparr>"

definition load :: "matcher \<Rightarrow> addr \<Rightarrow> node res" where
  "load m a = (case store m a of None \<Rightarrow> Inl Undef | Some n \<Rightarrow> Inr n)"

definition modify :: "matcher \<Rightarrow> addr \<Rightarrow> (node \<Rightarrow> node) \<Rightarrow> matcher res" where
  "modify m a f = bind_res (load m a) (\<lambda>n. Inr (m\<lparr>store := (store m)(a \<mapsto> f n)\<rparr>))"

definition alloc :: "matcher \<Rightarrow> addr \<times> matcher" where
  "alloc m = (fresh m, m\<lparr>store := (store m)(fresh m \<mapsto> new_Node), fresh := fresh m + 1\<rparr>)"

section \<open>Registration\<close>

definition isVariable :: "string \<Rightarrow> bool" where
  "isVariable component \<longleftrightarrow>
     length component \<ge> 2 \<and> component ! 0 = CHR ''{'' \<and>
     component ! (length component - 1) = CHR ''}''"

text \<open>One round of the loop of \<open>addResource\<close>: the node for the next component, made if needed.\<close>

definition add_component :: "matcher \<times> addr \<Rightarrow> string \<Rightarrow> (matcher \<times> addr) res" where
  "add_component mc component =
     (let (m, cur) = mc in
      bind_res (load m cur) (\<lambda>n.
        if isVariable component then
          (case varChild n of
             None \<Rightarrow>
               let (a, m1) = alloc m in
               bind_res (modify m1 cur (\<lambda>n. n\<lparr>varChild := Some a\<rparr>)) (\<lambda>m2. Inr (m2, a))
           | Some a \<Rightarrow> Inr (m, a))
        else
          (case map_of (children n) component of
             Some a \<Rightarrow> Inr (m, a)
           | None \<Rightarrow>
               let (a, m1) = alloc m in
               bind_res (modify m1 cur (\<lambda>n. n\<lparr>children := umap_assign (children n) component a\<rparr>))
                 (\<lambda>m2. Inr (m2, a)))))"

text \<open>
  \<open>addResource\<close> returns the matcher it leaves behind together with the exception it threw, if
  it threw one.
\<close>

definition addResource ::
    "matcher \<Rightarrow> resource \<Rightarrow> methods \<Rightarrow> (exn option \<times> matcher) res" where
  "addResource m res meths =
     bind_res (PathComponents_for (path res) (PathComponents_begin (path res)) add_component
                 (m, head_addr))
       (\<lambda>(m1, cur). bind_res (load m1 cur) (\<lambda>n.
          if nresource n \<noteq> None
          then Inr (Some (Runtime_error ''Resource registration collision''), m1)
          else bind_res
                 (modify m1 cur (\<lambda>n. n\<lparr>nresource := Some res, nmethods := Some meths\<rparr>))
                 (\<lambda>m2. Inr (None, m2\<lparr>resources := resources m2 @ [res]\<rparr>))))"

definition matcher_resources :: "matcher \<Rightarrow> resource list" where
  "matcher_resources m = resources m"

section \<open>Templates and the abstraction\<close>

datatype seg = Lit string | Var

definition seg_of :: "string \<Rightarrow> seg" where
  "seg_of component = (if isVariable component then Var else Lit component)"

definition template :: "string \<Rightarrow> seg list" where
  "template p = map seg_of (path_components p)"

text \<open>The edge of a node for a segment, and the walk along a template.\<close>

definition child :: "matcher \<Rightarrow> addr \<Rightarrow> seg \<Rightarrow> addr option" where
  "child m a s =
     (case store m a of
        None \<Rightarrow> None
      | Some n \<Rightarrow> (case s of Var \<Rightarrow> varChild n | Lit c \<Rightarrow> map_of (children n) c))"

fun walk :: "matcher \<Rightarrow> addr \<Rightarrow> seg list \<Rightarrow> addr option" where
  "walk m a [] = Some a"
| "walk m a (s # ss) = (case child m a s of None \<Rightarrow> None | Some b \<Rightarrow> walk m b ss)"

definition registered_at :: "matcher \<Rightarrow> addr \<Rightarrow> (resource \<times> methods option) option" where
  "registered_at m a =
     (case store m a of
        None \<Rightarrow> None
      | Some n \<Rightarrow> map_option (\<lambda>r. (r, nmethods n)) (nresource n))"

definition routes :: "matcher \<Rightarrow> seg list \<Rightarrow> (resource \<times> methods option) option" where
  "routes m t = (case walk m head_addr t of None \<Rightarrow> None | Some a \<Rightarrow> registered_at m a)"

section \<open>The invariant\<close>

text \<open>
  The nodes form a tree rooted at \<open>head_\<close>: edges lead to allocated nodes with larger addresses,
  no two edges lead to the same node, and every node but the root has one leading to it, so
  that nothing is lost. Every registered node has methods, and literal edges are not variables.
\<close>

definition edges_closed :: "matcher \<Rightarrow> bool" where
  "edges_closed m \<longleftrightarrow> (\<forall>a s b. child m a s = Some b \<longrightarrow> store m b \<noteq> None \<and> a < b)"

definition edges_separate :: "matcher \<Rightarrow> bool" where
  "edges_separate m \<longleftrightarrow>
     (\<forall>a s a' s' b. child m a s = Some b \<longrightarrow> child m a' s' = Some b \<longrightarrow> a = a' \<and> s = s')"

definition all_rooted :: "matcher \<Rightarrow> bool" where
  "all_rooted m \<longleftrightarrow>
     (\<forall>b. store m b \<noteq> None \<longrightarrow> b \<noteq> head_addr \<longrightarrow> (\<exists>a s. child m a s = Some b))"

definition node_ok :: "node \<Rightarrow> bool" where
  "node_ok n \<longleftrightarrow>
     distinct (map fst (children n)) \<and>
     (\<forall>c\<in>fst ` set (children n). \<not> isVariable c) \<and>
     (nresource n \<noteq> None \<longrightarrow> nmethods n \<noteq> None)"

definition wf_matcher :: "matcher \<Rightarrow> bool" where
  "wf_matcher m \<longleftrightarrow>
     store m head_addr \<noteq> None \<and> (\<forall>a. store m a \<noteq> None \<longrightarrow> a < fresh m) \<and>
     edges_closed m \<and> edges_separate m \<and> all_rooted m \<and>
     (\<forall>a n. store m a = Some n \<longrightarrow> node_ok n)"

lemma wf_matcher_head: "wf_matcher m \<Longrightarrow> store m head_addr \<noteq> None"
  by (auto simp: wf_matcher_def)

lemma wf_matcher_fresh: "wf_matcher m \<Longrightarrow> store m a \<noteq> None \<Longrightarrow> a < fresh m"
  by (auto simp: wf_matcher_def)

lemma wf_matcher_node: "wf_matcher m \<Longrightarrow> store m a = Some n \<Longrightarrow> node_ok n"
  by (auto simp: wf_matcher_def)

lemma wf_matcher_child: "wf_matcher m \<Longrightarrow> child m a s = Some b \<Longrightarrow> store m b \<noteq> None \<and> a < b"
  unfolding wf_matcher_def edges_closed_def by metis

lemma wf_matcher_child_inj:
  "wf_matcher m \<Longrightarrow> child m a s = Some b \<Longrightarrow> child m a' s' = Some b \<Longrightarrow> a = a' \<and> s = s'"
  unfolding wf_matcher_def edges_separate_def by metis

lemma wf_matcher_parent:
  "wf_matcher m \<Longrightarrow> store m b \<noteq> None \<Longrightarrow> b \<noteq> head_addr \<Longrightarrow> \<exists>a s. child m a s = Some b"
  unfolding wf_matcher_def all_rooted_def by metis

lemma child_None [simp]: "store m a = None \<Longrightarrow> child m a s = None"
  by (simp add: child_def)

lemma wf_ResourceMatcher: "wf_matcher ResourceMatcher"
  by (auto simp: wf_matcher_def edges_closed_def edges_separate_def all_rooted_def node_ok_def
      ResourceMatcher_def head_addr_def child_def new_Node_def split: seg.splits if_splits)

lemma routes_ResourceMatcher: "routes ResourceMatcher = Map.empty"
proof
  fix t show "routes ResourceMatcher t = None"
    by (cases t)
       (auto simp: routes_def ResourceMatcher_def registered_at_def new_Node_def child_def
         split: option.splits seg.splits)
qed

subsection \<open>Walks\<close>

lemma walk_append:
  "walk m a (s @ t) = (case walk m a s of None \<Rightarrow> None | Some b \<Rightarrow> walk m b t)"
  by (induction s arbitrary: a) (auto split: option.splits)

lemma walk_snoc:
  "walk m a (t @ [s]) = (case walk m a t of None \<Rightarrow> None | Some b \<Rightarrow> child m b s)"
  by (simp add: walk_append split: option.splits)

lemma walk_store:
  "wf_matcher m \<Longrightarrow> store m a \<noteq> None \<Longrightarrow> walk m a t = Some b \<Longrightarrow> store m b \<noteq> None"
proof (induction t arbitrary: a)
  case (Cons s t)
  then obtain c where c: "child m a s = Some c" "walk m c t = Some b"
    by (auto split: option.splits)
  have "store m c \<noteq> None" using wf_matcher_child [OF Cons.prems(1) c(1)] by blast
  with Cons.IH [OF Cons.prems(1) _ c(2)] show ?case by blast
qed simp

lemma walk_less: "wf_matcher m \<Longrightarrow> walk m a t = Some b \<Longrightarrow> t \<noteq> [] \<Longrightarrow> a < b"
proof (induction t arbitrary: b rule: rev_induct)
  case (snoc s t)
  then obtain c where c: "walk m a t = Some c" "child m c s = Some b"
    by (auto simp: walk_snoc split: option.splits)
  then have "c < b" using snoc.prems(1) wf_matcher_child by blast
  with snoc c show ?case by (cases "t = []") fastforce+
qed simp

text \<open>Each node is reached by exactly one template.\<close>

lemma walk_inj:
  "wf_matcher m \<Longrightarrow> walk m head_addr t = Some b \<Longrightarrow> walk m head_addr t' = Some b \<Longrightarrow> t = t'"
proof (induction t arbitrary: b t' rule: rev_induct)
  case Nil
  then show ?case using walk_less [of m head_addr t' b] by auto
next
  case (snoc s t)
  then obtain c where c: "walk m head_addr t = Some c" "child m c s = Some b"
    by (auto simp: walk_snoc split: option.splits)
  have "t' \<noteq> []"
    using snoc.prems walk_less [of m head_addr "t @ [s]" b] by auto
  then obtain u r where t': "t' = u @ [r]" by (metis rev_exhaust)
  with snoc.prems(3) obtain d where d: "walk m head_addr u = Some d" "child m d r = Some b"
    by (auto simp: walk_snoc split: option.splits)
  with c snoc.prems(1) have "c = d" "s = r" using wf_matcher_child_inj by blast+
  with snoc.IH [of c u] snoc.prems(1) c d t' show ?case by simp
qed

lemma reachable_walk:
  "wf_matcher m \<Longrightarrow> store m b \<noteq> None \<Longrightarrow> \<exists>t. walk m head_addr t = Some b"
proof (induction b rule: less_induct)
  case (less b)
  show ?case
  proof (cases "b = head_addr")
    case True
    then show ?thesis by (intro exI [of _ "[]"]) simp
  next
    case False
    with less.prems obtain a s where a: "child m a s = Some b"
      using wf_matcher_parent by blast
    then have "store m a \<noteq> None" by (cases "store m a") auto
    with less a obtain t where "walk m head_addr t = Some a"
      using wf_matcher_child by blast
    with a have "walk m head_addr (t @ [s]) = Some b" by (simp add: walk_snoc)
    then show ?thesis by blast
  qed
qed

section \<open>Extending the tree\<close>

text \<open>\<open>m'\<close> has the nodes and edges of \<open>m\<close>, and perhaps more nodes, with nothing registered there.\<close>

definition extends :: "matcher \<Rightarrow> matcher \<Rightarrow> bool" where
  "extends m m' \<longleftrightarrow>
     (\<forall>a s b. child m a s = Some b \<longrightarrow> child m' a s = Some b) \<and>
     (\<forall>a. store m a \<noteq> None \<longrightarrow> store m' a \<noteq> None) \<and>
     (\<forall>a. registered_at m' a = registered_at m a) \<and>
     resources m' = resources m"

lemma extends_refl: "extends m m"
  by (simp add: extends_def)

lemma extends_trans: "extends m m' \<Longrightarrow> extends m' m'' \<Longrightarrow> extends m m''"
  by (simp add: extends_def)

lemma extends_walk:
  "extends m m' \<Longrightarrow> walk m a t = Some b \<Longrightarrow> walk m' a t = Some b"
proof (induction t arbitrary: a)
  case (Cons s t)
  then show ?case by (auto simp: extends_def split: option.splits)
qed simp

lemma extends_routes:
  assumes "wf_matcher m" "wf_matcher m'" "extends m m'"
  shows "routes m' = routes m"
proof
  fix t
  show "routes m' t = routes m t"
  proof (cases "walk m head_addr t")
    case (Some a)
    then show ?thesis
      using extends_walk [OF assms(3) Some] assms(3) by (simp add: routes_def extends_def)
  next
    case None
    have "registered_at m' a = None" if a: "walk m' head_addr t = Some a" for a
    proof (cases "store m a")
      case None
      then have "registered_at m a = None" by (simp add: registered_at_def)
      with assms(3) show ?thesis by (simp add: extends_def)
    next
      case (Some n)
      then obtain u where u: "walk m head_addr u = Some a"
        using reachable_walk [OF assms(1)] by blast
      then have "walk m' head_addr u = Some a" by (rule extends_walk [OF assms(3)])
      with a have "u = t" using walk_inj [OF assms(2)] by blast
      with u \<open>walk m head_addr t = None\<close> show ?thesis by simp
    qed
    with None show ?thesis by (simp add: routes_def split: option.splits)
  qed
qed

end
