(* ===== verification/Matcher_Add.thy ===== *)
theory Matcher_Add
  imports Matcher_Heap
begin

text \<open>
  Correctness of \<open>ResourceMatcher::addResource\<close>: it never follows a dangling pointer, keeps the
  heap a tree without lost nodes, and refines an update of the map from templates to
  resources. The contract is the locale \<open>route_table\<close>, in which registering a list of resources
  is treated once; \<open>trie_table\<close> is its interpretation on the matcher of the code.
\<close>

section \<open>Adding an edge to a fresh node\<close>

definition linked :: "matcher \<Rightarrow> addr \<Rightarrow> seg \<Rightarrow> matcher \<Rightarrow> bool" where
  "linked m cur s m' \<longleftrightarrow>
     (\<forall>a r. child m' a r = (if a = cur \<and> r = s then Some (fresh m) else child m a r)) \<and>
     (\<forall>a. store m' a \<noteq> None \<longleftrightarrow> store m a \<noteq> None \<or> a = fresh m) \<and>
     (\<forall>a. registered_at m' a = registered_at m a) \<and>
     (\<forall>a n. store m' a = Some n \<longrightarrow> node_ok n) \<and>
     fresh m' = fresh m + 1 \<and> resources m' = resources m"

lemma linked_wf:
  assumes wf: "wf_matcher m" and cur: "store m cur \<noteq> None" "child m cur s = None"
    and l: "linked m cur s m'"
  shows "wf_matcher m'"
proof -
  have child: "child m' a r = (if a = cur \<and> r = s then Some (fresh m) else child m a r)" for a r
    using l by (simp add: linked_def)
  have dom: "store m' a \<noteq> None \<longleftrightarrow> store m a \<noteq> None \<or> a = fresh m" for a
    using l unfolding linked_def by blast
  have no_fresh: "child m a r \<noteq> Some (fresh m)" for a r
    using wf_matcher_child [OF wf, of a r "fresh m"] wf_matcher_fresh [OF wf, of "fresh m"] by blast
  have "edges_closed m'"
    unfolding edges_closed_def dom using wf_matcher_child [OF wf] wf_matcher_fresh [OF wf cur(1)]
    by (auto simp: child)
  moreover have "edges_separate m'"
    unfolding edges_separate_def child using wf_matcher_child_inj [OF wf] no_fresh by (metis option.inject)
  moreover have "all_rooted m'"
    unfolding all_rooted_def dom child using wf_matcher_parent [OF wf] cur(2) by (metis option.distinct(1))
  moreover have "\<forall>a. store m' a \<noteq> None \<longrightarrow> a < fresh m'"
    using l wf_matcher_fresh [OF wf] unfolding dom by (auto simp: linked_def less_Suc_eq)
  ultimately show ?thesis
    using l dom wf_matcher_head [OF wf] unfolding wf_matcher_def linked_def by blast
qed

lemma linked_extends: "child m cur s = None \<Longrightarrow> linked m cur s m' \<Longrightarrow> extends m m'"
  unfolding linked_def extends_def by auto

lemma new_Node_ok: "node_ok new_Node"
  by (simp add: node_ok_def new_Node_def)

lemma linked_varChild:
  assumes wf: "wf_matcher m" and cur: "store m cur = Some n" "varChild n = None"
  shows "linked m cur Var
    (m\<lparr>fresh := fresh m + 1,
       store := (store m)(fresh m \<mapsto> new_Node, cur \<mapsto> n\<lparr>varChild := Some (fresh m)\<rparr>)\<rparr>)"
proof -
  have "store m (fresh m) = None" using wf_matcher_fresh [OF wf, of "fresh m"] by fastforce
  moreover have "cur \<noteq> fresh m" using wf_matcher_fresh [OF wf, of cur] cur(1) by auto
  ultimately show ?thesis
    using cur wf_matcher_node [OF wf] new_Node_ok
    by (auto simp: linked_def child_def registered_at_def new_Node_def node_ok_def split: seg.splits)
qed

lemma node_ok_umap_assign:
  "node_ok n \<Longrightarrow> \<not> isVariable c \<Longrightarrow> node_ok (n\<lparr>children := umap_assign (children n) c a\<rparr>)"
  by (auto simp: node_ok_def umap_assign_keys distinct_umap_assign)

lemma linked_children:
  assumes wf: "wf_matcher m" and cur: "store m cur = Some n" "map_of (children n) c = None"
    and c: "\<not> isVariable c"
  shows "linked m cur (Lit c)
    (m\<lparr>fresh := fresh m + 1,
       store := (store m)(fresh m \<mapsto> new_Node,
         cur \<mapsto> n\<lparr>children := umap_assign (children n) c (fresh m)\<rparr>)\<rparr>)"
proof -
  have f: "store m (fresh m) = None" using wf_matcher_fresh [OF wf, of "fresh m"] by fastforce
  have ne: "cur \<noteq> fresh m" using wf_matcher_fresh [OF wf, of cur] cur(1) by auto
  show ?thesis
    using cur f ne wf_matcher_node [OF wf] new_Node_ok c
    by (auto simp: linked_def child_def registered_at_def new_Node_def map_of_umap_assign
        node_ok_umap_assign split: seg.splits)
qed

section \<open>One component\<close>

lemma add_component_existing:
  "store m cur = Some n \<Longrightarrow> child m cur (seg_of c) = Some b \<Longrightarrow> add_component (m, cur) c = Inr (m, b)"
  by (auto simp: add_component_def child_def seg_of_def load_def split: if_splits)

lemma add_component_new:
  assumes wf: "wf_matcher m" and cur: "store m cur = Some n" "child m cur (seg_of c) = None"
  shows "\<exists>m'. add_component (m, cur) c = Inr (m', fresh m) \<and> linked m cur (seg_of c) m'"
proof -
  have ne: "cur \<noteq> fresh m" using wf_matcher_fresh [OF wf, of cur] cur(1) by auto
  show ?thesis
    using cur ne linked_varChild [OF wf cur(1)] linked_children [OF wf cur(1)]
    by (auto simp: add_component_def child_def seg_of_def load_def alloc_def modify_def split: if_splits)
qed

lemma add_component_correct:
  assumes wf: "wf_matcher m" and cur: "store m cur \<noteq> None"
  obtains m' b where "add_component (m, cur) c = Inr (m', b)" "wf_matcher m'" "extends m m'"
    "child m' cur (seg_of c) = Some b" "store m' b \<noteq> None"
proof -
  from cur obtain n where n: "store m cur = Some n" by blast
  show thesis
  proof (cases "child m cur (seg_of c)")
    case (Some b)
    then show thesis
      using that [of m b] add_component_existing [OF n Some] wf wf_matcher_child [OF wf Some]
        extends_refl by blast
  next
    case None
    from add_component_new [OF wf n None] obtain m' where
      m': "add_component (m, cur) c = Inr (m', fresh m)" "linked m cur (seg_of c) m'" by blast
    then have "child m' cur (seg_of c) = Some (fresh m)" by (simp add: linked_def)
    with m' show thesis
      using that [of m' "fresh m"] linked_wf [OF wf cur None m'(2)] linked_extends [OF None m'(2)]
        wf_matcher_child by blast
  qed
qed

section \<open>The loop over the components\<close>

lemma add_components_correct:
  assumes "wf_matcher m" "store m cur \<noteq> None"
  shows "\<exists>m' b. fold_res add_component (m, cur) cs = Inr (m', b) \<and> wf_matcher m' \<and> extends m m' \<and>
    walk m' cur (map seg_of cs) = Some b \<and> store m' b \<noteq> None"
  using assms
proof (induction cs arbitrary: m cur)
  case Nil
  then show ?case by (auto simp: extends_refl)
next
  case (Cons c cs)
  from add_component_correct [OF Cons.prems, of c] obtain m1 b1 where
    1: "add_component (m, cur) c = Inr (m1, b1)" "wf_matcher m1" "extends m m1"
    "child m1 cur (seg_of c) = Some b1" "store m1 b1 \<noteq> None" by blast
  from Cons.IH [OF 1(2,5)] obtain m2 b2 where
    2: "fold_res add_component (m1, b1) cs = Inr (m2, b2)" "wf_matcher m2" "extends m1 m2"
    "walk m2 b1 (map seg_of cs) = Some b2" "store m2 b2 \<noteq> None" by blast
  have "child m2 cur (seg_of c) = Some b1" using 1(4) 2(3) by (simp add: extends_def)
  with 1 2 show ?case by (auto intro: extends_trans)
qed

lemma add_components_existing:
  "wf_matcher m \<Longrightarrow> store m cur \<noteq> None \<Longrightarrow> walk m cur (map seg_of cs) = Some b \<Longrightarrow>
     fold_res add_component (m, cur) cs = Inr (m, b)"
proof (induction cs arbitrary: cur)
  case (Cons c cs)
  from Cons.prems(3) obtain d where d: "child m cur (seg_of c) = Some d"
    "walk m d (map seg_of cs) = Some b" by (auto split: option.splits)
  from Cons.prems(2) obtain n where "store m cur = Some n" by blast
  with d have "add_component (m, cur) c = Inr (m, d)" by (simp add: add_component_existing)
  moreover have "store m d \<noteq> None" using wf_matcher_child [OF Cons.prems(1) d(1)] by blast
  ultimately show ?case using Cons.IH [OF Cons.prems(1) _ d(2)] by simp
qed simp

section \<open>Registering at the final node\<close>

definition register_at :: "matcher \<Rightarrow> addr \<Rightarrow> node \<Rightarrow> resource \<Rightarrow> methods \<Rightarrow> matcher" where
  "register_at m a n r meths =
     m\<lparr>store := (store m)(a \<mapsto> n\<lparr>nresource := Some r, nmethods := Some meths\<rparr>),
       resources := resources m @ [r]\<rparr>"

lemma child_register_at:
  "store m a = Some n \<Longrightarrow> child (register_at m a n r meths) b s = child m b s"
  by (simp add: child_def register_at_def split: seg.splits)

lemma walk_register_at:
  "store m a = Some n \<Longrightarrow> walk (register_at m a n r meths) b t = walk m b t"
  by (induction t arbitrary: b) (simp_all add: child_register_at split: option.splits)

lemma node_ok_register:
  "node_ok n \<Longrightarrow> node_ok (n\<lparr>nresource := Some r, nmethods := Some f\<rparr>)"
  by (simp add: node_ok_def)

lemma wf_register_at:
  assumes "wf_matcher m" "store m a = Some n"
  shows "wf_matcher (register_at m a n r meths)"
proof -
  have dom: "store (register_at m a n r meths) b \<noteq> None \<longleftrightarrow> store m b \<noteq> None" for b
    using assms(2) by (simp add: register_at_def)
  have ok: "node_ok k" if "store (register_at m a n r meths) b = Some k" for b k
    using that node_ok_register [OF wf_matcher_node [OF assms]] wf_matcher_node [OF assms(1), of b k]
    by (auto simp: register_at_def split: if_splits)
  have "edges_closed (register_at m a n r meths)"
    unfolding edges_closed_def dom child_register_at [OF assms(2)]
    using wf_matcher_child [OF assms(1)] by blast
  moreover have "edges_separate (register_at m a n r meths)"
    unfolding edges_separate_def child_register_at [OF assms(2)]
    using wf_matcher_child_inj [OF assms(1)] by blast
  moreover have "all_rooted (register_at m a n r meths)"
    unfolding all_rooted_def dom child_register_at [OF assms(2)]
    using wf_matcher_parent [OF assms(1)] by blast
  moreover have "\<forall>b. store (register_at m a n r meths) b \<noteq> None \<longrightarrow>
      b < fresh (register_at m a n r meths)"
    unfolding dom using wf_matcher_fresh [OF assms(1)] by (simp add: register_at_def)
  ultimately show ?thesis
    unfolding wf_matcher_def dom using ok wf_matcher_head [OF assms(1)] by blast
qed

lemma routes_register_at:
  assumes "wf_matcher m" "store m a = Some n" "walk m head_addr t = Some a"
  shows "routes (register_at m a n r meths) = (routes m)(t \<mapsto> (r, Some meths))"
proof
  fix u
  have reg: "registered_at (register_at m a n r meths) b =
      (if b = a then Some (r, Some meths) else registered_at m b)" for b
    by (simp add: registered_at_def register_at_def)
  show "routes (register_at m a n r meths) u = ((routes m)(t \<mapsto> (r, Some meths))) u"
  proof (cases "u = t")
    case True
    then show ?thesis using assms(3) by (simp add: routes_def walk_register_at [OF assms(2)] reg)
  next
    case False
    then have "walk m head_addr u \<noteq> Some a" using walk_inj [OF assms(1) _ assms(3)] by blast
    with False show ?thesis
      by (simp add: routes_def walk_register_at [OF assms(2)] reg split: option.splits)
  qed
qed

section \<open>addResource\<close>

lemma addResource_unfold:
  "addResource m r meths =
     bind_res (fold_res add_component (m, head_addr) (path_components (path r)))
       (\<lambda>(m1, cur). bind_res (load m1 cur) (\<lambda>n.
          if nresource n \<noteq> None
          then Inr (Some (Runtime_error ''Resource registration collision''), m1)
          else bind_res
                 (modify m1 cur (\<lambda>n. n\<lparr>nresource := Some r, nmethods := Some meths\<rparr>))
                 (\<lambda>m2. Inr (None, m2\<lparr>resources := resources m2 @ [r]\<rparr>))))"
  by (simp add: addResource_def PathComponents_for_eq)

text \<open>A free template: the resource is registered there, and nothing else changes.\<close>

lemma addResource_free:
  assumes wf: "wf_matcher m" and free: "routes m (template (path r)) = None"
  shows "\<exists>m'. addResource m r meths = Inr (None, m') \<and> wf_matcher m' \<and>
    routes m' = (routes m)(template (path r) \<mapsto> (r, Some meths)) \<and>
    resources m' = resources m @ [r]"
proof -
  from add_components_correct [OF wf wf_matcher_head [OF wf]] obtain m1 a where
    1: "fold_res add_component (m, head_addr) (path_components (path r)) = Inr (m1, a)"
    "wf_matcher m1" "extends m m1" "walk m1 head_addr (template (path r)) = Some a"
    "store m1 a \<noteq> None" unfolding template_def by blast
  from 1(5) obtain n where n: "store m1 a = Some n" by blast
  have "routes m1 (template (path r)) = None"
    using free extends_routes [OF wf 1(2,3)] by simp
  then have "nresource n = None"
    using 1(4) n by (simp add: routes_def registered_at_def)
  then have "addResource m r meths = Inr (None, register_at m1 a n r meths)"
    using 1(1) n by (simp add: addResource_unfold load_def modify_def register_at_def)
  moreover have "resources (register_at m1 a n r meths) = resources m @ [r]"
    using 1(3) by (simp add: register_at_def extends_def)
  ultimately show ?thesis
    using wf_register_at [OF 1(2) n] routes_register_at [OF 1(2) n 1(4)]
      extends_routes [OF wf 1(2,3)] by auto
qed

text \<open>A taken template: the exception of the code, and the matcher is exactly what it was.\<close>

lemma addResource_taken:
  assumes wf: "wf_matcher m" and taken: "routes m (template (path r)) \<noteq> None"
  shows "addResource m r meths = Inr (Some (Runtime_error ''Resource registration collision''), m)"
proof -
  from taken obtain a where a: "walk m head_addr (template (path r)) = Some a"
    "registered_at m a \<noteq> None" by (auto simp: routes_def split: option.splits)
  then obtain n where n: "store m a = Some n" "nresource n \<noteq> None"
    by (auto simp: registered_at_def split: option.splits)
  have "fold_res add_component (m, head_addr) (path_components (path r)) = Inr (m, a)"
    using add_components_existing [OF wf wf_matcher_head [OF wf]] a(1) by (simp add: template_def)
  with n show ?thesis by (simp add: addResource_unfold load_def)
qed

section \<open>The interface: a table of routes\<close>

locale route_table =
  fixes empty_table :: 'm
    and add :: "'m \<Rightarrow> 'r \<Rightarrow> 'f \<Rightarrow> (exn option \<times> 'm) res"
    and table :: "'m \<Rightarrow> 't \<Rightarrow> ('r \<times> 'f option) option"
    and listed :: "'m \<Rightarrow> 'r list"
    and key :: "'r \<Rightarrow> 't"
    and valid :: "'m \<Rightarrow> bool"
    and collision :: exn
  assumes empty_valid: "valid empty_table"
    and empty_routes: "table empty_table = Map.empty"
    and empty_listed: "listed empty_table = []"
    and add_free: "valid m \<Longrightarrow> table m (key r) = None \<Longrightarrow>
      \<exists>m'. add m r f = Inr (None, m') \<and> valid m' \<and>
        table m' = (table m)(key r \<mapsto> (r, Some f)) \<and> listed m' = listed m @ [r]"
    and add_taken: "valid m \<Longrightarrow> table m (key r) \<noteq> None \<Longrightarrow>
      add m r f = Inr (Some collision, m)"
begin

text \<open>Registering resources one after the other, as a program does, until one throws.\<close>

fun add_all :: "'m \<Rightarrow> ('r \<times> 'f) list \<Rightarrow> (exn option \<times> 'm) res" where
  "add_all m [] = Inr (None, m)"
| "add_all m ((r, f) # rs) =
     bind_res (add m r f)
       (\<lambda>(e, m'). case e of Some x \<Rightarrow> Inr (Some x, m') | None \<Rightarrow> add_all m' rs)"

lemma add_cases:
  assumes "valid m"
  obtains m' where "add m r f = Inr (None, m')" "valid m'" | "add m r f = Inr (Some collision, m)"
  using add_free [OF assms, of r f] add_taken [OF assms, of r f] by (cases "table m (key r)") auto

lemma add_valid: "valid m \<Longrightarrow> add m r f = Inr (e, m') \<Longrightarrow> valid m'"
  by (rule add_cases [of m r f]) auto

lemma add_all_valid: "valid m \<Longrightarrow> \<exists>e m'. add_all m rs = Inr (e, m') \<and> valid m'"
proof (induction m rs rule: add_all.induct)
  case (2 m r f rs)
  show ?case
  proof (rule add_cases [OF "2.prems", of r f])
    fix m' assume "add m r f = Inr (None, m')" "valid m'"
    then show ?thesis using "2.IH" [of "(None, m')"] by simp
  qed (use "2.prems" in simp)
qed simp

text \<open>Either all are registered, or those before the first whose key is taken.\<close>

lemma add_all_prefix:
  "valid m \<Longrightarrow> \<exists>k m'. add_all m rs = Inr (if k = length rs then None else Some collision, m') \<and>
     k \<le> length rs \<and> valid m' \<and> listed m' = listed m @ map fst (take k rs) \<and>
     table m' = table m ++ map_of (rev (map (\<lambda>(r, f). (key r, (r, Some f))) (take k rs))) \<and>
     (k < length rs \<longrightarrow> table m' (key (fst (rs ! k))) \<noteq> None)"
proof (induction rs arbitrary: m)
  case (Cons rf rs)
  obtain r f where rf: "rf = (r, f)" by (cases rf)
  show ?case
  proof (cases "table m (key r) = None")
    case True
    from add_free [OF Cons.prems True] obtain m1 where
      1: "add m r f = Inr (None, m1)" "valid m1" "table m1 = (table m)(key r \<mapsto> (r, Some f))"
      "listed m1 = listed m @ [r]" by blast
    from Cons.IH [OF 1(2)] obtain k m2 where
      2: "add_all m1 rs = Inr (if k = length rs then None else Some collision, m2)"
      "k \<le> length rs" "valid m2" "listed m2 = listed m1 @ map fst (take k rs)"
      "table m2 = table m1 ++ map_of (rev (map (\<lambda>(r, f). (key r, (r, Some f))) (take k rs)))"
      "k < length rs \<longrightarrow> table m2 (key (fst (rs ! k))) \<noteq> None" by blast
    have "table m2 = table m ++ map_of (rev (map (\<lambda>(r, f). (key r, (r, Some f))) (take (Suc k) (rf # rs))))"
      unfolding 2(5) 1(3) by (simp add: rf)
    with 1 2 rf show ?thesis by (intro exI [of _ "Suc k"] exI [of _ m2]) simp
  next
    case False
    from add_taken [OF Cons.prems False] rf False Cons.prems show ?thesis
      by (intro exI [of _ 0] exI [of _ m]) auto
  qed
qed simp

lemma add_all_distinct:
  assumes "valid m" "distinct (map (key \<circ> fst) rs)" "\<forall>(r, f)\<in>set rs. table m (key r) = None"
  shows "\<exists>m'. add_all m rs = Inr (None, m') \<and> valid m' \<and>
    table m' = table m ++ map_of (map (\<lambda>(r, f). (key r, (r, Some f))) rs) \<and>
    listed m' = listed m @ map fst rs"
  using assms
proof (induction rs arbitrary: m)
  case (Cons rf rs)
  obtain r f where rf: "rf = (r, f)" by (cases rf)
  from add_free [of m r f] Cons.prems(1,3) rf obtain m1 where
    1: "add m r f = Inr (None, m1)" "valid m1" "table m1 = (table m)(key r \<mapsto> (r, Some f))"
    "listed m1 = listed m @ [r]" by auto
  have "\<forall>(r, f)\<in>set rs. table m1 (key r) = None"
    using Cons.prems(2,3) rf 1(3) by force
  with Cons.IH [OF 1(2)] Cons.prems(2) rf obtain m2 where
    2: "add_all m1 rs = Inr (None, m2)" "valid m2"
    "table m2 = table m1 ++ map_of (map (\<lambda>(r, f). (key r, (r, Some f))) rs)"
    "listed m2 = listed m1 @ map fst rs" by auto
  have none: "map_of (map (\<lambda>(r, f). (key r, (r, Some f))) rs) (key r) = None"
    using Cons.prems(2) rf by (force simp: map_of_eq_None_iff)
  have "table m2 = table m ++ map_of (map (\<lambda>(r, f). (key r, (r, Some f))) (rf # rs))"
    unfolding 2(3) 1(3) rf using none
    by (intro ext) (auto simp: map_add_def split: option.splits)
  moreover have "add_all m (rf # rs) = Inr (None, m2)" using 1(1) 2(1) rf by simp
  moreover have "listed m2 = listed m @ map fst (rf # rs)" using 1(4) 2(4) rf by simp
  ultimately show ?case using 2(2) by blast
qed simp

lemma add_all_collision:
  assumes "valid m" "distinct (map (key \<circ> fst) rs)" "\<forall>(r, f)\<in>set rs. table m (key r) = None"
    and "(r', f') \<in> set rs" "key r = key r'"
  shows "\<exists>m'. add_all m (rs @ [(r, f)]) = Inr (Some collision, m') \<and> valid m' \<and>
    listed m' = listed m @ map fst rs"
proof -
  have app: "add_all m (xs @ ys) =
      bind_res (add_all m xs) (\<lambda>(e, m'). case e of Some x \<Rightarrow> Inr (Some x, m') | None \<Rightarrow> add_all m' ys)"
    for m xs ys
  proof (induction m xs rule: add_all.induct)
    case (2 m r f rs)
    then show ?case
      by (cases "add m r f") (auto split: option.splits)
  qed simp
  from add_all_distinct [OF assms(1-3)] obtain m' where
    m': "add_all m rs = Inr (None, m')" "valid m'"
    "table m' = table m ++ map_of (map (\<lambda>(r, f). (key r, (r, Some f))) rs)"
    "listed m' = listed m @ map fst rs" by blast
  have "key r \<in> fst ` set (map (\<lambda>(r, f). (key r, (r, Some f))) rs)"
    using assms(4,5) by force
  then have "table m' (key r) \<noteq> None"
    by (auto simp: m'(3) map_add_def map_of_eq_None_iff simp del: not_None_eq split: option.splits)
  with m' show ?thesis by (simp add: app add_taken)
qed

end

interpretation trie_table: route_table ResourceMatcher addResource routes matcher_resources
  "\<lambda>r. template (path r)" wf_matcher "Runtime_error ''Resource registration collision''"
proof unfold_locales
  show "wf_matcher ResourceMatcher" by (rule wf_ResourceMatcher)
  show "routes ResourceMatcher = Map.empty" by (rule routes_ResourceMatcher)
  show "matcher_resources ResourceMatcher = []"
    by (simp add: matcher_resources_def ResourceMatcher_def)
  show "\<exists>m'. addResource m r f = Inr (None, m') \<and> wf_matcher m' \<and>
      routes m' = (routes m)(template (path r) \<mapsto> (r, Some f)) \<and>
      matcher_resources m' = matcher_resources m @ [r]"
    if "wf_matcher m" "routes m (template (path r)) = None" for m r f
    using addResource_free [OF that] by (simp add: matcher_resources_def)
  show "addResource m r f = Inr (Some (Runtime_error ''Resource registration collision''), m)"
    if "wf_matcher m" "routes m (template (path r)) \<noteq> None" for m r f
    using that by (rule addResource_taken)
qed

text \<open>Resources with pairwise distinct templates, registered with their bound methods.\<close>

definition bound :: "resource list \<Rightarrow> (resource \<times> methods) list" where
  "bound rs = map (\<lambda>r. (r, bindMethods r)) rs"

definition routes_of :: "resource list \<Rightarrow> seg list \<Rightarrow> (resource \<times> methods option) option" where
  "routes_of rs = map_of (map (\<lambda>r. (template (path r), (r, Some (bindMethods r)))) rs)"

lemma routes_of_member:
  "distinct (map (\<lambda>r. template (path r)) rs) \<Longrightarrow> r \<in> set rs \<Longrightarrow>
     routes_of rs (template (path r)) = Some (r, Some (bindMethods r))"
  unfolding routes_of_def by (intro map_of_is_SomeI) (auto simp: comp_def)

lemma routes_of_Some: "routes_of rs ts = Some v \<Longrightarrow> \<exists>r\<in>set rs. ts = template (path r)"
  unfolding routes_of_def by (drule map_of_SomeD) auto

lemma register_distinct:
  assumes "distinct (map (\<lambda>r. template (path r)) rs)"
  shows "\<exists>m. trie_table.add_all ResourceMatcher (bound rs) = Inr (None, m) \<and> wf_matcher m \<and>
    routes m = routes_of rs"
proof -
  have d: "distinct (map ((\<lambda>r. template (path r)) \<circ> fst) (bound rs))"
    using assms by (simp add: bound_def comp_def)
  have free: "\<forall>(r, f)\<in>set (bound rs). routes ResourceMatcher (template (path r)) = None"
    by (simp add: routes_ResourceMatcher split_beta)
  have "\<exists>m'. trie_table.add_all ResourceMatcher (bound rs) = Inr (None, m') \<and> wf_matcher m' \<and>
      routes m' = routes ResourceMatcher ++
        map_of (map (\<lambda>(r, f). (template (path r), (r, Some f))) (bound rs)) \<and>
      matcher_resources m' = matcher_resources ResourceMatcher @ map fst (bound rs)"
    by (rule trie_table.add_all_distinct [OF wf_ResourceMatcher d free])
  then show ?thesis by (auto simp: bound_def routes_of_def routes_ResourceMatcher comp_def)
qed

section \<open>Properties\<close>

text \<open>C3: Registering at a free template succeeds; as a map from templates to resources and methods, the
  matcher becomes the update of what it was at that template, the list of resources grows by the
  new one at its end, and the invariant of the trie is kept.\<close>

theorem register_free:
  assumes "wf_matcher m" and "routes m (template (path r)) = None"
  shows "\<exists>m'. addResource m r meths = Inr (None, m') \<and> wf_matcher m' \<and>
    routes m' = (routes m)(template (path r) \<mapsto> (r, Some meths)) \<and>
    matcher_resources m' = matcher_resources m @ [r]"
  by (rule trie_table.add_free [OF assms])

theorem register_free_witness:
  "\<exists>m. addResource ResourceMatcher (Resource 1 ''/users/{id}'') (bindMethods (Resource 1 ''/users/{id}'')) =
     Inr (None, m) \<and> routes m [Lit '''', Lit ''users'', Var] \<noteq> None \<and> routes m [] = None"
proof -
  have "template ''/users/{id}'' = [Lit '''', Lit ''users'', Var]" by code_simp
  then have t: "template (path (Resource 1 ''/users/{id}'')) = [Lit '''', Lit ''users'', Var]"
    by (simp add: Resource_def)
  have "routes ResourceMatcher (template (path (Resource 1 ''/users/{id}''))) = None"
    by (simp add: routes_ResourceMatcher)
  from register_free [OF wf_ResourceMatcher this, of "bindMethods (Resource 1 ''/users/{id}'')"]
  obtain m where "addResource ResourceMatcher (Resource 1 ''/users/{id}'')
      (bindMethods (Resource 1 ''/users/{id}'')) = Inr (None, m)"
    "routes m = [[Lit '''', Lit ''users'', Var] \<mapsto>
      (Resource 1 ''/users/{id}'', Some (bindMethods (Resource 1 ''/users/{id}'')))]"
    unfolding t routes_ResourceMatcher by blast
  then show ?thesis by (intro exI [of _ m]) simp
qed

text \<open>C21: Registering at a taken template throws the collision exception and leaves the matcher exactly as
  it was: no node, no route and no list entry is added.\<close>

theorem register_taken:
  assumes "wf_matcher m" and "routes m (template (path r)) \<noteq> None"
  shows "addResource m r meths = Inr (Some (Runtime_error ''Resource registration collision''), m)"
  by (rule trie_table.add_taken [OF assms])

theorem register_taken_witness:
  "\<exists>m. addResource ResourceMatcher (Resource 1 ''/{a}'') (bindMethods (Resource 1 ''/{a}'')) = Inr (None, m) \<and>
     addResource m (Resource 2 ''/{b}'') (bindMethods (Resource 2 ''/{b}'')) =
       Inr (Some (Runtime_error ''Resource registration collision''), m)"
proof -
  have "template ''/{a}'' = [Lit '''', Var]" "template ''/{b}'' = [Lit '''', Var]" by code_simp+
  then have t: "template (path (Resource 1 ''/{a}'')) = [Lit '''', Var]"
    "template (path (Resource 2 ''/{b}'')) = [Lit '''', Var]" by (simp_all add: Resource_def)
  have "routes ResourceMatcher (template (path (Resource 1 ''/{a}''))) = None"
    by (simp add: routes_ResourceMatcher)
  from addResource_free [OF wf_ResourceMatcher this, of "bindMethods (Resource 1 ''/{a}'')"]
  obtain m where m: "addResource ResourceMatcher (Resource 1 ''/{a}'') (bindMethods (Resource 1 ''/{a}'')) =
      Inr (None, m)" "wf_matcher m" and r: "routes m = (routes ResourceMatcher)([Lit '''', Var] \<mapsto>
      (Resource 1 ''/{a}'', Some (bindMethods (Resource 1 ''/{a}''))))"
    unfolding t by blast
  have "routes m (template (path (Resource 2 ''/{b}''))) \<noteq> None" unfolding t r by simp
  from register_taken [OF m(2) this] m(1) show ?thesis by blast
qed

text \<open>Registering any list of resources on a new matcher, until one throws, never runs into undefined
  behaviour and leaves a well-formed trie that routes and lists exactly the resources before the
  first one whose template (up to the names of its variables) was taken.\<close>

theorem register_list:
  "\<exists>k m'. trie_table.add_all ResourceMatcher rs =
       Inr (if k = length rs then None else Some (Runtime_error ''Resource registration collision''), m') \<and>
     k \<le> length rs \<and> wf_matcher m' \<and> matcher_resources m' = map fst (take k rs) \<and>
     routes m' = map_of (rev (map (\<lambda>(r, f). (template (path r), (r, Some f))) (take k rs))) \<and>
     (k = length rs \<or> (\<exists>rf. routes m' (template (path (fst (rs ! k)))) = Some rf))"
proof -
  from trie_table.add_all_prefix [OF wf_ResourceMatcher, of rs] obtain k m' where
    "trie_table.add_all ResourceMatcher rs =
       Inr (if k = length rs then None else Some (Runtime_error ''Resource registration collision''), m')"
    "k \<le> length rs" "wf_matcher m'" "matcher_resources m' = map fst (take k rs)"
    "routes m' = map_of (rev (map (\<lambda>(r, f). (template (path r), (r, Some f))) (take k rs)))"
    "k < length rs \<longrightarrow> routes m' (template (path (fst (rs ! k)))) \<noteq> None"
    unfolding routes_ResourceMatcher trie_table.empty_listed by auto
  then show ?thesis by (intro exI [of _ k] exI [of _ m']) auto
qed

end
