(* ===== verification/Ordered_Set.thy ===== *)
theory Ordered_Set
  imports Prelude
begin

text \<open>
  The one use the code makes of \<open>std::set\<close>: elements are inserted one after the other under a
  comparator of the program, and then the element at \<open>begin()\<close> is read. An implementation of
  that use is a function \<open>first lt xs\<close> of the comparator and the inserted elements in order.

  The standard requires the comparator to be a strict weak ordering of the elements
  (\<open>swo_on\<close>); otherwise the program is undefined. The locale \<open>ordered_set\<close> is that contract,
  and \<open>set_begin_std\<close>, which is undefined wherever the standard leaves it so, its weakest
  provider. The locale \<open>total_ordered_set\<close> adds that an element is delivered for every
  comparator, as red-black trees do; \<open>set_begin_rb\<close> is the tree insertion of the common
  implementation (find the place by comparing the new key with the nodes on the way down,
  compare the predecessor with the new key, rebalance). The locale \<open>comparing_set\<close> adds that nothing
  is done with the elements but to compare them.
\<close>

section \<open>The contract\<close>

definition swo_on :: "('a \<Rightarrow> 'a \<Rightarrow> bool) \<Rightarrow> 'a list \<Rightarrow> bool" where
  "swo_on lt xs \<longleftrightarrow>
     (\<forall>x\<in>set xs. \<not> lt x x) \<and>
     (\<forall>x\<in>set xs. \<forall>y\<in>set xs. \<forall>z\<in>set xs. lt x y \<and> lt y z \<longrightarrow> lt x z) \<and>
     (\<forall>x\<in>set xs. \<forall>y\<in>set xs. \<forall>z\<in>set xs.
        \<not> lt x y \<and> \<not> lt y x \<and> \<not> lt y z \<and> \<not> lt z y \<longrightarrow> \<not> lt x z \<and> \<not> lt z x)"

text \<open>The first of the least elements of a non-empty list.\<close>

definition least_of :: "('a \<Rightarrow> 'a \<Rightarrow> bool) \<Rightarrow> 'a list \<Rightarrow> 'a" where
  "least_of lt xs = foldl (\<lambda>m y. if lt y m then y else m) (hd xs) (tl xs)"

locale ordered_set =
  fixes first :: "('a \<Rightarrow> 'a \<Rightarrow> bool) \<Rightarrow> 'a list \<Rightarrow> 'a res"
  assumes first_least: "xs \<noteq> [] \<Longrightarrow> swo_on lt xs \<Longrightarrow> first lt xs = Inr (least_of lt xs)"
    and first_sound: "xs \<noteq> [] \<Longrightarrow> first lt xs = Inr x \<Longrightarrow> x \<in> set xs"
    and first_no_throw: "xs \<noteq> [] \<Longrightarrow> first lt xs \<noteq> Inl (Throw e)"

lemma swo_on_subset: "swo_on lt xs \<Longrightarrow> set ys \<subseteq> set xs \<Longrightarrow> swo_on lt ys"
  unfolding swo_on_def by blast

lemma least_of_snoc:
  "xs \<noteq> [] \<Longrightarrow> least_of lt (xs @ [y]) = (if lt y (least_of lt xs) then y else least_of lt xs)"
  by (cases xs) (simp_all add: least_of_def)

lemma least_of_in: "xs \<noteq> [] \<Longrightarrow> least_of lt xs \<in> set xs"
proof (induction xs rule: rev_induct)
  case (snoc y xs)
  show ?case
  proof (cases "xs = []")
    case True
    then show ?thesis by (simp add: least_of_def)
  qed (use snoc.IH in \<open>simp add: least_of_snoc\<close>)
qed simp

lemma swo_on_trans:
  "swo_on lt xs \<Longrightarrow> x \<in> set xs \<Longrightarrow> y \<in> set xs \<Longrightarrow> z \<in> set xs \<Longrightarrow> lt x y \<Longrightarrow> lt y z \<Longrightarrow> lt x z"
  unfolding swo_on_def by blast

lemma swo_on_irrefl: "swo_on lt xs \<Longrightarrow> x \<in> set xs \<Longrightarrow> \<not> lt x x"
  unfolding swo_on_def by blast

lemma least_of_least:
  "xs \<noteq> [] \<Longrightarrow> swo_on lt xs \<Longrightarrow> y \<in> set xs \<Longrightarrow> \<not> lt y (least_of lt xs)"
proof (induction xs arbitrary: y rule: rev_induct)
  case (snoc z xs)
  note trans = swo_on_trans [OF snoc.prems(2)] and irrefl = swo_on_irrefl [OF snoc.prems(2)]
  show ?case
  proof (cases "xs = []")
    case True
    with snoc.prems irrefl show ?thesis by (simp add: least_of_def)
  next
    case False
    let ?m = "least_of lt xs"
    have m: "?m \<in> set (xs @ [z])" using least_of_in [OF False] by auto
    have xs: "swo_on lt xs" using snoc.prems(2) by (rule swo_on_subset) auto
    have old: "\<not> lt x ?m" if "x \<in> set xs" for x using snoc.IH [OF False xs that] .
    show ?thesis
    proof (cases "lt z ?m")
      case True
      have "\<not> lt y z"
      proof
        assume yz: "lt y z"
        have "y \<noteq> z" using yz irrefl [of z] by auto
        then have "y \<in> set xs" using snoc.prems(3) by auto
        moreover have "lt y ?m" using trans [OF snoc.prems(3) _ m yz True] by simp
        ultimately show False using old by blast
      qed
      with True False show ?thesis by (simp add: least_of_snoc)
    next
      case not_lt: False
      then show ?thesis using old snoc.prems(3) False by (auto simp: least_of_snoc)
    qed
  qed
qed simp

section \<open>The standard's set\<close>

definition set_begin_std :: "('a \<Rightarrow> 'a \<Rightarrow> bool) \<Rightarrow> 'a list \<Rightarrow> 'a res" where
  "set_begin_std lt xs = (if xs \<noteq> [] \<and> swo_on lt xs then Inr (least_of lt xs) else Inl Undef)"

interpretation std_set: ordered_set set_begin_std
  by unfold_locales (auto simp: set_begin_std_def least_of_in split: if_splits)

section \<open>The red-black tree\<close>

datatype color = Red | Black

datatype 'a rbtree = Leaf | Node color "'a rbtree" 'a "'a rbtree"

fun inorder :: "'a rbtree \<Rightarrow> 'a list" where
  "inorder Leaf = []"
| "inorder (Node c l a r) = inorder l @ a # inorder r"

fun is_red :: "'a rbtree \<Rightarrow> bool" where
  "is_red (Node Red l a r) = True"
| "is_red _ = False"

fun paint :: "color \<Rightarrow> 'a rbtree \<Rightarrow> 'a rbtree" where
  "paint c Leaf = Leaf"
| "paint c (Node d l a r) = Node c l a r"

text \<open>
  Rebalancing at a black node whose left (right) child is red with a red child: recolour when
  the other child is red too, rotate otherwise.
\<close>

fun rotate_right :: "'a rbtree \<Rightarrow> 'a \<Rightarrow> 'a rbtree \<Rightarrow> 'a rbtree" where
  "rotate_right (Node c ll la lr) a r = Node Black ll la (Node Red lr a r)"
| "rotate_right Leaf a r = Node Black Leaf a r"

fun rotate_left :: "'a rbtree \<Rightarrow> 'a \<Rightarrow> 'a rbtree \<Rightarrow> 'a rbtree" where
  "rotate_left l a (Node c rl ra rr) = Node Black (Node Red l a rl) ra rr"
| "rotate_left l a Leaf = Node Black l a Leaf"

fun fix_left :: "'a rbtree \<Rightarrow> 'a \<Rightarrow> 'a rbtree \<Rightarrow> 'a rbtree" where
  "fix_left (Node Red ll la lr) a r =
     (if is_red ll \<or> is_red lr then
        if is_red r then Node Red (paint Black (Node Red ll la lr)) a (paint Black r)
        else if is_red ll then rotate_right (Node Red ll la lr) a r
        else rotate_right (rotate_left ll la lr) a r
      else Node Black (Node Red ll la lr) a r)"
| "fix_left l a r = Node Black l a r"

fun fix_right :: "'a rbtree \<Rightarrow> 'a \<Rightarrow> 'a rbtree \<Rightarrow> 'a rbtree" where
  "fix_right l a (Node Red rl ra rr) =
     (if is_red rl \<or> is_red rr then
        if is_red l then Node Red (paint Black l) a (paint Black (Node Red rl ra rr))
        else if is_red rr then rotate_left l a (Node Red rl ra rr)
        else rotate_left l a (rotate_right rl ra rr)
      else Node Black l a (Node Red rl ra rr))"
| "fix_right l a r = Node Black l a r"

fun rb_ins :: "('a \<Rightarrow> 'a \<Rightarrow> bool) \<Rightarrow> 'a \<Rightarrow> 'a rbtree \<Rightarrow> 'a rbtree" where
  "rb_ins lt k Leaf = Node Red Leaf k Leaf"
| "rb_ins lt k (Node c l a r) =
     (if lt k a
      then (if c = Red then Node Red (rb_ins lt k l) a r else fix_left (rb_ins lt k l) a r)
      else (if c = Red then Node Red l a (rb_ins lt k r) else fix_right l a (rb_ins lt k r)))"

text \<open>The element before the place of the new key: where the way down last went right.\<close>

fun rb_pred :: "('a \<Rightarrow> 'a \<Rightarrow> bool) \<Rightarrow> 'a \<Rightarrow> 'a rbtree \<Rightarrow> 'a option \<Rightarrow> 'a option" where
  "rb_pred lt k Leaf j = j"
| "rb_pred lt k (Node c l a r) j = (if lt k a then rb_pred lt k l j else rb_pred lt k r (Some a))"

definition rb_insert :: "('a \<Rightarrow> 'a \<Rightarrow> bool) \<Rightarrow> 'a rbtree \<Rightarrow> 'a \<Rightarrow> 'a rbtree" where
  "rb_insert lt t k =
     (case rb_pred lt k t None of
        None \<Rightarrow> paint Black (rb_ins lt k t)
      | Some j \<Rightarrow> if lt j k then paint Black (rb_ins lt k t) else t)"

fun rb_begin :: "'a rbtree \<Rightarrow> 'a res" where
  "rb_begin Leaf = Inl Undef"
| "rb_begin (Node c Leaf a r) = Inr a"
| "rb_begin (Node c l a r) = rb_begin l"

definition set_begin_rb :: "('a \<Rightarrow> 'a \<Rightarrow> bool) \<Rightarrow> 'a list \<Rightarrow> 'a res" where
  "set_begin_rb lt xs = rb_begin (foldl (rb_insert lt) Leaf xs)"

subsection \<open>The in-order view\<close>

lemma inorder_paint [simp]: "inorder (paint c t) = inorder t"
  by (cases t) simp_all

lemma inorder_rotate [simp]:
  "inorder (rotate_right l a r) = inorder l @ a # inorder r"
  "inorder (rotate_left l a r) = inorder l @ a # inorder r"
  by (cases l; simp) (cases r; simp)

lemma inorder_fix_left [simp]: "inorder (fix_left l a r) = inorder l @ a # inorder r"
  by (cases "(l, a, r)" rule: fix_left.cases) (simp_all del: paint.simps)

lemma inorder_fix_right [simp]: "inorder (fix_right l a r) = inorder l @ a # inorder r"
  by (cases "(l, a, r)" rule: fix_right.cases) (simp_all del: paint.simps)

lemma inorder_Nil_iff [simp]: "inorder t = [] \<longleftrightarrow> t = Leaf"
  by (cases t) simp_all

lemma rb_begin_inorder: "t \<noteq> Leaf \<Longrightarrow> rb_begin t = Inr (hd (inorder t))"
  by (induction t rule: rb_begin.induct) (simp_all add: hd_append)

text \<open>A new key goes between its predecessor and an element it is less than.\<close>

lemma rb_ins_split:
  "\<exists>ps qs. inorder t = ps @ qs \<and> inorder (rb_ins lt k t) = ps @ k # qs \<and>
     rb_pred lt k t j = (if ps = [] then j else Some (last ps)) \<and>
     (ps \<noteq> [] \<longrightarrow> \<not> lt k (last ps)) \<and> (qs \<noteq> [] \<longrightarrow> lt k (hd qs))"
proof (induction t arbitrary: j)
  case (Node c l a r)
  show ?case
  proof (cases "lt k a")
    case True
    from Node.IH(1) [of j] obtain ps qs where IH: "inorder l = ps @ qs"
      "inorder (rb_ins lt k l) = ps @ k # qs" "rb_pred lt k l j = (if ps = [] then j else Some (last ps))"
      "ps \<noteq> [] \<longrightarrow> \<not> lt k (last ps)" "qs \<noteq> [] \<longrightarrow> lt k (hd qs)" by blast
    have "lt k (hd (qs @ a # inorder r))" using IH(5) True by (cases qs) simp_all
    with IH True show ?thesis
      by (intro exI [of _ ps] exI [of _ "qs @ a # inorder r"]) simp
  next
    case False
    from Node.IH(2) [of "Some a"] obtain ps qs where IH: "inorder r = ps @ qs"
      "inorder (rb_ins lt k r) = ps @ k # qs"
      "rb_pred lt k r (Some a) = (if ps = [] then Some a else Some (last ps))"
      "ps \<noteq> [] \<longrightarrow> \<not> lt k (last ps)" "qs \<noteq> [] \<longrightarrow> lt k (hd qs)" by blast
    with False show ?thesis
      by (intro exI [of _ "inorder l @ a # ps"] exI [of _ qs]) simp
  qed
qed simp

text \<open>
  In the tree, each element is less than its successor under the comparator, whatever the
  comparator is.
\<close>

lemma rb_insert_split:
  obtains ps qs where "inorder t = ps @ qs"
    "inorder (rb_insert lt t k) = (if ps \<noteq> [] \<and> \<not> lt (last ps) k then ps @ qs else ps @ k # qs)"
    "ps \<noteq> [] \<longrightarrow> \<not> lt k (last ps)" "qs \<noteq> [] \<longrightarrow> lt k (hd qs)"
proof -
  from rb_ins_split [of t lt k None] obtain ps qs where "inorder t = ps @ qs"
    "inorder (rb_ins lt k t) = ps @ k # qs"
    "rb_pred lt k t None = (if ps = [] then None else Some (last ps))"
    "ps \<noteq> [] \<longrightarrow> \<not> lt k (last ps)" "qs \<noteq> [] \<longrightarrow> lt k (hd qs)" by blast
  then show thesis by (intro that [of ps qs]) (auto simp: rb_insert_def)
qed

lemma rb_insert_chain: "successively lt (inorder t) \<Longrightarrow> successively lt (inorder (rb_insert lt t k))"
proof (rule rb_insert_split [of t lt k])
  fix ps qs
  assume "successively lt (inorder t)" "inorder t = ps @ qs"
    "inorder (rb_insert lt t k) = (if ps \<noteq> [] \<and> \<not> lt (last ps) k then ps @ qs else ps @ k # qs)"
    "qs \<noteq> [] \<longrightarrow> lt k (hd qs)"
  then show ?thesis by (cases qs) (auto simp: successively_append_iff)
qed

lemma rb_insert_set: "set (inorder (rb_insert lt t k)) \<subseteq> insert k (set (inorder t))"
  by (rule rb_insert_split [of t lt k]) auto

lemma rb_insert_not_Leaf: "rb_insert lt t k \<noteq> Leaf"
proof (rule rb_insert_split [of t lt k])
  fix ps qs
  assume "inorder (rb_insert lt t k) = (if ps \<noteq> [] \<and> \<not> lt (last ps) k then ps @ qs else ps @ k # qs)"
  then have "inorder (rb_insert lt t k) \<noteq> []" by (simp split: if_splits)
  then show ?thesis by simp
qed

lemma rb_fold_set: "set (inorder (foldl (rb_insert lt) t xs)) \<subseteq> set (inorder t) \<union> set xs"
proof (induction xs arbitrary: t)
  case (Cons x xs)
  then show ?case using rb_insert_set [of lt t x] by fastforce
qed simp

lemma rb_fold_chain: "successively lt (inorder t) \<Longrightarrow> successively lt (inorder (foldl (rb_insert lt) t xs))"
  by (induction xs arbitrary: t) (simp_all add: rb_insert_chain)

lemma rb_fold_not_Leaf: "xs \<noteq> [] \<Longrightarrow> foldl (rb_insert lt) t xs \<noteq> Leaf"
  by (cases xs rule: rev_cases) (simp_all add: rb_insert_not_Leaf)

text \<open>Under a strict weak ordering, the front of the tree is the least element.\<close>

lemma rb_insert_hd:
  assumes swo: "swo_on lt xs" "k \<in> set xs" "set (inorder t) \<subseteq> set xs"
    and t: "t \<noteq> Leaf" "successively lt (inorder t)"
  shows "hd (inorder (rb_insert lt t k)) = (if lt k (hd (inorder t)) then k else hd (inorder t))"
proof (rule rb_insert_split [of t lt k])
  fix ps qs
  assume s: "inorder t = ps @ qs"
    "inorder (rb_insert lt t k) = (if ps \<noteq> [] \<and> \<not> lt (last ps) k then ps @ qs else ps @ k # qs)"
    "ps \<noteq> [] \<longrightarrow> \<not> lt k (last ps)" "qs \<noteq> [] \<longrightarrow> lt k (hd qs)"
  show ?thesis
  proof (cases "ps = []")
    case True
    with s t(1) show ?thesis by (cases qs) auto
  next
    case False
    have "\<not> lt k (hd ps)"
    proof
      assume less: "lt k (hd ps)"
      have ps: "set ps \<subseteq> set xs" using swo(3) s(1) by simp
      have "sorted_wrt lt ps"
      proof (rule successively_iff_sorted_wrt_strong [THEN iffD1])
        show "successively lt ps" using t(2) s(1) by (simp add: successively_append_iff)
      qed (use ps swo_on_trans [OF swo(1)] in blast)
      then have "hd ps = last ps \<or> lt (hd ps) (last ps)"
        using False by (cases ps) auto
      moreover have "hd ps \<in> set xs" "last ps \<in> set xs" using False ps by auto
      ultimately have "lt k (last ps)" using less swo_on_trans [OF swo(1,2), of "hd ps" "last ps"] by metis
      with s(3) False show False by simp
    qed
    with s False show ?thesis by auto
  qed
qed

lemma rb_fold_hd:
  "xs \<noteq> [] \<Longrightarrow> swo_on lt xs \<Longrightarrow> hd (inorder (foldl (rb_insert lt) Leaf xs)) = least_of lt xs"
proof (induction xs rule: rev_induct)
  case (snoc k xs)
  show ?case
  proof (cases "xs = []")
    case True
    then show ?thesis by (simp add: rb_insert_def least_of_def)
  next
    case False
    have "swo_on lt xs" using snoc.prems(2) by (rule swo_on_subset) auto
    moreover have "hd (inorder (rb_insert lt (foldl (rb_insert lt) Leaf xs) k)) =
        (if lt k (hd (inorder (foldl (rb_insert lt) Leaf xs))) then k
         else hd (inorder (foldl (rb_insert lt) Leaf xs)))"
      using rb_fold_set [of lt Leaf xs] rb_fold_not_Leaf [OF False] rb_fold_chain [of lt Leaf]
      by (intro rb_insert_hd [OF snoc.prems(2)]) auto
    ultimately show ?thesis using snoc.IH False by (simp add: least_of_snoc)
  qed
qed simp

section \<open>The tree as a set\<close>

locale total_ordered_set = ordered_set +
  assumes first_total: "xs \<noteq> [] \<Longrightarrow> \<exists>x. first lt xs = Inr x"
begin

lemma first_member: "xs \<noteq> [] \<Longrightarrow> \<exists>x\<in>set xs. first lt xs = Inr x"
  using first_total first_sound by metis

end

lemma set_begin_rb_hd:
  "xs \<noteq> [] \<Longrightarrow> set_begin_rb lt xs = Inr (hd (inorder (foldl (rb_insert lt) Leaf xs)))"
  by (simp add: set_begin_rb_def rb_begin_inorder rb_fold_not_Leaf)

interpretation rb_set: total_ordered_set set_begin_rb
proof unfold_locales
  show "xs \<noteq> [] \<Longrightarrow> swo_on lt xs \<Longrightarrow> set_begin_rb lt xs = Inr (least_of lt xs)"
    for xs :: "'a list" and lt
    by (simp add: set_begin_rb_hd rb_fold_hd)
  show "x \<in> set xs" if "xs \<noteq> []" "set_begin_rb lt xs = Inr x" for xs :: "'a list" and lt x
  proof -
    have "x \<in> set (inorder (foldl (rb_insert lt) Leaf xs))"
      using that rb_fold_not_Leaf [OF that(1), of lt Leaf] hd_in_set
      by (auto simp: set_begin_rb_hd)
    with rb_fold_set [of lt Leaf xs] show ?thesis by auto
  qed
  show "xs \<noteq> [] \<Longrightarrow> set_begin_rb lt xs \<noteq> Inl (Throw e)" for xs :: "'a list" and lt e
    by (simp add: set_begin_rb_hd)
  show "xs \<noteq> [] \<Longrightarrow> \<exists>x. set_begin_rb lt xs = Inr x" for xs :: "'a list" and lt
    by (simp add: set_begin_rb_hd)
qed

section \<open>Sets that only compare\<close>

text \<open>An implementation that does nothing with the elements but compare and return them.\<close>

locale comparing_set = ordered_set +
  assumes first_map: "first lt (map f xs) = bind_res (first (\<lambda>x y. lt (f x) (f y)) xs) (\<lambda>x. Inr (f x))"

lemma least_of_map:
  "xs \<noteq> [] \<Longrightarrow> least_of lt (map f xs) = f (least_of (\<lambda>x y. lt (f x) (f y)) xs)"
proof (induction xs rule: rev_induct)
  case (snoc y xs)
  then show ?case by (cases "xs = []") (simp_all add: least_of_snoc, simp add: least_of_def)
qed simp

lemma swo_on_map: "swo_on lt (map f xs) \<longleftrightarrow> swo_on (\<lambda>x y. lt (f x) (f y)) xs"
  by (simp add: swo_on_def)

interpretation std_comparing: comparing_set set_begin_std
proof unfold_locales
  show "set_begin_std lt (map f xs) = bind_res (set_begin_std (\<lambda>x y. lt (f x) (f y)) xs) (\<lambda>x. Inr (f x))"
    for lt f and xs :: "'a list"
  proof (cases "xs \<noteq> [] \<and> swo_on (\<lambda>x y. lt (f x) (f y)) xs")
    case True
    then show ?thesis by (simp add: set_begin_std_def swo_on_map least_of_map)
  qed (auto simp: set_begin_std_def swo_on_map)
qed

lemma is_red_map [simp]: "is_red (map_rbtree f t) = is_red t"
  by (cases t rule: is_red.cases) simp_all

lemma map_paint [simp]: "map_rbtree f (paint c t) = paint c (map_rbtree f t)"
  by (cases t) simp_all

lemma map_rotate [simp]:
  "map_rbtree f (rotate_right l a r) = rotate_right (map_rbtree f l) (f a) (map_rbtree f r)"
  "map_rbtree f (rotate_left l a r) = rotate_left (map_rbtree f l) (f a) (map_rbtree f r)"
  by (cases l; simp) (cases r; simp)

lemma map_fix_left [simp]:
  "map_rbtree f (fix_left l a r) = fix_left (map_rbtree f l) (f a) (map_rbtree f r)"
  by (cases "(l, a, r)" rule: fix_left.cases)
    (simp_all del: paint.simps rotate_right.simps rotate_left.simps)

lemma map_fix_right [simp]:
  "map_rbtree f (fix_right l a r) = fix_right (map_rbtree f l) (f a) (map_rbtree f r)"
  by (cases "(l, a, r)" rule: fix_right.cases)
    (simp_all del: paint.simps rotate_right.simps rotate_left.simps)

lemma map_rb_ins: "map_rbtree f (rb_ins (\<lambda>x y. lt (f x) (f y)) k t) = rb_ins lt (f k) (map_rbtree f t)"
  by (induction t) simp_all

lemma rb_pred_map:
  "map_option f (rb_pred (\<lambda>x y. lt (f x) (f y)) k t j) = rb_pred lt (f k) (map_rbtree f t) (map_option f j)"
  by (induction t arbitrary: j) simp_all

lemma map_rb_insert: "map_rbtree f (rb_insert (\<lambda>x y. lt (f x) (f y)) t k) = rb_insert lt (map_rbtree f t) (f k)"
  using rb_pred_map [of f lt k t None, symmetric]
  by (simp add: rb_insert_def map_rb_ins split: option.split)

lemma map_rb_fold:
  "map_rbtree f (foldl (rb_insert (\<lambda>x y. lt (f x) (f y))) t xs) = foldl (rb_insert lt) (map_rbtree f t) (map f xs)"
  by (induction xs arbitrary: t) (simp_all add: map_rb_insert)

lemma rb_begin_map: "rb_begin (map_rbtree f t) = bind_res (rb_begin t) (\<lambda>x. Inr (f x))"
  by (induction t rule: rb_begin.induct) simp_all

interpretation rb_comparing: comparing_set set_begin_rb
  by unfold_locales (simp add: set_begin_rb_def map_rb_fold flip: rb_begin_map)

text \<open>Where the standard defines the outcome, the tree delivers it.\<close>

lemma set_begin_rb_refines_std:
  "set_begin_std lt xs = Inr x \<Longrightarrow> set_begin_rb lt xs = Inr x"
  by (auto simp: set_begin_std_def rb_set.first_least split: if_splits)

end
