(* ===== verification/Matcher_Match.thy ===== *)
theory Matcher_Match
  imports Matcher_Add Ordered_Set "HOL-Library.List_Lexorder" "HOL-Library.Char_ord"
begin

text \<open>
  \<open>ResourceMatcher::match\<close> in \<open>src/resource_matcher.cc\<close>: a breadth-first search of the trie along
  the components of a path, in which every variable child opens a further search state, and
  the choice of one of the states that end at a resource with a \<open>std::set\<close> ordered by
  \<open>compare\<close>. The set is a parameter of the model (\<open>Ordered_Set\<close>).

  The specification: a template matches a path when it has as many segments as the path has
  components and each is a variable or equal to the component. The search states are exactly
  the nodes at the matching templates; the result is a registered template that matches, with
  its methods and the components its variables stand for. Which one it is depends on
  \<open>compare\<close>, which is a strict weak ordering only on some sets of candidates.
\<close>

section \<open>The search\<close>

record search_state =
  cur :: addr
  variables :: "string list"
  matched :: "resource option"
  smethods :: "addr option"
  terminated :: bool
  literals :: string

record route_match =
  mresource :: "resource option"
  mmethods :: "methods option"
  parameters :: "string list"

text \<open>
  One state meets one component: the new state of a variable child, if there is one, and the
  state itself moved along the literal child or terminated. The pointer to the methods of a
  node is the address of the node.
\<close>

definition explore :: "matcher \<Rightarrow> string \<Rightarrow> search_state \<Rightarrow> (search_state \<times> search_state list) res" where
  "explore m component state =
     (if terminated state then Inr (state, [])
      else bind_res (load m (cur state)) (\<lambda>n.
        let state1 = state\<lparr>matched := None\<rparr> in
        bind_res
          (case varChild n of
             None \<Rightarrow> Inr []
           | Some v \<Rightarrow> bind_res (load m v) (\<lambda>vn.
               Inr [\<lparr>cur = v, variables = variables state1 @ [component], matched = nresource vn,
                     smethods = Some v, terminated = False, literals = literals state1 @ ''.''\<rparr>]))
          (\<lambda>add.
            case map_of (children n) component of
              None \<Rightarrow> Inr (state1\<lparr>terminated := True\<rparr>, add)
            | Some b \<Rightarrow> bind_res (load m b) (\<lambda>bn.
                let state2 = state1\<lparr>cur := b, literals := literals state1 @ component\<rparr> in
                Inr (if nresource bn \<noteq> None
                     then state2\<lparr>matched := nresource bn, smethods := Some b\<rparr>
                     else state2, add)))))"

text \<open>One component: all states in order, then the added ones behind them.\<close>

definition search_round :: "matcher \<Rightarrow> search_state list \<Rightarrow> string \<Rightarrow> search_state list res" where
  "search_round m states component =
     bind_res
       (fold_res (\<lambda>(explored, add) st. bind_res (explore m component st)
          (\<lambda>(st', new). Inr (explored @ [st'], add @ new))) ([], []) states)
       (\<lambda>(explored, add). Inr (explored @ add))"

definition initial_state :: search_state where
  "initial_state = \<lparr>cur = head_addr, variables = [], matched = None, smethods = None,
     terminated = False, literals = ''''\<rparr>"

text \<open>The comparator of the candidate set.\<close>

definition compare :: "search_state \<Rightarrow> search_state \<Rightarrow> bool" where
  "compare s1 s2 =
     (if length (variables s1) > length (variables s2) then True
      else if length (literals s1) > length (literals s2) then True
      else literals s1 > literals s2)"

text \<open>The states whose last node has a resource, and the match made of the chosen one.\<close>

definition candidates_of :: "search_state list \<Rightarrow> search_state list" where
  "candidates_of states = filter (\<lambda>s. matched s \<noteq> None) states"

definition make_match :: "matcher \<Rightarrow> search_state \<Rightarrow> route_match option res" where
  "make_match m ret =
     (case smethods ret of
        None \<Rightarrow> Inl Undef
      | Some a \<Rightarrow> bind_res (load m a) (\<lambda>n.
          Inr (Some \<lparr>mresource = matched ret, mmethods = nmethods n, parameters = variables ret\<rparr>)))"

definition matcher_match ::
    "((search_state \<Rightarrow> search_state \<Rightarrow> bool) \<Rightarrow> search_state list \<Rightarrow> search_state res) \<Rightarrow>
     matcher \<Rightarrow> string \<Rightarrow> route_match option res" where
  "matcher_match first m p =
     bind_res (PathComponents_for p (PathComponents_begin p) (search_round m) [initial_state])
       (\<lambda>states.
          let candidates = candidates_of states in
          if candidates = [] then Inr None
          else bind_res (first compare candidates) (make_match m))"

section \<open>Specification: templates that match a path\<close>

fun seg_matches :: "seg \<Rightarrow> string \<Rightarrow> bool" where
  "seg_matches Var c = True"
| "seg_matches (Lit l) c = (l = c)"

definition template_matches :: "seg list \<Rightarrow> string list \<Rightarrow> bool" where
  "template_matches ts cs = list_all2 seg_matches ts cs"

text \<open>What the variables of a template stand for, and the text kept of the literal part.\<close>

fun bindings :: "seg list \<Rightarrow> string list \<Rightarrow> string list" where
  "bindings (Var # ts) (c # cs) = c # bindings ts cs"
| "bindings (Lit l # ts) (c # cs) = bindings ts cs"
| "bindings _ _ = []"

fun literal_text :: "seg list \<Rightarrow> string list \<Rightarrow> string" where
  "literal_text (Var # ts) (c # cs) = ''.'' @ literal_text ts cs"
| "literal_text (Lit l # ts) (c # cs) = c @ literal_text ts cs"
| "literal_text _ _ = []"

lemma bindings_append:
  "length ts = length cs \<Longrightarrow> bindings (ts @ us) (cs @ ds) = bindings ts cs @ bindings us ds"
proof (induction ts cs rule: list_induct2)
  case (Cons t ts c cs)
  then show ?case by (cases t) simp_all
qed simp

lemma literal_text_append:
  "length ts = length cs \<Longrightarrow>
     literal_text (ts @ us) (cs @ ds) = literal_text ts cs @ literal_text us ds"
proof (induction ts cs rule: list_induct2)
  case (Cons t ts c cs)
  then show ?case by (cases t) simp_all
qed simp

lemma template_matches_length: "template_matches ts cs \<Longrightarrow> length ts = length cs"
  by (simp add: template_matches_def list_all2_lengthD)

lemma template_matches_snoc:
  "template_matches (ts @ [s]) (cs @ [c]) \<longleftrightarrow> template_matches ts cs \<and> seg_matches s c"
  by (cases "length ts = length cs")
     (auto simp: template_matches_def list_all2_append dest: list_all2_lengthD)

lemma template_matches_snocE:
  assumes "template_matches us (cs @ [c])"
  obtains ts s where "us = ts @ [s]" "template_matches ts cs" "s = Var \<or> s = Lit c"
proof -
  have "us \<noteq> []" using template_matches_length [OF assms] by auto
  then obtain ts s where us: "us = ts @ [s]" by (metis rev_exhaust)
  with assms have "template_matches ts cs" "seg_matches s c"
    by (simp_all add: template_matches_snoc)
  with us that show thesis by (cases s) auto
qed

lemma bindings_count:
  "length ts = length cs \<Longrightarrow> length (bindings ts cs) = length (filter (\<lambda>s. s = Var) ts)"
proof (induction ts cs rule: list_induct2)
  case (Cons t ts c cs)
  then show ?case by (cases t) simp_all
qed simp

section \<open>The states are the nodes at the matching templates\<close>

definition state_at :: "matcher \<Rightarrow> string list \<Rightarrow> seg list \<Rightarrow> search_state \<Rightarrow> bool" where
  "state_at m cs ts st \<longleftrightarrow>
     template_matches ts cs \<and> walk m head_addr ts = Some (cur st) \<and>
     variables st = bindings ts cs \<and> literals st = literal_text ts cs \<and> \<not> terminated st \<and>
     matched st = (if cs = [] then None else map_option fst (registered_at m (cur st))) \<and>
     (matched st \<noteq> None \<longrightarrow> smethods st = Some (cur st))"

definition position_at :: "matcher \<Rightarrow> string list \<Rightarrow> seg list \<Rightarrow> search_state \<Rightarrow> bool" where
  "position_at m cs ts st \<longleftrightarrow>
     template_matches ts cs \<and> walk m head_addr ts = Some (cur st) \<and>
     variables st = bindings ts cs \<and> literals st = literal_text ts cs \<and> \<not> terminated st"

lemma state_at_position: "state_at m cs ts st \<Longrightarrow> position_at m cs ts st"
  by (simp add: state_at_def position_at_def)

definition dead_state :: "search_state \<Rightarrow> bool" where
  "dead_state st \<longleftrightarrow> terminated st \<and> matched st = None"

definition states_inv :: "matcher \<Rightarrow> string list \<Rightarrow> search_state list \<Rightarrow> bool" where
  "states_inv m cs states \<longleftrightarrow>
     (\<forall>st\<in>set states. dead_state st \<or> (\<exists>ts. state_at m cs ts st)) \<and>
     (\<forall>ts a. template_matches ts cs \<longrightarrow> walk m head_addr ts = Some a \<longrightarrow>
        (\<exists>st\<in>set states. state_at m cs ts st))"

lemma states_inv_initial: "states_inv m [] [initial_state]"
  by (auto simp: states_inv_def state_at_def initial_state_def template_matches_def)

lemma explore_dead: "dead_state st \<Longrightarrow> explore m c st = Inr (st, [])"
  by (simp add: explore_def dead_state_def)

lemma load_store: "store m a = Some n \<Longrightarrow> load m a = Inr n"
  by (simp add: load_def)

text \<open>The state that enters a child.\<close>

lemma state_at_child:
  assumes st: "position_at m cs ts st" and k: "store m b = Some k"
    and b: "child m (cur st) s = Some b" "cur st' = b" "seg_matches s c"
    and st': "variables st' = variables st @ bindings [s] [c]"
      "literals st' = literals st @ literal_text [s] [c]" "\<not> terminated st'"
      "matched st' = nresource k" "matched st' \<noteq> None \<longrightarrow> smethods st' = Some b"
  shows "state_at m (cs @ [c]) (ts @ [s]) st'"
proof -
  have ts: "template_matches ts cs" using st by (simp add: position_at_def)
  note len = template_matches_length [OF ts]
  have "map_option fst (registered_at m b) = nresource k"
    using k by (simp add: registered_at_def option.map_comp comp_def option.map_ident)
  with assms ts show ?thesis
    by (simp add: state_at_def position_at_def template_matches_snoc walk_snoc bindings_append [OF len]
        literal_text_append [OF len])
qed

text \<open>What was found before at the node of a state does not matter.\<close>

lemma explore_position:
  assumes wf: "wf_matcher m" and st: "position_at m cs ts st"
  shows "\<exists>st' add. explore m c st = Inr (st', add) \<and>
    (case child m (cur st) (Lit c) of
       None \<Rightarrow> dead_state st'
     | Some b \<Rightarrow> state_at m (cs @ [c]) (ts @ [Lit c]) st') \<and>
    (case child m (cur st) Var of
       None \<Rightarrow> add = []
     | Some v \<Rightarrow> \<exists>s. add = [s] \<and> state_at m (cs @ [c]) (ts @ [Var]) s)"
proof -
  have walk: "walk m head_addr ts = Some (cur st)" and alive: "\<not> terminated st"
    using st by (simp_all add: position_at_def)
  obtain n where n: "store m (cur st) = Some n"
    using walk_store [OF wf wf_matcher_head [OF wf] walk] by blast
  have node: "\<exists>k. store m b = Some k" if "child m (cur st) s = Some b" for s b
    using wf_matcher_child [OF wf that] by blast
  have var: "varChild n = child m (cur st) Var" and lit: "map_of (children n) c = child m (cur st) (Lit c)"
    using n by (simp_all add: child_def)
  note explore = explore_def load_store [OF n] alive var lit Let_def
  show ?thesis
  proof (cases "child m (cur st) Var"; cases "child m (cur st) (Lit c)")
    assume "child m (cur st) Var = None" "child m (cur st) (Lit c) = None"
    then show ?thesis by (simp add: explore dead_state_def)
  next
    fix b assume a: "child m (cur st) Var = None" and b: "child m (cur st) (Lit c) = Some b"
    obtain k where k: "store m b = Some k" using node [OF b] by blast
    show ?thesis using a b by (auto simp: explore load_store [OF k] intro!: state_at_child [OF st k])
  next
    fix v assume v: "child m (cur st) Var = Some v" and b: "child m (cur st) (Lit c) = None"
    obtain k where k: "store m v = Some k" using node [OF v] by blast
    show ?thesis using v b by (auto simp: explore load_store [OF k] dead_state_def intro!: state_at_child [OF st k])
  next
    fix v b assume v: "child m (cur st) Var = Some v" and b: "child m (cur st) (Lit c) = Some b"
    obtain k where k: "store m v = Some k" using node [OF v] by blast
    obtain l where l: "store m b = Some l" using node [OF b] by blast
    show ?thesis
      using v b state_at_child [OF st k v] state_at_child [OF st l b]
      by (auto simp: explore load_store [OF k] load_store [OF l])
  qed
qed

lemmas explore_state_at = explore_position [OF _ state_at_position]

section \<open>The number of search states\<close>

lemma explore_adds: "explore m c st = Inr (st', add) \<Longrightarrow> length add \<le> 1"
  by (auto simp: explore_def bind_res_Inr_iff Let_def split: if_splits option.splits)

lemma explore_all_adds:
  "fold_res (\<lambda>(explored, add) st. bind_res (explore m c st)
       (\<lambda>(st', new). Inr (explored @ [st'], add @ new))) (xs, ys) states = Inr (xs', ys') \<Longrightarrow>
     length xs' = length xs + length states \<and> length ys' \<le> length ys + length states"
proof (induction states arbitrary: xs ys)
  case (Cons st states)
  then obtain st' new where e: "explore m c st = Inr (st', new)"
    by (auto simp: bind_res_Inr_iff)
  with Cons.prems Cons.IH [of "xs @ [st']" "ys @ new"] explore_adds [OF e] show ?case by simp
qed simp

lemma search_round_length: "search_round m states c = Inr states' \<Longrightarrow> length states' \<le> 2 * length states"
  using explore_all_adds [of m c "[]" "[]" states]
  by (auto simp: search_round_def bind_res_Inr_iff)

lemma search_length:
  "fold_res (search_round m) states cs = Inr states' \<Longrightarrow> length states' \<le> 2 ^ length cs * length states"
proof (induction cs arbitrary: states)
  case (Cons c cs)
  then obtain states1 where s: "search_round m states c = Inr states1"
    "fold_res (search_round m) states1 cs = Inr states'" by (auto simp: bind_res_Inr_iff)
  have "length states' \<le> 2 ^ length cs * length states1" by (rule Cons.IH [OF s(2)])
  also have "\<dots> \<le> 2 ^ length cs * (2 * length states)"
    using search_round_length [OF s(1)] by (rule mult_left_mono) simp
  finally show ?case by (simp add: mult.commute mult.left_commute)
qed simp

section \<open>Properties\<close>

text \<open>C36: Searching a path of \<open>n\<close> components never keeps more than \<open>2^n\<close> search states, since every state adds
  at most one per component (states that came to a dead end included, as the code keeps them).\<close>

theorem search_states_bound:
  assumes "PathComponents_for p (PathComponents_begin p) (search_round m) [initial_state] = Inr states"
  shows "length states \<le> 2 ^ length (path_components p)"
  using search_length [of m "[initial_state]" "path_components p" states] assms
  by (simp add: PathComponents_for_eq)

theorem search_states_bound_witness:
  "\<exists>states. PathComponents_for ''/a'' (PathComponents_begin ''/a'') (search_round ResourceMatcher) [initial_state] =
     Inr states \<and> length states \<le> 4"
proof -
  have c: "path_components ''/a'' = ['''', ''a'']" by code_simp
  have "\<exists>states. fold_res (search_round ResourceMatcher) [initial_state] ['''', ''a''] = Inr states"
    by (simp add: search_round_def explore_def initial_state_def load_def ResourceMatcher_def new_Node_def
        head_addr_def Let_def)
  then obtain states where
    s: "PathComponents_for ''/a'' (PathComponents_begin ''/a'') (search_round ResourceMatcher) [initial_state] = Inr states"
    by (auto simp: PathComponents_for_eq c)
  from search_states_bound [OF s] s c show ?thesis by simp
qed

end
