(* ===== verification/Matcher_Correct.thy ===== *)
theory Matcher_Correct
  imports Matcher_Match
begin

text \<open>
  Correctness of \<open>ResourceMatcher::match\<close>. First the search: after the components of a path,
  the states are exactly the nodes at the templates that match it. Then the comparator: it is
  a strict weak ordering of a set of states exactly when no two of them disagree about which
  goes first, and then its least element has the most variables and the longest and greatest
  literal text. Then, in the locales \<open>matcher_set\<close> and \<open>matcher_total_set\<close> (the set's contract
  at the comparator of the code), the result of \<open>match\<close>.
\<close>

section \<open>The search\<close>

lemma explore_list:
  assumes "\<forall>st\<in>set states. \<exists>p. explore m c st = Inr p"
  shows "fold_res (\<lambda>(explored, add) st. bind_res (explore m c st)
           (\<lambda>(st', new). Inr (explored @ [st'], add @ new))) (xs, ys) states =
         Inr (xs @ map (\<lambda>st. fst (projr (explore m c st))) states,
              ys @ concat (map (\<lambda>st. snd (projr (explore m c st))) states))"
  using assms
proof (induction states arbitrary: xs ys)
  case (Cons st states)
  then obtain st' new where "explore m c st = Inr (st', new)" by auto
  with Cons show ?case by simp
qed simp

lemma search_round_eq:
  assumes "\<forall>st\<in>set states. \<exists>p. explore m c st = Inr p"
  shows "search_round m states c =
    Inr (map (\<lambda>st. fst (projr (explore m c st))) states @
         concat (map (\<lambda>st. snd (projr (explore m c st))) states))"
  by (simp add: search_round_def explore_list [OF assms])

lemma explore_inv:
  assumes "wf_matcher m" "dead_state st \<or> (\<exists>ts. state_at m cs ts st)"
  shows "\<exists>p. explore m c st = Inr p"
  using assms explore_dead explore_state_at by blast

lemma explore_sound:
  assumes wf: "wf_matcher m" and st: "dead_state st \<or> (\<exists>ts. state_at m cs ts st)"
    and e: "explore m c st = Inr (st', add)" and x: "x = st' \<or> x \<in> set add"
  shows "dead_state x \<or> (\<exists>ts. state_at m (cs @ [c]) ts x)"
  using st
proof
  assume "dead_state st"
  with e x show ?thesis by (simp add: explore_dead)
next
  assume "\<exists>ts. state_at m cs ts st"
  then obtain ts where "state_at m cs ts st" ..
  from explore_state_at [OF wf this, of c] e x show ?thesis
    by (auto split: option.splits)
qed

lemma states_inv_round:
  assumes wf: "wf_matcher m" and inv: "states_inv m cs states"
  shows "\<exists>states'. search_round m states c = Inr states' \<and> states_inv m (cs @ [c]) states'"
proof -
  let ?f = "\<lambda>st. projr (explore m c st)"
  let ?states' = "map (\<lambda>st. fst (?f st)) states @ concat (map (\<lambda>st. snd (?f st)) states)"
  have st: "dead_state st \<or> (\<exists>ts. state_at m cs ts st)" if "st \<in> set states" for st
    using inv that by (simp add: states_inv_def)
  have e: "explore m c st = Inr (fst (?f st), snd (?f st))" if "st \<in> set states" for st
    using explore_inv [OF wf st [OF that], of c] by auto
  have "dead_state x \<or> (\<exists>ts. state_at m (cs @ [c]) ts x)" if "x \<in> set ?states'" for x
  proof -
    from that obtain s where s: "s \<in> set states" "x = fst (?f s) \<or> x \<in> set (snd (?f s))" by auto
    show ?thesis by (rule explore_sound [OF wf st [OF s(1)] e [OF s(1)] s(2)])
  qed
  moreover have "\<exists>x\<in>set ?states'. state_at m (cs @ [c]) us x"
    if us: "template_matches us (cs @ [c])" "walk m head_addr us = Some a" for us a
  proof -
    obtain ts s where us_eq: "us = ts @ [s]" and ts: "template_matches ts cs"
      and s: "s = Var \<or> s = Lit c" using template_matches_snocE [OF us(1)] by blast
    from us(2) us_eq obtain b where b: "walk m head_addr ts = Some b" "child m b s = Some a"
      by (auto simp: walk_snoc split: option.splits)
    from inv ts b(1) obtain st where st': "st \<in> set states" "state_at m cs ts st"
      unfolding states_inv_def by blast
    then have "cur st = b" using b(1) by (simp add: state_at_def)
    with explore_state_at [OF wf st'(2), of c] e [OF st'(1)] b(2) s
    have "state_at m (cs @ [c]) us (fst (?f st)) \<or> (\<exists>x\<in>set (snd (?f st)). state_at m (cs @ [c]) us x)"
      using us_eq by auto
    with st'(1) show ?thesis by auto
  qed
  ultimately have "states_inv m (cs @ [c]) ?states'" unfolding states_inv_def by blast
  moreover have "search_round m states c = Inr ?states'"
    using e by (intro search_round_eq) blast
  ultimately show ?thesis by blast
qed

lemma search_states:
  assumes wf: "wf_matcher m"
  shows "\<exists>states. fold_res (search_round m) [initial_state] cs = Inr states \<and> states_inv m cs states"
proof (induction cs rule: rev_induct)
  case Nil
  show ?case using states_inv_initial by simp
next
  case (snoc c cs)
  then obtain states where s: "fold_res (search_round m) [initial_state] cs = Inr states"
    "states_inv m cs states" by blast
  from states_inv_round [OF wf s(2), of c] s(1) show ?case by (auto simp: fold_res_append)
qed

section \<open>Candidates\<close>

text \<open>The templates a path can be routed to.\<close>

definition candidate :: "matcher \<Rightarrow> string list \<Rightarrow> seg list \<Rightarrow> bool" where
  "candidate m cs ts \<longleftrightarrow> cs \<noteq> [] \<and> template_matches ts cs \<and> routes m ts \<noteq> None"

lemma state_at_matched:
  assumes "state_at m cs ts st"
  shows "matched st \<noteq> None \<longleftrightarrow> candidate m cs ts"
  using assms by (auto simp: state_at_def candidate_def routes_def)

lemma candidates_of_states:
  assumes inv: "states_inv m cs states"
  shows "\<forall>st\<in>set (candidates_of states). \<exists>ts. state_at m cs ts st \<and> candidate m cs ts"
    and "\<forall>ts. candidate m cs ts \<longrightarrow>
      (\<exists>st\<in>set (candidates_of states). state_at m cs ts st)"
proof -
  show "\<forall>st\<in>set (candidates_of states). \<exists>ts. state_at m cs ts st \<and> candidate m cs ts"
    using inv state_at_matched unfolding states_inv_def by (fastforce simp: dead_state_def candidates_of_def)
  show "\<forall>ts. candidate m cs ts \<longrightarrow>
      (\<exists>st\<in>set (candidates_of states). state_at m cs ts st)"
  proof (intro allI impI)
    fix ts assume c: "candidate m cs ts"
    then obtain a where "walk m head_addr ts = Some a"
      by (auto simp: candidate_def routes_def split: option.splits)
    with c inv obtain st where "st \<in> set states" "state_at m cs ts st"
      unfolding states_inv_def candidate_def by blast
    with c show "\<exists>st\<in>set (candidates_of states). state_at m cs ts st"
      using state_at_matched by (auto simp: candidates_of_def)
  qed
qed

text \<open>The match that a template stands for.\<close>

definition match_of :: "matcher \<Rightarrow> string list \<Rightarrow> seg list \<Rightarrow> route_match" where
  "match_of m cs ts =
     \<lparr>mresource = map_option fst (routes m ts), mmethods = Option.bind (routes m ts) snd,
      parameters = bindings ts cs\<rparr>"

lemma match_of_state:
  assumes wf: "wf_matcher m" and st: "state_at m cs ts st" and c: "candidate m cs ts"
  shows "make_match m st = Inr (Some (match_of m cs ts))"
proof -
  have "matched st \<noteq> None" using state_at_matched [OF st] c by simp
  then have sm: "smethods st = Some (cur st)" using st by (simp add: state_at_def)
  have walk: "walk m head_addr ts = Some (cur st)" using st by (simp add: state_at_def)
  obtain n where n: "store m (cur st) = Some n"
    using walk_store [OF wf wf_matcher_head [OF wf] walk] by blast
  from c walk n obtain r where r: "nresource n = Some r"
    by (auto simp: candidate_def routes_def registered_at_def)
  show ?thesis
    using st c sm n r walk
    by (simp add: make_match_def match_of_def state_at_def candidate_def routes_def
        registered_at_def load_def)
qed

section \<open>The comparator\<close>

lemma compare_iff:
  "compare s1 s2 \<longleftrightarrow>
     length (variables s1) > length (variables s2) \<or> length (literals s1) > length (literals s2) \<or>
     literals s1 > literals s2"
  by (simp add: compare_def)

definition agree :: "search_state \<Rightarrow> search_state \<Rightarrow> bool" where
  "agree s1 s2 \<longleftrightarrow> \<not> (compare s1 s2 \<and> compare s2 s1)"

lemma compare_trans:
  assumes "agree x y" "agree y z" "agree x z" and "compare x y" "compare y z"
  shows "compare x z"
  using assms unfolding agree_def compare_iff by (auto dest: less_trans)

lemma not_compare_eq:
  "\<not> compare x y \<Longrightarrow> \<not> compare y x \<Longrightarrow>
     length (variables x) = length (variables y) \<and> literals x = literals y"
  by (auto simp: compare_iff not_less)

lemma compare_swo_iff:
  "swo_on compare xs \<longleftrightarrow> (\<forall>x\<in>set xs. \<forall>y\<in>set xs. agree x y)"
proof
  assume "swo_on compare xs"
  then show "\<forall>x\<in>set xs. \<forall>y\<in>set xs. agree x y"
    unfolding agree_def using swo_on_trans swo_on_irrefl by metis
next
  assume a: "\<forall>x\<in>set xs. \<forall>y\<in>set xs. agree x y"
  have "\<not> compare x x" for x by (simp add: compare_iff)
  moreover have "compare x z" if "x \<in> set xs" "y \<in> set xs" "z \<in> set xs" "compare x y" "compare y z"
    for x y z
    using a that by (intro compare_trans [of x y z]) auto
  moreover have "\<not> compare x z \<and> \<not> compare z x"
    if "\<not> compare x y" "\<not> compare y x" "\<not> compare y z" "\<not> compare z y" for x y z
    using not_compare_eq [OF that(1,2)] not_compare_eq [OF that(3,4)] by (simp add: compare_iff)
  ultimately show "swo_on compare xs" unfolding swo_on_def by blast
qed

text \<open>The rank of a template for a path, and when two templates contradict each other.\<close>

definition conflict :: "string list \<Rightarrow> seg list \<Rightarrow> seg list \<Rightarrow> bool" where
  "conflict cs ts us \<longleftrightarrow>
     (let before = (\<lambda>ts us. length (bindings ts cs) > length (bindings us cs) \<or>
                    length (literal_text ts cs) > length (literal_text us cs) \<or>
                    literal_text ts cs > literal_text us cs)
      in before ts us \<and> before us ts)"

lemma conflict_iff:
  "state_at m cs ts s \<Longrightarrow> state_at m cs us t \<Longrightarrow> conflict cs ts us \<longleftrightarrow> \<not> agree s t"
  by (simp add: conflict_def agree_def compare_iff state_at_def)

definition consistent :: "matcher \<Rightarrow> string list \<Rightarrow> bool" where
  "consistent m cs \<longleftrightarrow>
     (\<forall>ts us. candidate m cs ts \<longrightarrow> candidate m cs us \<longrightarrow> \<not> conflict cs ts us)"

lemma consistent_swo:
  assumes inv: "states_inv m cs states"
  shows "swo_on compare (candidates_of states) \<longleftrightarrow> consistent m cs"
proof -
  note sound = candidates_of_states(1) [OF inv] and complete = candidates_of_states(2) [OF inv]
  show ?thesis
  proof
    assume swo: "swo_on compare (candidates_of states)"
    show "consistent m cs"
      unfolding consistent_def
    proof (intro allI impI)
      fix ts us assume c: "candidate m cs ts" "candidate m cs us"
      from complete c obtain s t where
        s: "s \<in> set (candidates_of states)" "state_at m cs ts s" and
        t: "t \<in> set (candidates_of states)" "state_at m cs us t" by meson
      show "\<not> conflict cs ts us"
        using swo s(1) t(1) unfolding compare_swo_iff conflict_iff [OF s(2) t(2)] by blast
    qed
  next
    assume con: "consistent m cs"
    show "swo_on compare (candidates_of states)"
      unfolding compare_swo_iff
    proof (intro ballI)
      fix s t assume "s \<in> set (candidates_of states)"
        "t \<in> set (candidates_of states)"
      with sound obtain ts us where "state_at m cs ts s" "candidate m cs ts"
        "state_at m cs us t" "candidate m cs us" by meson
      with con show "agree s t" unfolding consistent_def using conflict_iff by blast
    qed
  qed
qed

text \<open>Two templates of the same rank.\<close>

definition dominates :: "string list \<Rightarrow> seg list \<Rightarrow> seg list \<Rightarrow> bool" where
  "dominates cs ts us \<longleftrightarrow>
     length (bindings us cs) \<le> length (bindings ts cs) \<and>
     length (literal_text us cs) \<le> length (literal_text ts cs) \<and>
     literal_text us cs \<le> literal_text ts cs"

section \<open>The result of match\<close>

locale matcher_set = ordered_set first
  for first :: "(search_state \<Rightarrow> search_state \<Rightarrow> bool) \<Rightarrow> search_state list \<Rightarrow> search_state res"
begin

lemma match_unfold:
  assumes wf: "wf_matcher m"
  obtains states where "states_inv m (path_components p) states"
    "matcher_match first m p =
      (if candidates_of states = [] then Inr None
       else bind_res (first compare (candidates_of states)) (make_match m))"
  using search_states [OF wf, of "path_components p"]
  by (auto simp: matcher_match_def PathComponents_for_eq Let_def)

text \<open>No match exactly when no registered template matches the path.\<close>

lemma match_none_iff:
  assumes wf: "wf_matcher m"
  shows "matcher_match first m p = Inr None \<longleftrightarrow> (\<nexists>ts. candidate m (path_components p) ts)"
proof (rule match_unfold [OF wf, of p])
  fix states
  assume inv: "states_inv m (path_components p) states"
    and eq: "matcher_match first m p =
      (if candidates_of states = [] then Inr None
       else bind_res (first compare (candidates_of states)) (make_match m))"
  note sound = candidates_of_states(1) [OF inv] and complete = candidates_of_states(2) [OF inv]
  have "candidates_of states = [] \<longleftrightarrow> (\<nexists>ts. candidate m (path_components p) ts)"
  proof (cases "candidates_of states = []")
    case True
    then have "\<nexists>st. st \<in> set (candidates_of states)" by simp
    with complete True show ?thesis by blast
  next
    case False
    then obtain st where "st \<in> set (candidates_of states)" by (meson last_in_set)
    with sound False show ?thesis by blast
  qed
  moreover have "matcher_match first m p = Inr None \<longleftrightarrow> candidates_of states = []"
    unfolding eq by (auto simp: bind_res_Inr_iff make_match_def split: option.splits)
  ultimately show ?thesis by simp
qed

text \<open>A match is the match of a registered template that matches the path.\<close>

lemma match_some:
  assumes wf: "wf_matcher m" and m: "matcher_match first m p = Inr (Some mt)"
  shows "\<exists>ts. candidate m (path_components p) ts \<and> mt = match_of m (path_components p) ts"
proof (rule match_unfold [OF wf, of p])
  fix states
  assume inv: "states_inv m (path_components p) states"
    and eq: "matcher_match first m p =
      (if candidates_of states = [] then Inr None
       else bind_res (first compare (candidates_of states)) (make_match m))"
  from m have ne: "candidates_of states \<noteq> []" unfolding eq by (auto split: if_splits)
  with m obtain ret where ret: "first compare (candidates_of states) = Inr ret"
    unfolding eq by (auto simp: bind_res_Inr_iff)
  from first_sound [OF ne ret] candidates_of_states(1) [OF inv] obtain ts where
    ts: "state_at m (path_components p) ts ret" "candidate m (path_components p) ts" by meson
  have "matcher_match first m p = Inr (Some (match_of m (path_components p) ts))"
    using match_of_state [OF wf ts] unfolding eq using ne ret by simp
  with m ts(2) show ?thesis by auto
qed

text \<open>When no two candidates conflict, the result is a candidate that dominates all others.\<close>

lemma match_consistent:
  assumes wf: "wf_matcher m" and c: "candidate m (path_components p) us"
    and con: "consistent m (path_components p)"
  shows "\<exists>ts. candidate m (path_components p) ts \<and>
    matcher_match first m p = Inr (Some (match_of m (path_components p) ts)) \<and>
    (\<forall>us. candidate m (path_components p) us \<longrightarrow> dominates (path_components p) ts us)"
proof (rule match_unfold [OF wf, of p])
  fix states
  assume inv: "states_inv m (path_components p) states"
    and eq: "matcher_match first m p =
      (if candidates_of states = [] then Inr None
       else bind_res (first compare (candidates_of states)) (make_match m))"
  note sound = candidates_of_states(1) [OF inv] and complete = candidates_of_states(2) [OF inv]
  have ne: "candidates_of states \<noteq> []" using complete c by (metis empty_iff list.set(1))
  have swo: "swo_on compare (candidates_of states)" using consistent_swo [OF inv] con by blast
  let ?ret = "least_of compare (candidates_of states)"
  have ret: "first compare (candidates_of states) = Inr ?ret" using first_least [OF ne swo] .
  from first_sound [OF ne ret] sound obtain ts where
    ts: "state_at m (path_components p) ts ?ret" "candidate m (path_components p) ts" by meson
  have "matcher_match first m p = Inr (Some (match_of m (path_components p) ts))"
    using match_of_state [OF wf ts] unfolding eq using ne ret by simp
  moreover have "dominates (path_components p) ts us" if "candidate m (path_components p) us" for us
  proof -
    from complete that obtain st where st: "st \<in> set (candidates_of states)" "state_at m (path_components p) us st"
      by blast
    then have "\<not> compare st ?ret" using least_of_least [OF ne swo] by blast
    with st(2) ts(1) show ?thesis by (simp add: dominates_def compare_iff state_at_def not_less)
  qed
  ultimately show ?thesis using ts(2) by blast
qed

text \<open>One candidate alone is always chosen.\<close>

lemma match_single:
  assumes wf: "wf_matcher m" and c: "candidate m (path_components p) ts"
    and one: "\<And>us. candidate m (path_components p) us \<Longrightarrow> us = ts"
  shows "matcher_match first m p = Inr (Some (match_of m (path_components p) ts))"
proof -
  have "\<not> conflict cs ts ts" for cs by (simp add: conflict_def)
  then have "consistent m (path_components p)" unfolding consistent_def using one by blast
  from match_consistent [OF wf c this] one show ?thesis by auto
qed

text \<open>The only one of several registered resources whose template matches.\<close>

lemma match_registered:
  assumes wf: "wf_matcher m" and routes: "routes m = routes_of rs"
    and d: "distinct (map (\<lambda>r. template (path r)) rs)" and r: "r \<in> set rs"
    and p: "path_components p \<noteq> []" "template_matches (template (path r)) (path_components p)"
    and one: "\<forall>r'\<in>set rs. template_matches (template (path r')) (path_components p) \<longrightarrow> r' = r"
  shows "matcher_match first m p = Inr (Some \<lparr>mresource = Some r, mmethods = Some (bindMethods r),
    parameters = bindings (template (path r)) (path_components p)\<rparr>)"
proof -
  have route: "routes m (template (path r)) = Some (r, Some (bindMethods r))"
    unfolding routes by (rule routes_of_member [OF d r])
  with p have "candidate m (path_components p) (template (path r))" by (simp add: candidate_def)
  moreover have "us = template (path r)" if "candidate m (path_components p) us" for us
    using that one routes_of_Some [of rs us] by (auto simp: candidate_def routes)
  ultimately have "matcher_match first m p = Inr (Some (match_of m (path_components p) (template (path r))))"
    by (rule match_single [OF wf])
  with route show ?thesis by (simp add: match_of_def)
qed

lemma match_unregistered:
  assumes wf: "wf_matcher m" and routes: "routes m = routes_of rs"
    and "\<forall>r\<in>set rs. \<not> template_matches (template (path r)) (path_components p)"
  shows "matcher_match first m p = Inr None"
  unfolding match_none_iff [OF wf] candidate_def routes using assms(3) by (fastforce dest: routes_of_Some)

lemma match_no_throw: "wf_matcher m \<Longrightarrow> matcher_match first m p \<noteq> Inl (Throw e)"
proof (rule match_unfold [of m p])
  fix states
  assume eq: "matcher_match first m p =
      (if candidates_of states = [] then Inr None
       else bind_res (first compare (candidates_of states)) (make_match m))"
  show ?thesis
    unfolding eq using first_no_throw [of "candidates_of states" compare e]
    by (auto simp: bind_res_def make_match_def load_def split: sum.splits option.splits)
qed

end

text \<open>With a set that always delivers an element, every path with a candidate is matched.\<close>

locale matcher_total_set = matcher_set first + total_ordered_set first
  for first :: "(search_state \<Rightarrow> search_state \<Rightarrow> bool) \<Rightarrow> search_state list \<Rightarrow> search_state res"
begin

lemma match_total:
  assumes wf: "wf_matcher m" and c: "candidate m (path_components p) us"
  shows "\<exists>ts. candidate m (path_components p) ts \<and>
    matcher_match first m p = Inr (Some (match_of m (path_components p) ts))"
proof (rule match_unfold [OF wf, of p])
  fix states
  assume inv: "states_inv m (path_components p) states"
    and eq: "matcher_match first m p =
      (if candidates_of states = [] then Inr None
       else bind_res (first compare (candidates_of states)) (make_match m))"
  have ne: "candidates_of states \<noteq> []"
    using candidates_of_states(2) [OF inv] c by (metis empty_iff list.set(1))
  obtain ret where ret: "first compare (candidates_of states) = Inr ret" using first_total [OF ne] by blast
  from first_sound [OF ne ret] candidates_of_states(1) [OF inv] obtain ts where
    ts: "state_at m (path_components p) ts ret" "candidate m (path_components p) ts" by meson
  have "matcher_match first m p = Inr (Some (match_of m (path_components p) ts))"
    using match_of_state [OF wf ts] unfolding eq using ne ret by simp
  with ts(2) show ?thesis by blast
qed

end

interpretation match_std: matcher_set set_begin_std
  by unfold_locales

interpretation match_rb: matcher_total_set set_begin_rb
  by unfold_locales

text \<open>The standard's set: undefined exactly where candidates conflict.\<close>

lemma match_std_undef:
  assumes wf: "wf_matcher m"
  shows "matcher_match set_begin_std m p = Inl Undef \<longleftrightarrow> \<not> consistent m (path_components p)"
proof
  assume "matcher_match set_begin_std m p = Inl Undef"
  then show "\<not> consistent m (path_components p)"
    using match_std.match_consistent [OF wf, of p] match_std.match_none_iff [OF wf, of p]
    by (metis Inr_Inl_False)
next
  assume bad: "\<not> consistent m (path_components p)"
  show "matcher_match set_begin_std m p = Inl Undef"
  proof (rule match_std.match_unfold [OF wf, of p])
    fix states
    assume inv: "states_inv m (path_components p) states"
      and eq: "matcher_match set_begin_std m p =
        (if candidates_of states = [] then Inr None
         else bind_res (set_begin_std compare (candidates_of states)) (make_match m))"
    have "\<not> swo_on compare (candidates_of states)" using consistent_swo [OF inv] bad by simp
    moreover from this have "candidates_of states \<noteq> []" by (auto simp: swo_on_def)
    ultimately show ?thesis unfolding eq by (simp add: set_begin_std_def)
  qed
qed

end
