(* ===== verification/Request_Builder.thy ===== *)
theory Request_Builder
  imports Params
begin

text \<open>
  \<open>src/request_builder.h\<close> and \<open>src/request.h\<close>: the state machine that collects the pieces of a
  request from the callbacks of the HTTP parser, and the construction of the immutable request.

  The HTTP parser is not part of the repository: it appears as the sequence of callbacks it
  makes (\<open>callback\<close>) and as the function \<open>parse_url\<close> that splits a URL into fields, a parameter
  of the model. What the code relies on about the latter is \<open>url_fields_within\<close>: the fields lie
  within the URL.
\<close>

section \<open>Requests\<close>

datatype http_method = GET | PUT | POST | DELETE

record request =
  rpath :: string
  rmethod :: http_method
  uriInfo :: uri_info

definition Request :: "string \<Rightarrow> string \<Rightarrow> http_method \<Rightarrow> ummap \<Rightarrow> ummap \<Rightarrow>
    (string, string) umap \<Rightarrow> request" where
  "Request p bdy type qs ps hs =
     \<lparr>rpath = p, rmethod = type,
      uriInfo = \<lparr>queryParams = \<lparr>qparams = qs\<rparr>, postParams = \<lparr>pparams = ps\<rparr>,
                 headerParams = \<lparr>hparams = hs\<rparr>, entity = Entity_of bdy\<rparr>\<rparr>"

section \<open>The builder\<close>

datatype header_state = INIT | VALUE | FIELD

record builder =
  hstate :: header_state
  hname :: string
  hvalue :: string
  url :: string
  bbody :: string
  headers :: "(string, string) umap"

definition RequestBuilder :: builder where
  "RequestBuilder = \<lparr>hstate = INIT, hname = '''', hvalue = '''', url = '''', bbody = '''',
     headers = []\<rparr>"

text \<open>The callbacks: the value returned to the parser (0 to go on) and the new state.\<close>

definition on_url :: "builder \<Rightarrow> string \<Rightarrow> int \<times> builder" where
  "on_url b at = (0, b\<lparr>url := url b @ at\<rparr>)"

definition on_header_field :: "builder \<Rightarrow> string \<Rightarrow> int \<times> builder" where
  "on_header_field b at =
     (let b1 = (case hstate b of
          INIT \<Rightarrow> b\<lparr>hname := hname b @ at\<rparr>
        | VALUE \<Rightarrow> b\<lparr>headers := umap_assign (headers b) (hname b) (hvalue b),
                     hname := '''' @ at, hvalue := ''''\<rparr>
        | FIELD \<Rightarrow> b\<lparr>hname := hname b @ at\<rparr>)
      in (0, b1\<lparr>hstate := FIELD\<rparr>))"

definition on_header_value :: "builder \<Rightarrow> string \<Rightarrow> int \<times> builder" where
  "on_header_value b at =
     (case hstate b of
        INIT \<Rightarrow> (1, b)
      | _ \<Rightarrow> (0, b\<lparr>hvalue := hvalue b @ at, hstate := VALUE\<rparr>))"

definition on_body :: "builder \<Rightarrow> string \<Rightarrow> int \<times> builder" where
  "on_body b at = (0, b\<lparr>bbody := bbody b @ at\<rparr>)"

definition convertMethod :: "int \<Rightarrow> http_method res" where
  "convertMethod method =
     (if method = 0 then Inr DELETE
      else if method = 1 then Inr GET
      else if method = 3 then Inr POST
      else if method = 4 then Inr PUT
      else Inl (Throw (Runtime_error ''Invalid method'')))"

section \<open>Building the request\<close>

text \<open>The fields of a parsed URL, as offset and length; \<open>None\<close> when the field is not set.\<close>

record url_fields =
  path_field :: "(nat \<times> nat) option"
  query_field :: "(nat \<times> nat) option"

type_synonym url_parser = "string \<Rightarrow> url_fields option"
type_synonym mm_insert = "string \<times> string \<Rightarrow> ummap \<Rightarrow> ummap"

text \<open>\<open>std::string(&s[off], len)\<close>: reading past the end of the string is undefined.\<close>

definition string_slice :: "string \<Rightarrow> nat \<times> nat \<Rightarrow> string res" where
  "string_slice s f =
     (case f of (off, len) \<Rightarrow>
        if off + len \<le> length s then Inr (take len (drop off s)) else Inl Undef)"

definition build :: "mm_insert \<Rightarrow> url_parser \<Rightarrow> builder \<Rightarrow> int \<Rightarrow> request res" where
  "build ins parse_url b method =
     (case parse_url (url b) of
        None \<Rightarrow> Inl (Throw (Runtime_error ''Error parsing url''))
      | Some parser_url \<Rightarrow>
          bind_res (case path_field parser_url of
                      None \<Rightarrow> Inr ''/''
                    | Some f \<Rightarrow> string_slice (url b) f) (\<lambda>p.
          bind_res (case query_field parser_url of
                      None \<Rightarrow> Inr []
                    | Some f \<Rightarrow> bind_res (string_slice (url b) f) (parseQueryParameters ins)) (\<lambda>queryParams.
          bind_res (convertMethod method) (\<lambda>t.
          bind_res (if t = POST then parseQueryParameters ins (bbody b) else Inr []) (\<lambda>postParams.
          bind_res (convertMethod method) (\<lambda>t.
            Inr (Request p (bbody b) t queryParams postParams (headers b))))))))"

definition url_fields_within :: "url_parser \<Rightarrow> bool" where
  "url_fields_within parse_url \<longleftrightarrow>
     (\<forall>u f. parse_url u = Some f \<longrightarrow>
        (\<forall>off len. path_field f = Some (off, len) \<longrightarrow> off + len \<le> length u) \<and>
        (\<forall>off len. query_field f = Some (off, len) \<longrightarrow> off + len \<le> length u))"

section \<open>Sequences of callbacks\<close>

datatype callback = Url string | HeaderField string | HeaderValue string | Body string

fun run_callback :: "builder \<Rightarrow> callback \<Rightarrow> int \<times> builder" where
  "run_callback b (Url s) = on_url b s"
| "run_callback b (HeaderField s) = on_header_field b s"
| "run_callback b (HeaderValue s) = on_header_value b s"
| "run_callback b (Body s) = on_body b s"

text \<open>The parser stops at the first callback that does not return 0.\<close>

fun run_callbacks :: "builder \<Rightarrow> callback list \<Rightarrow> int \<times> builder" where
  "run_callbacks b [] = (0, b)"
| "run_callbacks b (c # cs) =
     (let (rc, b1) = run_callback b c in if rc \<noteq> 0 then (rc, b1) else run_callbacks b1 cs)"

lemma run_callbacks_append:
  "run_callbacks b (cs @ ds) =
     (let (rc, b1) = run_callbacks b cs in if rc \<noteq> 0 then (rc, b1) else run_callbacks b1 ds)"
  by (induction b cs rule: run_callbacks.induct) (auto split: prod.splits)

subsection \<open>Chunks\<close>

text \<open>Neighbouring callbacks of the same kind are pieces of one value.\<close>

fun join_chunks :: "callback \<Rightarrow> callback \<Rightarrow> callback option" where
  "join_chunks (Url x) (Url y) = Some (Url (x @ y))"
| "join_chunks (HeaderField x) (HeaderField y) = Some (HeaderField (x @ y))"
| "join_chunks (HeaderValue x) (HeaderValue y) = Some (HeaderValue (x @ y))"
| "join_chunks (Body x) (Body y) = Some (Body (x @ y))"
| "join_chunks c d = None"

fun merge_by :: "('a \<Rightarrow> 'a \<Rightarrow> 'a option) \<Rightarrow> 'a list \<Rightarrow> 'a list" where
  "merge_by j (c # d # cs) =
     (case j c d of Some e \<Rightarrow> merge_by j (e # cs) | None \<Rightarrow> c # merge_by j (d # cs))"
| "merge_by j cs = cs"

definition merge_chunks :: "callback list \<Rightarrow> callback list" where
  "merge_chunks = merge_by join_chunks"

text \<open>A run that does not see one merge does not see any.\<close>

lemma merge_by_invariant:
  assumes "\<And>b c d e cs. j c d = Some e \<Longrightarrow> run b (c # d # cs) = run b (e # cs)"
    and "\<And>b c cs ds. (\<And>b. run b cs = run b ds) \<Longrightarrow> run b (c # cs) = run b (c # ds)"
  shows "run b (merge_by j cs) = run b cs"
proof (induction "length cs" arbitrary: b cs rule: less_induct)
  case less
  consider c d ds where "cs = c # d # ds" | "length cs < 2"
    by (cases cs; cases "tl cs") auto
  then show ?case
  proof cases
    case 1
    show ?thesis
    proof (cases "j c d")
      case None
      have "run b (merge_by j (d # ds)) = run b (d # ds)" for b using less 1 by simp
      from assms(2) [OF this] None 1 show ?thesis by simp
    next
      case (Some e)
      have "run b (merge_by j (e # ds)) = run b (e # ds)" using less 1 by simp
      with assms(1) [OF Some] Some 1 show ?thesis by simp
    qed
  next
    case 2
    then show ?thesis by (cases cs; cases "tl cs") auto
  qed
qed

lemma on_url_chunks: "on_url (snd (on_url b x)) y = on_url b (x @ y)"
  by (simp add: on_url_def)

lemma on_body_chunks: "on_body (snd (on_body b x)) y = on_body b (x @ y)"
  by (simp add: on_body_def)

lemma on_header_field_chunks:
  "on_header_field (snd (on_header_field b x)) y = on_header_field b (x @ y)"
  by (simp add: on_header_field_def Let_def split: header_state.split)

lemma on_header_value_chunks:
  "fst (on_header_value b x) = 0 \<Longrightarrow>
     on_header_value (snd (on_header_value b x)) y = on_header_value b (x @ y)"
  by (simp add: on_header_value_def split: header_state.splits)

lemma on_header_value_chunks_fail:
  "fst (on_header_value b x) \<noteq> 0 \<Longrightarrow> on_header_value b x = on_header_value b (x @ y)"
  by (simp add: on_header_value_def split: header_state.splits)

lemma callback_status:
  "fst (on_url b x) = 0" "fst (on_header_field b x) = 0" "fst (on_body b x) = 0"
  by (simp_all add: on_url_def on_header_field_def on_body_def)

lemma two_chunks:
  "run_callbacks b (Url x # Url y # cs) = run_callbacks b (Url (x @ y) # cs)"
  "run_callbacks b (HeaderField x # HeaderField y # cs) = run_callbacks b (HeaderField (x @ y) # cs)"
  "run_callbacks b (Body x # Body y # cs) = run_callbacks b (Body (x @ y) # cs)"
  by (simp_all add: split_beta Let_def callback_status on_url_chunks on_body_chunks
      on_header_field_chunks)

lemma two_value_chunks:
  "run_callbacks b (HeaderValue x # HeaderValue y # cs) = run_callbacks b (HeaderValue (x @ y) # cs)"
proof (cases "fst (on_header_value b x) = 0")
  case True
  then show ?thesis by (simp add: split_beta Let_def on_header_value_chunks)
next
  case False
  with on_header_value_chunks_fail [OF False, of y] show ?thesis
    by (simp add: split_beta Let_def)
qed

fun_cases join_chunksE: "join_chunks c d = Some e"

lemma run_join_chunks:
  "join_chunks c d = Some e \<Longrightarrow> run_callbacks b (c # d # cs) = run_callbacks b (e # cs)"
  by (erule join_chunksE) (simp_all only: two_chunks two_value_chunks)

lemma run_merge_chunks: "run_callbacks b (merge_chunks cs) = run_callbacks b cs"
  unfolding merge_chunks_def
  by (rule merge_by_invariant [OF run_join_chunks]) (auto split: prod.splits)

text \<open>What was received is neither lost nor reordered: the URL and the body are the pieces of
  their kind, in order, behind what the builder already had.\<close>

fun url_piece :: "callback \<Rightarrow> string" where
  "url_piece (Url s) = s"
| "url_piece _ = []"

fun body_piece :: "callback \<Rightarrow> string" where
  "body_piece (Body s) = s"
| "body_piece _ = []"

lemma run_callback_frame:
  "url (snd (run_callback b c)) = url b @ url_piece c"
  "bbody (snd (run_callback b c)) = bbody b @ body_piece c"
  by (cases c; auto simp: on_url_def on_body_def on_header_field_def on_header_value_def Let_def
      split: header_state.splits)+

lemma run_callbacks_frame:
  "run_callbacks b cs = (0, b') \<Longrightarrow>
     url b' = url b @ concat (map url_piece cs) \<and> bbody b' = bbody b @ concat (map body_piece cs)"
proof (induction cs arbitrary: b)
  case (Cons c cs)
  then show ?case
    using run_callback_frame [of b c] by (cases "run_callback b c") (auto split: if_splits)
qed simp

subsection \<open>A whole request\<close>

text \<open>The callbacks for a request with the given URL, headers and body.\<close>

definition request_callbacks ::
    "string \<Rightarrow> (string \<times> string) list \<Rightarrow> string \<Rightarrow> callback list" where
  "request_callbacks u hs bd =
     Url u # concat (map (\<lambda>(n, v). [HeaderField n, HeaderValue v]) hs) @ [Body bd]"

definition assign_all :: "(string, string) umap \<Rightarrow> (string \<times> string) list \<Rightarrow> (string, string) umap" where
  "assign_all m hs = foldl (\<lambda>m (n, v). umap_assign m n v) m hs"

lemma map_of_assign_all: "map_of (assign_all m hs) = map_of m ++ map_of (rev hs)"
proof (induction hs arbitrary: m)
  case (Cons h hs)
  have "assign_all m (h # hs) = assign_all (umap_assign m (fst h) (snd h)) hs"
    by (simp add: assign_all_def split_beta)
  with Cons [of "umap_assign m (fst h) (snd h)"] show ?case
    by (cases h) (auto simp: map_of_umap_assign map_add_def fun_eq_iff split: option.splits)
qed (simp add: assign_all_def)

text \<open>While a header is in the buffers, the ones before it are stored.\<close>

lemma run_headers:
  "hstate b = VALUE \<Longrightarrow> hs \<noteq> [] \<Longrightarrow>
     run_callbacks b (concat (map (\<lambda>(n, v). [HeaderField n, HeaderValue v]) hs)) =
       (0, b\<lparr>headers := assign_all (headers b) ((hname b, hvalue b) # butlast hs),
             hname := fst (last hs), hvalue := snd (last hs)\<rparr>)"
proof (induction hs arbitrary: b)
  case (Cons h hs)
  obtain n v where h: "h = (n, v)" by (cases h)
  let ?b1 = "b\<lparr>headers := umap_assign (headers b) (hname b) (hvalue b), hname := n, hvalue := v\<rparr>"
  have step: "run_callbacks b [HeaderField n, HeaderValue v] = (0, ?b1)"
    using Cons.prems(1) by (simp add: on_header_field_def on_header_value_def)
  show ?case
  proof (cases "hs = []")
    case True
    with step h show ?thesis by (simp add: assign_all_def)
  next
    case False
    have "run_callbacks ?b1 (concat (map (\<lambda>(n, v). [HeaderField n, HeaderValue v]) hs)) =
       (0, ?b1\<lparr>headers := assign_all (headers ?b1) ((n, v) # butlast hs),
               hname := fst (last hs), hvalue := snd (last hs)\<rparr>)"
      using Cons.IH [of ?b1] Cons.prems(1) False by simp
    then show ?thesis
      using step h False run_callbacks_append [of b "[HeaderField n, HeaderValue v]"]
      by (simp add: assign_all_def)
  qed
qed simp

lemma run_request_no_headers:
  "run_callbacks RequestBuilder (request_callbacks u [] bd) =
     (0, RequestBuilder\<lparr>url := u, bbody := bd\<rparr>)"
  by (simp add: request_callbacks_def RequestBuilder_def on_url_def on_body_def)

lemma run_request:
  assumes "hs \<noteq> []"
  shows "run_callbacks RequestBuilder (request_callbacks u hs bd) =
    (0, \<lparr>hstate = VALUE, hname = fst (last hs), hvalue = snd (last hs), url = u, bbody = bd,
         headers = assign_all [] (butlast hs)\<rparr>)"
proof -
  obtain n v hs' where hs: "hs = (n, v) # hs'" using assms by (cases hs) auto
  let ?b1 = "\<lparr>hstate = VALUE, hname = n, hvalue = v, url = u, bbody = '''', headers = []\<rparr>"
  have 1: "run_callbacks RequestBuilder [Url u, HeaderField n, HeaderValue v] = (0, ?b1)"
    by (simp add: RequestBuilder_def on_url_def on_header_field_def on_header_value_def)
  have 2: "run_callbacks ?b1 (concat (map (\<lambda>(n, v). [HeaderField n, HeaderValue v]) hs')) =
      (0, \<lparr>hstate = VALUE, hname = fst (last hs), hvalue = snd (last hs), url = u, bbody = '''',
           headers = assign_all [] (butlast hs)\<rparr>)"
    using run_headers [of ?b1 hs'] hs by (cases "hs' = []") (simp_all add: assign_all_def)
  have "request_callbacks u hs bd = [Url u, HeaderField n, HeaderValue v] @
      concat (map (\<lambda>(n, v). [HeaderField n, HeaderValue v]) hs') @ [Body bd]"
    by (simp add: request_callbacks_def hs)
  then show ?thesis
    by (simp only: run_callbacks_append 1 2 Let_def prod.case) (simp add: on_body_def)
qed

section \<open>The built request\<close>

lemma string_slice_no_throw: "string_slice s f \<noteq> Inl (Throw e)"
  by (cases f) (simp add: string_slice_def)

lemma parseQueryParameters_Inr: "\<exists>m. parseQueryParameters ins s = Inr m"
  by (simp add: parseQueryParameters_def QueryString_for_eq fold_res_pure)

lemma convertMethod_no_undef: "convertMethod k \<noteq> Inl Undef"
  by (simp add: convertMethod_def)

text \<open>With fields inside the URL, nothing undefined happens: a request or an exception.\<close>

lemma build_slices:
  assumes "url_fields_within parse_url" "parse_url u = Some f"
  shows "\<exists>p. (case path_field f of None \<Rightarrow> Inr ''/'' | Some g \<Rightarrow> string_slice u g) = Inr p"
    and "\<exists>m. (case query_field f of None \<Rightarrow> Inr []
      | Some g \<Rightarrow> bind_res (string_slice u g) (parseQueryParameters ins)) = Inr m"
proof -
  have slice: "\<exists>s. string_slice u g = Inr s"
    if "path_field f = Some g \<or> query_field f = Some g" for g
    using assms that by (cases g) (auto simp: url_fields_within_def string_slice_def)
  show "\<exists>p. (case path_field f of None \<Rightarrow> Inr ''/'' | Some g \<Rightarrow> string_slice u g) = Inr p"
    using slice by (auto split: option.splits)
  show "\<exists>m. (case query_field f of None \<Rightarrow> Inr []
      | Some g \<Rightarrow> bind_res (string_slice u g) (parseQueryParameters ins)) = Inr m"
    using slice parseQueryParameters_Inr by (fastforce split: option.splits)
qed

lemma build_no_undef:
  assumes "url_fields_within parse_url"
  shows "build ins parse_url b k \<noteq> Inl Undef"
proof (cases "parse_url (url b)")
  case (Some f)
  from build_slices(1) [OF assms Some] build_slices(2) [OF assms Some, of ins]
    parseQueryParameters_Inr [of ins "bbody b"] Some convertMethod_no_undef [of k]
  show ?thesis by (cases "convertMethod k") (auto simp: build_def)
qed (simp add: build_def)

section \<open>Properties\<close>

text \<open>C32: How the parser cuts URL, header names, header values and body into pieces makes no
  difference to the builder.\<close>

theorem builder_ignores_chunks: "run_callbacks b (merge_chunks cs) = run_callbacks b cs"
  by (rule run_merge_chunks)

text \<open>C33: After the callbacks of a request, URL and body are stored, and of the headers all but the last:
  a name maps to the last value it has among them.\<close>

theorem builder_after_request:
  assumes "hs \<noteq> []"
  shows "\<exists>b. run_callbacks RequestBuilder (request_callbacks u hs bd) = (0, b) \<and>
    url b = u \<and> bbody b = bd \<and> map_of (headers b) = map_of (rev (butlast hs)) \<and>
    (hname b, hvalue b) = last hs"
  unfolding run_request [OF assms] by (simp add: map_of_assign_all)

theorem builder_after_request_witness:
  "\<exists>b. run_callbacks RequestBuilder (request_callbacks ''/'' [(''Host'', ''x''), (''Accept'', ''y'')] '''') = (0, b) \<and>
     map_of (headers b) ''Host'' = Some ''x'' \<and> map_of (headers b) ''Accept'' = None"
  using builder_after_request [of "[(''Host'', ''x''), (''Accept'', ''y'')]" "''/''" "''''"] by auto

text \<open>C34: Building a request fails only with an exception, and exactly when the URL does not parse or the
  method is not one of the four that are supported.\<close>

theorem build_errors:
  assumes "url_fields_within parse_url"
  shows "build ins parse_url b k = Inl e \<longleftrightarrow>
    parse_url (url b) = None \<and> e = Throw (Runtime_error ''Error parsing url'') \<or>
    parse_url (url b) \<noteq> None \<and> k \<notin> {0, 1, 3, 4} \<and> e = Throw (Runtime_error ''Invalid method'')"
proof (cases "parse_url (url b)")
  case None
  then show ?thesis by (auto simp: build_def)
next
  case (Some f)
  obtain p where p: "(case path_field f of None \<Rightarrow> Inr ''/'' | Some g \<Rightarrow> string_slice (url b) g) = Inr p"
    using build_slices(1) [OF assms Some] by blast
  obtain q where q: "(case query_field f of None \<Rightarrow> Inr []
      | Some g \<Rightarrow> bind_res (string_slice (url b) g) (parseQueryParameters ins)) = Inr q"
    using build_slices(2) [OF assms Some] by blast
  obtain r where "parseQueryParameters ins (bbody b) = Inr r" using parseQueryParameters_Inr by blast
  with Some p q show ?thesis by (auto simp: build_def convertMethod_def)
qed

theorem build_errors_witness:
  "build insert_back (\<lambda>u. Some \<lparr>path_field = Some (0, length u), query_field = None\<rparr>) RequestBuilder 2 =
     Inl (Throw (Runtime_error ''Invalid method''))"
  using build_errors [of "\<lambda>u. Some \<lparr>path_field = Some (0, length u), query_field = None\<rparr>"]
  by (auto simp: url_fields_within_def)

text \<open>A built request has the path of the URL (the root when there is none), the parameters of its
  query, those of the body when it is a POST, the body as entity, and the stored headers.\<close>

theorem build_contents:
  assumes "build ins parse_url b k = Inr req"
  shows "\<exists>f. parse_url (url b) = Some f \<and> convertMethod k = Inr (rmethod req) \<and>
    (case path_field f of None \<Rightarrow> rpath req = ''/'' | Some g \<Rightarrow> string_slice (url b) g = Inr (rpath req)) \<and>
    (case query_field f of None \<Rightarrow> qparams (queryParams (uriInfo req)) = []
     | Some g \<Rightarrow> bind_res (string_slice (url b) g) (parseQueryParameters ins) =
         Inr (qparams (queryParams (uriInfo req)))) \<and>
    (if rmethod req = POST then parseQueryParameters ins (bbody b) = Inr (pparams (postParams (uriInfo req)))
     else pparams (postParams (uriInfo req)) = []) \<and>
    Entity_toString (entity (uriInfo req)) = bbody b \<and> hparams (headerParams (uriInfo req)) = headers b"
  using assms
  by (auto simp: build_def bind_res_Inr_iff Request_def Entity_of_def Entity_toString_def
      split: option.splits if_splits)

theorem build_contents_witness:
  "\<exists>req. build insert_back (\<lambda>u. Some \<lparr>path_field = Some (0, 1), query_field = Some (2, 3)\<rparr>)
      (RequestBuilder\<lparr>url := ''/?a=b'', bbody := ''x''\<rparr>) 4 = Inr req \<and>
     rpath req = ''/'' \<and> rmethod req = PUT \<and> qparams (queryParams (uriInfo req)) = [(''a'', ''b'')]"
proof -
  let ?u = "\<lambda>u :: string. Some \<lparr>path_field = Some (0, 1), query_field = Some (2, 3)\<rparr>"
  let ?b = "RequestBuilder\<lparr>url := ''/?a=b'', bbody := ''x''\<rparr>"
  have q: "bind_res (string_slice ''/?a=b'' (2, 3)) (parseQueryParameters insert_back) = Inr [(''a'', ''b'')]"
    "string_slice ''/?a=b'' (0, 1) = Inr ''/''" by code_simp+
  then obtain req where req: "build insert_back ?u ?b 4 = Inr req"
    by (simp add: build_def convertMethod_def)
  from build_contents [OF this] q req show ?thesis by (auto simp: convertMethod_def)
qed

end
