(* ===== verification/Server_Instance.thy ===== *)
theory Server_Instance
  imports Matcher_Correct Request_Builder
begin

text \<open>
  \<open>src/server_instance.h\<close> and \<open>src/server_instance.cc\<close>: from a parsed message to a response
  (\<open>dispatch\<close>, \<open>get_response\<close>), the choice of a worker for a connection (\<open>chooseBase\<close>) and the
  start and stop of a listening instance.

  What the code takes from outside the repository is gathered in a record \<open>platform\<close>: the
  placement of equal keys in a multimap, the URL parser and the ordered set.
\<close>

section \<open>The platform\<close>

record platform =
  mm_ins :: mm_insert
  url_parse :: url_parser
  set_first :: "(search_state \<Rightarrow> search_state \<Rightarrow> bool) \<Rightarrow> search_state list \<Rightarrow> search_state res"

section \<open>Requests to responses\<close>

text \<open>Calling a \<open>std::function\<close> that was never assigned throws \<open>bad_function_call\<close>.\<close>

definition dispatch :: "request \<Rightarrow> route_match \<Rightarrow> response res" where
  "dispatch req h =
     (case mmethods h of
        None \<Rightarrow> Inl (Throw Bad_function_call)
      | Some ms \<Rightarrow>
          (case rmethod req of
             GET \<Rightarrow> get ms (parameters h) (uriInfo req)
           | PUT \<Rightarrow> put ms (parameters h) (uriInfo req)
           | POST \<Rightarrow> post ms (parameters h) (uriInfo req)
           | DELETE \<Rightarrow> del ms (parameters h) (uriInfo req)))"

text \<open>The \<open>try\<close> block with its handler for \<open>std::exception\<close>; undefined behaviour is not caught.\<close>

definition get_response :: "platform \<Rightarrow> matcher \<Rightarrow> builder \<Rightarrow> int \<Rightarrow> response res" where
  "get_response pf m b method =
     (case bind_res (build (mm_ins pf) (url_parse pf) b method) (\<lambda>req.
             bind_res (matcher_match (set_first pf) m (rpath req)) (\<lambda>mt.
               case mt of Some h \<Rightarrow> dispatch req h | None \<Rightarrow> Inr notFound)) of
        Inl (Throw e) \<Rightarrow> Inr (Response INTERNAL_ERROR TEXT_PLAIN (what e))
      | r \<Rightarrow> r)"

section \<open>The instance\<close>

text \<open>The operations on the listener that may throw; the network decides whether they do.\<close>

datatype listener_op = BindOp string "16 word" | ListenOp nat | StartAcceptingOp

datatype listener_state = Created | Bound | Listening | Accepting

record 'b server_instance =
  ipaddr :: string
  port :: "16 word"
  listener :: "listener_state option"
  bases :: "'b list"
  matcher :: matcher

definition ServerInstance :: "string \<Rightarrow> 16 word \<Rightarrow> 'b server_instance" where
  "ServerInstance ip p =
     \<lparr>ipaddr = ip, port = p, listener = None, bases = [], matcher = ResourceMatcher\<rparr>"

definition registerResource ::
    "'b server_instance \<Rightarrow> resource \<Rightarrow> methods \<Rightarrow> (exn option \<times> 'b server_instance) res" where
  "registerResource s r ms =
     bind_res (addResource (matcher s) r ms) (\<lambda>(e, m). Inr (e, s\<lparr>matcher := m\<rparr>))"

text \<open>
  \<open>start\<close>: the exception thrown, if any, and the instance left behind. \<open>net\<close> says for each
  operation on the listener which exception it throws, if it does.
\<close>

definition instance_start ::
    "(listener_op \<Rightarrow> exn option) \<Rightarrow> 'b server_instance \<Rightarrow> 'b list \<Rightarrow> exn option \<times> 'b server_instance" where
  "instance_start net s handlers =
     (if listener s \<noteq> None then (Some (Logic_error ''Server has already been started''), s)
      else let s1 = s\<lparr>bases := handlers, listener := Some Created\<rparr> in
        case net (BindOp (ipaddr s1) (port s1)) of
          Some e \<Rightarrow> (Some e, s1)
        | None \<Rightarrow> let s2 = s1\<lparr>listener := Some Bound\<rparr> in
          (case net (ListenOp 128) of
             Some e \<Rightarrow> (Some e, s2)
           | None \<Rightarrow> let s3 = s2\<lparr>listener := Some Listening\<rparr> in
             (case net StartAcceptingOp of
                Some e \<Rightarrow> (Some e, s3)
              | None \<Rightarrow> (None, s3\<lparr>listener := Some Accepting\<rparr>))))"

text \<open>What a start that does not throw prints: the address, the port the listener is bound to, and the
  registered paths. \<open>printf\<close> reads a string up to its first NUL.\<close>

definition line_feed :: char where "line_feed = CHR 0x0A"

definition c_str :: "string \<Rightarrow> string" where
  "c_str s = takeWhile (\<lambda>c. c \<noteq> CHR 0x00) s"

definition start_banner :: "16 word \<Rightarrow> 'b server_instance \<Rightarrow> string" where
  "start_banner listener_port s =
     ''Started server on '' @ c_str (ipaddr s) @ '' port '' @ dec_nat (unat listener_port) @ [line_feed] @
     ''The following resource paths are registered:'' @ [line_feed, line_feed] @
     concat (map (\<lambda>r. ''    '' @ c_str (path r) @ [line_feed]) (matcher_resources (matcher s))) @
     [line_feed]"

definition instance_stop :: "'b server_instance \<Rightarrow> 'b server_instance" where
  "instance_stop s = (if listener s = None then s else s\<lparr>listener := None\<rparr>)"

text \<open>
  \<open>chooseBase\<close>: the counter is one 32-bit \<open>int\<close> for the whole process (a static local). The
  incremented counter is converted to the 64-bit unsigned type of \<open>size()\<close>, with its sign.
  The remainder of a division by zero is undefined.
\<close>

definition choose_index :: "32 word \<Rightarrow> nat \<Rightarrow> nat" where
  "choose_index iter n = unat (scast iter :: 64 word) mod n"

definition chooseBase :: "32 word \<Rightarrow> 'b server_instance \<Rightarrow> (32 word \<times> 'b) res" where
  "chooseBase iter s =
     (let iter1 = iter + 1 in
      if bases s = [] then Inl Undef
      else bind_res (vector_at (bases s) (choose_index iter1 (length (bases s))))
             (\<lambda>b. Inr (iter1, b)))"

section \<open>Response lemmas\<close>

lemma get_response_no_throw: "get_response pf m b k \<noteq> Inl (Throw e)"
  by (auto simp: get_response_def split: sum.splits fault.splits)

text \<open>A resource's methods use no more path parameters than its template has variables, and its
  own code has no undefined behaviour on arguments of the types of its signature.\<close>

definition handler_ok :: "nat \<Rightarrow> handler \<Rightarrow> bool" where
  "handler_ok n h \<longleftrightarrow>
     length (filter takes_path_param (signature h)) \<le> n \<and>
     (\<forall>as. list_all2 has_type as (signature h) \<longrightarrow> body h as \<noteq> Inl Undef)"

definition resource_ok :: "resource \<Rightarrow> bool" where
  "resource_ok r \<longleftrightarrow>
     (\<forall>h\<in>{get_method r, put_method r, post_method r, del_method r}.
        handler_ok (length (filter (\<lambda>s. s = Var) (template (path r)))) h)"

text \<open>Every route leads to a resource at its own template, with the methods bound to it.\<close>

definition routes_ok :: "matcher \<Rightarrow> bool" where
  "routes_ok m \<longleftrightarrow>
     (\<forall>t r f. routes m t = Some (r, f) \<longrightarrow>
        t = template (path r) \<and> f = Some (bindMethods r) \<and> resource_ok r)"

lemma dispatch_handler_no_undef:
  assumes "handler_ok n h" "n \<le> length params"
  shows "dispatch_handler h params u \<noteq> Inl Undef"
proof -
  have "Extractor (signature h) params u \<noteq> Inl Undef"
    using assms by (simp add: Extractor_eq ExtractorHelper_defined handler_ok_def)
  moreover have "body h as \<noteq> Inl Undef" if "Extractor (signature h) params u = Inr as" for as
    using that assms(1) ExtractorHelper_types by (simp add: Extractor_eq handler_ok_def)
  ultimately show ?thesis
    by (auto simp: dispatch_handler_eq bind_res_def split: sum.splits)
qed

lemma dispatch_no_undef:
  assumes ok: "routes_ok m" and c: "candidate m cs ts"
  shows "dispatch req (match_of m cs ts) \<noteq> Inl Undef"
proof -
  obtain r f where r: "routes m ts = Some (r, f)" using c by (auto simp: candidate_def)
  with ok have rf: "ts = template (path r)" "f = Some (bindMethods r)" "resource_ok r"
    unfolding routes_ok_def by blast+
  have len: "length ts = length cs" using c by (simp add: candidate_def template_matches_length)
  have "length (filter (\<lambda>s. s = Var) (template (path r))) \<le> length (bindings ts cs)"
    using bindings_count [OF len] rf(1) by simp
  then show ?thesis
    using rf(3) dispatch_handler_no_undef
    by (cases "rmethod req") (auto simp: dispatch_def match_of_def r rf(2) bindMethods_def resource_ok_def)
qed

text \<open>The method of a resource that a request is for.\<close>

fun method_handler :: "resource \<Rightarrow> http_method \<Rightarrow> handler" where
  "method_handler r GET = get_method r"
| "method_handler r PUT = put_method r"
| "method_handler r POST = post_method r"
| "method_handler r DELETE = del_method r"

lemma dispatch_match_of:
  assumes "routes m ts = Some (r, Some (bindMethods r))"
  shows "dispatch req (match_of m cs ts) =
    dispatch_handler (method_handler r (rmethod req)) (bindings ts cs) (uriInfo req)"
  using assms by (cases "rmethod req") (simp_all add: dispatch_def match_of_def bindMethods_def)

section \<open>What is answered\<close>

lemma get_response_cases:
  assumes "build (mm_ins pf) (url_parse pf) b k = Inr req"
    and "matcher_match (set_first pf) m (rpath req) = Inr mt"
  shows "get_response pf m b k =
    (case (case mt of Some h \<Rightarrow> dispatch req h | None \<Rightarrow> Inr notFound) of
       Inl (Throw e) \<Rightarrow> Inr (Response INTERNAL_ERROR TEXT_PLAIN (what e))
     | r \<Rightarrow> r)"
  by (simp add: get_response_def assms)

lemma get_response_build_error:
  "build (mm_ins pf) (url_parse pf) b k = Inl (Throw e) \<Longrightarrow>
     get_response pf m b k = Inr (Response INTERNAL_ERROR TEXT_PLAIN (what e))"
  by (simp add: get_response_def)

context matcher_set
begin

lemma response_not_found:
  assumes "wf_matcher m" "set_first pf = first"
    and "build (mm_ins pf) (url_parse pf) b k = Inr req"
    and "\<nexists>ts. candidate m (path_components (rpath req)) ts"
  shows "get_response pf m b k = Inr notFound"
proof -
  have "matcher_match (set_first pf) m (rpath req) = Inr None"
    using match_none_iff [OF assms(1), of "rpath req"] assms(2,4) by simp
  from get_response_cases [OF assms(3) this] show ?thesis by simp
qed

text \<open>Without conflicts, the answer is that of the method of a best matching resource.\<close>

lemma response_consistent:
  assumes wf: "wf_matcher m" and first: "set_first pf = first"
    and req: "build (mm_ins pf) (url_parse pf) b k = Inr req"
    and c: "candidate m (path_components (rpath req)) us"
    and con: "consistent m (path_components (rpath req))"
  shows "\<exists>ts. candidate m (path_components (rpath req)) ts \<and>
    (\<forall>us. candidate m (path_components (rpath req)) us \<longrightarrow>
       dominates (path_components (rpath req)) ts us) \<and>
    get_response pf m b k =
      (case dispatch req (match_of m (path_components (rpath req)) ts) of
         Inl (Throw e) \<Rightarrow> Inr (Response INTERNAL_ERROR TEXT_PLAIN (what e))
       | r \<Rightarrow> r)"
proof -
  from match_consistent [OF wf c con] obtain ts where
    ts: "candidate m (path_components (rpath req)) ts"
    "matcher_match first m (rpath req) = Inr (Some (match_of m (path_components (rpath req)) ts))"
    "\<forall>us. candidate m (path_components (rpath req)) us \<longrightarrow>
       dominates (path_components (rpath req)) ts us" by blast
  with first have "matcher_match (set_first pf) m (rpath req) =
      Inr (Some (match_of m (path_components (rpath req)) ts))" by simp
  from get_response_cases [OF req this] ts(1,3) show ?thesis by auto
qed

end

context matcher_total_set
begin

text \<open>Every message is answered: no undefined behaviour and no escaping exception.\<close>

lemma response_always:
  assumes wf: "wf_matcher m" and ok: "routes_ok m" and first: "set_first pf = first"
    and url: "url_fields_within (url_parse pf)"
  shows "\<exists>r. get_response pf m b k = Inr r"
proof (cases "build (mm_ins pf) (url_parse pf) b k")
  case (Inl e)
  then show ?thesis
    using build_no_undef [OF url, of "mm_ins pf" b k] by (cases e) (auto simp: get_response_def)
next
  case (Inr req)
  let ?cs = "path_components (rpath req)"
  show ?thesis
  proof (cases "\<exists>us. candidate m ?cs us")
    case True
    then obtain us where "candidate m ?cs us" ..
    from match_total [OF wf this] first obtain ts where
      ts: "candidate m ?cs ts" "matcher_match (set_first pf) m (rpath req) = Inr (Some (match_of m ?cs ts))"
      by auto
    have "dispatch req (match_of m ?cs ts) \<noteq> Inl Undef" by (rule dispatch_no_undef [OF ok ts(1)])
    then show ?thesis
      unfolding get_response_cases [OF Inr ts(2)]
      by (auto split: sum.splits fault.splits)
  next
    case False
    then show ?thesis using response_not_found [OF wf first Inr] by blast
  qed
qed

end

section \<open>Choosing workers\<close>

lemma choose_index_bound: "0 < n \<Longrightarrow> choose_index iter n < n"
  by (simp add: choose_index_def)

text \<open>
  For the code's 4 workers the sign extension does not disturb the remainder, and the choice
  is cyclic even where the counter overflows.
\<close>

lemma choose_index_4: "choose_index iter 4 = unat iter mod 4"
proof -
  have "unat (scast iter :: 64 word) = nat (take_bit 64 (sint iter))"
    by transfer simp
  then have a: "int (unat (scast iter :: 64 word)) = take_bit 64 (sint iter)" by simp
  have "take_bit 2 (take_bit 64 (sint iter)) = take_bit 2 (uint iter)"
    by transfer (simp add: take_bit_signed_take_bit min_def)
  then have "take_bit 64 (sint iter) mod 4 = uint iter mod 4"
    by (simp add: take_bit_eq_mod)
  then have "int (unat (scast iter :: 64 word) mod 4) = int (unat iter mod 4)"
    by (simp only: zmod_int a of_nat_numeral) simp
  then show ?thesis by (simp only: of_nat_eq_iff choose_index_def)
qed

lemma unat_succ_mod_4: "unat ((iter :: 32 word) + 1) mod 4 = (unat iter + 1) mod 4"
  by (simp add: unat_word_ariths mod_mod_cancel)

lemma chooseBase_defined:
  assumes "bases s \<noteq> []"
  shows "\<exists>b\<in>set (bases s). chooseBase iter s = Inr (iter + 1, b)"
  using assms choose_index_bound [of "length (bases s)" "iter + 1"]
  by (auto simp: chooseBase_def vector_at_def Let_def)

text \<open>The workers of \<open>k\<close> connections accepted one after the other.\<close>

fun choose_run :: "32 word \<Rightarrow> 'b server_instance \<Rightarrow> nat \<Rightarrow> 'b list res" where
  "choose_run iter s 0 = Inr []"
| "choose_run iter s (Suc k) =
     bind_res (chooseBase iter s)
       (\<lambda>(iter', b). bind_res (choose_run iter' s k) (\<lambda>bs. Inr (b # bs)))"

lemma chooseBase_4:
  assumes "length (bases s) = 4"
  shows "chooseBase iter s = Inr (iter + 1, bases s ! ((unat iter + 1) mod 4))"
proof -
  have "choose_index (iter + 1) 4 = (unat iter + 1) mod 4"
    by (simp only: choose_index_4 unat_succ_mod_4)
  moreover have "bases s \<noteq> []" using assms by auto
  ultimately show ?thesis using assms by (simp add: chooseBase_def vector_at_def)
qed

lemma shift_mod_4:
  fixes a u :: nat
  assumes "a mod 4 = (u + 1) mod 4"
  shows "(a + 1 + i) mod 4 = (u + 1 + Suc i) mod 4"
proof -
  have "(a + 1 + i) mod 4 = (a mod 4 + (1 + i)) mod 4"
    by (simp only: mod_add_left_eq add.assoc)
  also have "\<dots> = (u + 1 + (1 + i)) mod 4"
    unfolding assms by (simp only: mod_add_left_eq)
  also have "u + 1 + (1 + i) = u + 1 + Suc i" by simp
  finally show ?thesis .
qed

lemma choose_run_Suc_4:
  assumes "length (bases s) = 4"
    and "choose_run (iter + 1) s k =
      Inr (map (\<lambda>i. bases s ! ((unat (iter + 1) + 1 + i) mod 4)) [0..<k])"
  shows "choose_run iter s (Suc k) =
    Inr (map (\<lambda>i. bases s ! ((unat iter + 1 + i) mod 4)) [0..<Suc k])"
proof -
  have *: "(\<lambda>i. bases s ! ((unat (iter + 1) + 1 + i) mod 4)) =
      (\<lambda>i. bases s ! ((unat iter + 1 + Suc i) mod 4))"
  proof
    fix i
    have "(unat (iter + 1) + 1 + i) mod 4 = (unat iter + 1 + Suc i) mod 4"
      by (rule shift_mod_4 [OF unat_succ_mod_4])
    then show "bases s ! ((unat (iter + 1) + 1 + i) mod 4) = bases s ! ((unat iter + 1 + Suc i) mod 4)"
      by (rule arg_cong)
  qed
  have "map (\<lambda>i. bases s ! ((unat iter + 1 + i) mod 4)) [0..<Suc k] =
      bases s ! ((unat iter + 1) mod 4) #
        map (\<lambda>i. bases s ! ((unat iter + 1 + Suc i) mod 4)) [0..<k]"
    unfolding map_upt_Suc by (simp only: add_0_right)
  then show ?thesis
    unfolding choose_run.simps chooseBase_4 [OF assms(1)] bind_res_simps prod.case assms(2) *
    by (rule arg_cong [THEN sym])
qed

lemma choose_run_4:
  assumes "length (bases s) = 4"
  shows "choose_run iter s k = Inr (map (\<lambda>i. bases s ! ((unat iter + 1 + i) mod 4)) [0..<k])"
proof (induction k arbitrary: iter)
  case 0
  show ?case by simp
next
  case (Suc k)
  show ?case by (rule choose_run_Suc_4 [OF assms Suc.IH])
qed

section \<open>Starting and stopping\<close>

text \<open>The lines of the banner: two of text, an empty one, one for each path, an empty one.\<close>

definition plain_text :: "string \<Rightarrow> bool" where
  "plain_text s \<longleftrightarrow> (\<forall>c\<in>set s. c \<noteq> CHR 0x00 \<and> c \<noteq> line_feed)"

lemma plain_c_str: "plain_text s \<Longrightarrow> c_str s = s"
  by (simp add: plain_text_def c_str_def takeWhile_eq_all_conv)

lemma pieces_line:
  assumes "plain_text l"
  shows "pieces (\<lambda>c. c = line_feed) (l @ line_feed # s) = l # pieces (\<lambda>c. c = line_feed) s"
  using assms by (intro pieces_append_sep) (auto simp: plain_text_def)

lemma pieces_path_lines:
  "\<forall>r\<in>set rs. plain_text (path r) \<Longrightarrow>
     pieces (\<lambda>c. c = line_feed) (concat (map (\<lambda>r. ''    '' @ c_str (path r) @ [line_feed]) rs) @ s) =
       map (\<lambda>r. ''    '' @ path r) rs @ pieces (\<lambda>c. c = line_feed) s"
proof (induction rs)
  case (Cons r rs)
  have "plain_text (''    '' @ path r)" using Cons.prems by (simp add: plain_text_def line_feed_def)
  from pieces_line [OF this] Cons show ?case by (simp add: plain_c_str)
qed simp

lemma start_banner_lines:
  assumes "plain_text (ipaddr s)" "\<forall>r\<in>set (matcher_resources (matcher s)). plain_text (path r)"
  shows "pieces (\<lambda>c. c = line_feed) (start_banner listener_port s) =
    [''Started server on '' @ ipaddr s @ '' port '' @ dec_nat (unat listener_port),
     ''The following resource paths are registered:'', ''''] @
    map (\<lambda>r. ''    '' @ path r) (matcher_resources (matcher s)) @ ['''']"
proof -
  have "\<not> is_digit (CHR 0x00)" "\<not> is_digit line_feed" by (simp_all add: is_digit_def line_feed_def)
  then have "CHR 0x00 \<notin> set (dec_nat n)" "line_feed \<notin> set (dec_nat n)" for n
    using dec_nat_digits by blast+
  then have 1: "plain_text (''Started server on '' @ ipaddr s @ '' port '' @ dec_nat (unat listener_port))"
    using assms(1) by (auto simp: plain_text_def line_feed_def)
  have 2: "plain_text ''The following resource paths are registered:''" "plain_text ''''"
    by (simp_all add: plain_text_def line_feed_def)
  have "pieces (\<lambda>c. c = line_feed) [line_feed] = ['''']" using pieces_line [OF 2(2), of "[]"] by simp
  then show ?thesis
    using pieces_line [OF 1] pieces_line [OF 2(1)] pieces_line [OF 2(2)] pieces_path_lines [OF assms(2)]
    by (simp add: start_banner_def plain_c_str [OF assms(1)])
qed

lemma instance_start_ok:
  "listener s = None \<Longrightarrow> (\<And>x. net x = None) \<Longrightarrow>
     instance_start net s bs = (None, s\<lparr>bases := bs, listener := Some Accepting\<rparr>)"
  by (simp add: instance_start_def)

lemma instance_start_listener: "listener (snd (instance_start net s bs)) \<noteq> None"
  by (auto simp: instance_start_def Let_def split: option.splits)

lemma instance_start_again:
  "instance_start net (snd (instance_start net' s bs')) bs =
     (Some (Logic_error ''Server has already been started''), snd (instance_start net' s bs'))"
  using instance_start_listener [of net' s bs'] by (simp add: instance_start_def)

lemma instance_stop_listener [simp]: "listener (instance_stop s) = None"
  by (simp add: instance_stop_def)

lemma instance_stop_idem: "instance_stop (instance_stop s) = instance_stop s"
  by (simp add: instance_stop_def)

section \<open>Properties\<close>

text \<open>With the four workers the server creates, consecutive connections are given to the workers in
  cyclic order from any value of the counter, also across its overflow; so any four consecutive
  connections go to the four workers, one each.\<close>

theorem round_robin:
  assumes "length (bases s) = 4"
  shows "choose_run iter s k = Inr (map (\<lambda>i. bases s ! ((unat iter + 1 + i) mod 4)) [0..<k]) \<and>
    (\<exists>bs. choose_run iter s 4 = Inr bs \<and> mset bs = mset (bases s))"
  using choose_run_4 [OF assms, of iter k] choose_run_4 [OF assms, of iter 4]
    mset_cycle [of "bases s" "unat iter + 1"] unfolding assms by blast

theorem round_robin_witness:
  "choose_run (- 2) ((ServerInstance ''127.0.0.1'' 80)\<lparr>bases := [''a'', ''b'', ''c'', ''d'']\<rparr>) 4 =
     Inr [''d'', ''a'', ''b'', ''c'']"
proof -
  have u: "unat (- 2 :: 32 word) = 4294967294" by simp
  have l: "[0..<4] = [0, 1, 2, 3 :: nat]" by (simp add: upt_rec)
  show ?thesis
    using round_robin [of "(ServerInstance ''127.0.0.1'' 80)\<lparr>bases := [''a'', ''b'', ''c'', ''d'']\<rparr>" "- 2" 4]
    unfolding u l by simp
qed

end
