(* ===== verification/Server.thy ===== *)
theory Server
  imports Server_Instance
begin

text \<open>
  \<open>src/server.cc\<close>, \<open>include/server.h\<close> and \<open>src/metrics_resource.cc\<close>: the life cycle of a server.
  It owns a listener event base run by the main thread, worker bases with a thread each, the
  application instance and possibly an admin instance.

  Threads and event bases are outside the repository; what the code relies on is modelled as
  follows. A base is a number, \<open>live_bases\<close> those not deleted. Functions queued on the listener
  base run one after the other, in the order in which they were queued, while the main thread
  runs its loop; \<open>runOnEventLoopAndWait\<close> therefore first lets the queued ones run. \<open>waiting\<close>
  counts the calls of \<open>main_.join()\<close> in progress: joining a thread twice is undefined, joining a
  thread that is not joinable throws. Whether operations on a listener throw is decided by \<open>net\<close>.
  No code of the repository catches an exception that leaves a function run on the loop; it ends
  the program, which is the result \<open>Inl (Throw e)\<close>.
\<close>

section \<open>The admin server\<close>

definition Ping_get :: "arg list \<Rightarrow> response res" where
  "Ping_get args = Inr (Response OK TEXT_PLAIN (''pong'' @ [CHR 0x0A]))"

definition PingResource :: "nat \<Rightarrow> resource" where
  "PingResource a = (Resource a ''/ping'')\<lparr>get_method := \<lparr>signature = [], body = Ping_get\<rparr>\<rparr>"

text \<open>\<open>serialize\<close> is the metrics library's JSON text at the time of the call.\<close>

definition Metrics_get :: "string \<Rightarrow> arg list \<Rightarrow> response res" where
  "Metrics_get serialize args = Inr (Response OK APPLICATION_JSON serialize)"

definition MetricsResource :: "string \<Rightarrow> nat \<Rightarrow> resource" where
  "MetricsResource serialize a =
     (Resource a ''/metrics'')\<lparr>get_method := \<lparr>signature = [], body = Metrics_get serialize\<rparr>\<rparr>"

text \<open>The constructor of \<open>AdminServer\<close>: the exception it throws, if any, and the instance.\<close>

definition AdminServer ::
    "string \<Rightarrow> string \<Rightarrow> 16 word \<Rightarrow> (exn option \<times> 'b server_instance) res" where
  "AdminServer serialize ip p =
     (let ping = PingResource 1; server_metrics = MetricsResource serialize 2 in
      bind_res (registerResource (ServerInstance ip p) ping (bindMethods ping)) (\<lambda>(e, s).
        if e \<noteq> None then Inr (e, s)
        else registerResource s server_metrics (bindMethods server_metrics)))"

section \<open>The server\<close>

datatype task = StartAdmin

record server_impl =
  started :: bool
  shutdown :: bool
  live_bases :: "nat list"
  base_threads :: "nat list"
  next_base :: nat
  main_joinable :: bool
  waiting :: nat
  application :: "nat server_instance"
  admin_server :: "nat server_instance option"
  tasks :: "task list"

definition ServerImpl :: "string \<Rightarrow> 16 word \<Rightarrow> server_impl" where
  "ServerImpl ip p =
     \<lparr>started = False, shutdown = False, live_bases = [], base_threads = [], next_base = 0,
      main_joinable = False, waiting = 0, application = ServerInstance ip p,
      admin_server = None, tasks = []\<rparr>"

text \<open>Registration: the exception thrown, if any, and the server.\<close>

definition doRegister ::
    "server_impl \<Rightarrow> resource \<Rightarrow> methods \<Rightarrow> (exn option \<times> server_impl) res" where
  "doRegister s r ms =
     bind_res (registerResource (application s) r ms)
       (\<lambda>(e, app). Inr (e, s\<lparr>application := app\<rparr>))"

definition server_register ::
    "server_impl \<Rightarrow> resource \<Rightarrow> (exn option \<times> server_impl) res" where
  "server_register s r = doRegister s r (bindMethods r)"

text \<open>One round of the loop that brings up the worker bases.\<close>

definition add_base :: "server_impl \<Rightarrow> server_impl" where
  "add_base s = s\<lparr>live_bases := live_bases s @ [next_base s],
                  base_threads := base_threads s @ [next_base s],
                  next_base := next_base s + 1\<rparr>"

definition kBases :: nat where "kBases = 4"

definition run_task :: "(listener_op \<Rightarrow> exn option) \<Rightarrow> server_impl \<Rightarrow> task \<Rightarrow> server_impl res" where
  "run_task net s t =
     (case admin_server s of
        None \<Rightarrow> Inl Undef
      | Some a \<Rightarrow>
          (case instance_start net a (live_bases s) of
             (Some e, a') \<Rightarrow> Inl (Throw e)
           | (None, a') \<Rightarrow> Inr (s\<lparr>admin_server := Some a'\<rparr>)))"

definition run_tasks :: "(listener_op \<Rightarrow> exn option) \<Rightarrow> server_impl \<Rightarrow> server_impl res" where
  "run_tasks net s = bind_res (fold_res (run_task net) s (tasks s)) (\<lambda>s'. Inr (s'\<lparr>tasks := []\<rparr>))"

definition start :: "(listener_op \<Rightarrow> exn option) \<Rightarrow> server_impl \<Rightarrow> (exn option \<times> server_impl) res" where
  "start net s =
     (if started s then Inr (Some (Logic_error ''Server has already been started''), s)
      else
        let s1 = (add_base ^^ kBases) s;
            (e, app) = instance_start net (application s1) (live_bases s1);
            s2 = s1\<lparr>application := app\<rparr>
        in if e \<noteq> None then Inr (e, s2)
           else bind_res (run_tasks net (s2\<lparr>started := True, main_joinable := True\<rparr>))
                  (\<lambda>s3. Inr (None, s3)))"

definition startAdminServer ::
    "string \<Rightarrow> server_impl \<Rightarrow> string \<Rightarrow> 16 word \<Rightarrow> (exn option \<times> server_impl) res" where
  "startAdminServer serialize s ip p =
     (if admin_server s \<noteq> None
      then Inr (Some (Logic_error ''Admin server has already been started''), s)
      else bind_res (AdminServer serialize ip p) (\<lambda>(e, a).
        if e \<noteq> None then Inr (e, s)
        else Inr (None, s\<lparr>admin_server := Some a, tasks := tasks s @ [StartAdmin]\<rparr>)))"

text \<open>The function \<open>stopAndWait\<close> runs on the listener's loop.\<close>

definition stop_instances :: "server_impl \<Rightarrow> server_impl" where
  "stop_instances s = s\<lparr>application := instance_stop (application s), admin_server := None\<rparr>"

definition join_main :: "server_impl \<Rightarrow> (exn option \<times> server_impl) res" where
  "join_main s =
     (if 0 < waiting s then Inl Undef
      else if \<not> main_joinable s then Inr (Some (System_error ''Invalid argument''), s)
      else Inr (None, s\<lparr>main_joinable := False\<rparr>))"

definition stopAndWait ::
    "(listener_op \<Rightarrow> exn option) \<Rightarrow> server_impl \<Rightarrow> (exn option \<times> server_impl) res" where
  "stopAndWait net s =
     (if \<not> started s then Inr (Some (Logic_error ''Server was not started''), s)
      else if shutdown s then Inr (None, s)
      else bind_res (run_tasks net s) (\<lambda>s1.
        let s2 = (stop_instances s1)\<lparr>live_bases := [], base_threads := []\<rparr> in
        bind_res (join_main s2) (\<lambda>(e, s3).
          Inr (if e \<noteq> None then (e, s3) else (None, s3\<lparr>shutdown := True\<rparr>)))))"

text \<open>
  \<open>wait\<close>: \<open>Returns\<close> with an exception or none, or goes to sleep in \<open>main_.join()\<close>. The thread
  sleeps until the loop has been stopped.
\<close>

datatype wait_result = Returns "exn option" | Sleeps

definition wait :: "server_impl \<Rightarrow> (wait_result \<times> server_impl) res" where
  "wait s =
     (if \<not> started s then Inr (Returns None, s)
      else if main_joinable s \<and> waiting s = 0 \<and> \<not> shutdown s
        then Inr (Sleeps, s\<lparr>waiting := 1\<rparr>)
      else bind_res (join_main s) (\<lambda>(e, s'). Inr (Returns e, s')))"

section \<open>Reachable states\<close>

text \<open>The calls of a program, in any order, interleaved with the functions queued on the loop.\<close>

inductive server_step :: "server_impl \<Rightarrow> server_impl \<Rightarrow> bool" where
  step_register: "server_register s r = Inr (e, s') \<Longrightarrow> server_step s s'"
| step_start: "start net s = Inr (e, s') \<Longrightarrow> server_step s s'"
| step_admin: "startAdminServer serialize s ip p = Inr (e, s') \<Longrightarrow> server_step s s'"
| step_stop: "stopAndWait net s = Inr (e, s') \<Longrightarrow> server_step s s'"
| step_wait: "wait s = Inr (w, s') \<Longrightarrow> server_step s s'"
| step_loop: "started s \<Longrightarrow> \<not> shutdown s \<Longrightarrow> tasks s = t # ts \<Longrightarrow> run_task net s t = Inr s' \<Longrightarrow>
    server_step s (s'\<lparr>tasks := ts\<rparr>)"

inductive reachable :: "server_impl \<Rightarrow> bool" where
  reachable_new: "reachable (ServerImpl ip p)"
| reachable_step: "reachable s \<Longrightarrow> server_step s s' \<Longrightarrow> reachable s'"

text \<open>Every worker an accepting instance may choose is alive, and there is one.\<close>

definition workers_alive :: "server_impl \<Rightarrow> nat server_instance \<Rightarrow> bool" where
  "workers_alive s i \<longleftrightarrow>
     (listener i = Some Accepting \<longrightarrow> bases i \<noteq> [] \<and> set (bases i) \<subseteq> set (live_bases s))"

definition phase_inv :: "server_impl \<Rightarrow> bool" where
  "phase_inv s \<longleftrightarrow>
     (if \<not> started s then
        \<not> shutdown s \<and> \<not> main_joinable s \<and> waiting s = 0 \<and> listener (application s) \<noteq> Some Accepting
      else if \<not> shutdown s then
        main_joinable s \<and> live_bases s \<noteq> [] \<and> listener (application s) = Some Accepting
      else \<not> main_joinable s \<and> waiting s = 0 \<and> live_bases s = [] \<and> listener (application s) = None)"

text \<open>The admin server, once created, waits for the loop to start it, or accepts connections.\<close>

definition admin_inv :: "server_impl \<Rightarrow> bool" where
  "admin_inv s \<longleftrightarrow>
     (case admin_server s of
        None \<Rightarrow> tasks s = []
      | Some a \<Rightarrow> workers_alive s a \<and>
          (tasks s = [] \<and> listener a = Some Accepting \<or> tasks s = [StartAdmin] \<and> listener a = None))"

definition matchers_inv :: "server_impl \<Rightarrow> bool" where
  "matchers_inv s \<longleftrightarrow>
     wf_matcher (matcher (application s)) \<and> (\<forall>a. admin_server s = Some a \<longrightarrow> wf_matcher (matcher a))"

definition server_inv :: "server_impl \<Rightarrow> bool" where
  "server_inv s \<longleftrightarrow>
     phase_inv s \<and> admin_inv s \<and> workers_alive s (application s) \<and> matchers_inv s \<and>
     base_threads s = live_bases s \<and> distinct (live_bases s) \<and> (\<forall>b\<in>set (live_bases s). b < next_base s)"

subsection \<open>Instances\<close>

text \<open>The first operation on the listener that throws when an instance is started.\<close>

definition listen_fault :: "(listener_op \<Rightarrow> exn option) \<Rightarrow> string \<Rightarrow> 16 word \<Rightarrow> exn option" where
  "listen_fault net ip p =
     (case net (BindOp ip p) of
        Some e \<Rightarrow> Some e
      | None \<Rightarrow> (case net (ListenOp 128) of Some e \<Rightarrow> Some e | None \<Rightarrow> net StartAcceptingOp))"

lemma instance_start_fresh:
  assumes "listener i = None"
  shows "listen_fault net (ipaddr i) (port i) = None \<Longrightarrow>
      instance_start net i bs = (None, i\<lparr>bases := bs, listener := Some Accepting\<rparr>)"
    and "listen_fault net (ipaddr i) (port i) = Some e \<Longrightarrow>
      \<exists>l. instance_start net i bs = (Some e, i\<lparr>bases := bs, listener := Some l\<rparr>) \<and> l \<noteq> Accepting"
  using assms by (auto simp: instance_start_def listen_fault_def Let_def split: option.splits)

lemma instance_start_taken:
  "listener i \<noteq> None \<Longrightarrow>
     instance_start net i bs = (Some (Logic_error ''Server has already been started''), i)"
  by (simp add: instance_start_def)

lemma instance_start_result:
  "instance_start net i bs = (e, i') \<Longrightarrow> listener i \<noteq> Some Accepting \<Longrightarrow>
     (e = None \<longleftrightarrow> listener i' = Some Accepting) \<and> (e = None \<longrightarrow> bases i' = bs) \<and> listener i' \<noteq> None \<and>
     matcher i' = matcher i \<and> ipaddr i' = ipaddr i \<and> port i' = port i"
  by (auto simp: instance_start_def Let_def split: option.splits if_splits)

lemma workers_alive_mono:
  "workers_alive s i \<Longrightarrow> set (live_bases s) \<subseteq> set (live_bases s') \<Longrightarrow> workers_alive s' i"
  by (auto simp: workers_alive_def)

lemma registerResource_frame:
  "registerResource i r ms = Inr (e, i') \<Longrightarrow>
     listener i' = listener i \<and> bases i' = bases i \<and> ipaddr i' = ipaddr i \<and> port i' = port i"
  by (auto simp: registerResource_def bind_res_Inr_iff)

lemma registerResource_free:
  assumes "wf_matcher (matcher i)" "routes (matcher i) (template (path r)) = None"
  shows "\<exists>m. registerResource i r ms = Inr (None, i\<lparr>matcher := m\<rparr>) \<and> wf_matcher m \<and>
    routes m = (routes (matcher i))(template (path r) \<mapsto> (r, Some ms))"
proof -
  from addResource_free [OF assms, of ms] obtain m where
    "addResource (matcher i) r ms = Inr (None, m)" "wf_matcher m"
    "routes m = (routes (matcher i))(template (path r) \<mapsto> (r, Some ms))" by blast
  then show ?thesis by (intro exI [of _ m]) (simp add: registerResource_def)
qed

lemma registerResource_taken:
  assumes "wf_matcher (matcher i)" "routes (matcher i) (template (path r)) \<noteq> None"
  shows "registerResource i r ms = Inr (Some (Runtime_error ''Resource registration collision''), i)"
  using addResource_taken [OF assms, of ms] by (simp add: registerResource_def)

lemma registerResource_wf:
  assumes "registerResource i r ms = Inr (e, i')" "wf_matcher (matcher i)"
  shows "wf_matcher (matcher i')"
proof (cases "routes (matcher i) (template (path r)) = None")
  case True
  from registerResource_free [OF assms(2) this, of ms] obtain m where
    "registerResource i r ms = Inr (None, i\<lparr>matcher := m\<rparr>)" "wf_matcher m" by blast
  with assms(1) show ?thesis by auto
next
  case False
  from registerResource_taken [OF assms(2) this, of ms] assms show ?thesis by auto
qed

text \<open>What registration keeps of a fresh instance.\<close>

definition unstarted :: "string \<Rightarrow> 16 word \<Rightarrow> 'b server_instance \<Rightarrow> bool" where
  "unstarted ip p i \<longleftrightarrow> listener i = None \<and> ipaddr i = ip \<and> port i = p \<and> wf_matcher (matcher i)"

lemma unstarted_new: "unstarted ip p (ServerInstance ip p)"
  by (simp add: unstarted_def ServerInstance_def wf_ResourceMatcher)

lemma unstarted_register:
  "registerResource i r ms = Inr (e, i') \<Longrightarrow> unstarted ip p i \<Longrightarrow> unstarted ip p i'"
  by (frule registerResource_frame, drule registerResource_wf) (simp_all add: unstarted_def)

lemma AdminServer_fresh:
  assumes "AdminServer serialize ip p = Inr (e, a)"
  shows "unstarted ip p a"
proof -
  from assms obtain d i where
    1: "registerResource (ServerInstance ip p) (PingResource 1) (bindMethods (PingResource 1)) = Inr (d, i)"
    and 2: "if d \<noteq> None then Inr (e, a) = Inr (d, i) else registerResource i (MetricsResource serialize 2)
      (bindMethods (MetricsResource serialize 2)) = Inr (e, a)"
    by (auto simp: AdminServer_def Let_def bind_res_Inr_iff split: if_splits)
  from unstarted_register [OF 1 unstarted_new] have "unstarted ip p i" .
  with 2 unstarted_register show ?thesis by (auto split: if_splits)
qed

subsection \<open>Worker bases\<close>

lemma add_base_frame:
  "application (add_base s) = application s" "admin_server (add_base s) = admin_server s"
  "tasks (add_base s) = tasks s" "started (add_base s) = started s"
  "shutdown (add_base s) = shutdown s" "main_joinable (add_base s) = main_joinable s"
  "waiting (add_base s) = waiting s"
  by (simp_all add: add_base_def)

lemma add_bases_frame:
  "application ((add_base ^^ k) s) = application s" "admin_server ((add_base ^^ k) s) = admin_server s"
  "tasks ((add_base ^^ k) s) = tasks s" "started ((add_base ^^ k) s) = started s"
  "shutdown ((add_base ^^ k) s) = shutdown s" "main_joinable ((add_base ^^ k) s) = main_joinable s"
  "waiting ((add_base ^^ k) s) = waiting s"
  by (induction k) (simp_all add: add_base_frame)

lemma add_bases_live:
  "live_bases ((add_base ^^ k) s) = live_bases s @ [next_base s..<next_base s + k]"
  "base_threads ((add_base ^^ k) s) = base_threads s @ [next_base s..<next_base s + k]"
  "next_base ((add_base ^^ k) s) = next_base s + k"
  by (induction k) (simp_all add: add_base_def)

subsection \<open>Queued functions\<close>

text \<open>The exception, if any, with which starting a waiting admin server ends the program.\<close>

definition pending_fault :: "(listener_op \<Rightarrow> exn option) \<Rightarrow> server_impl \<Rightarrow> exn option" where
  "pending_fault net s =
     (case admin_server s of
        None \<Rightarrow> None
      | Some a \<Rightarrow> if tasks s = [] then None else listen_fault net (ipaddr a) (port a))"

definition admin_started :: "server_impl \<Rightarrow> nat server_instance option" where
  "admin_started s =
     map_option (\<lambda>a. if tasks s = [] then a else a\<lparr>bases := live_bases s, listener := Some Accepting\<rparr>)
       (admin_server s)"

lemma pending_frame:
  "pending_fault net (s\<lparr>application := app\<rparr>) = pending_fault net s"
  "pending_fault net (s\<lparr>started := b\<rparr>) = pending_fault net s"
  "pending_fault net (s\<lparr>main_joinable := b\<rparr>) = pending_fault net s"
  "admin_started (s\<lparr>application := app\<rparr>) = admin_started s"
  "admin_started (s\<lparr>started := b\<rparr>) = admin_started s"
  "admin_started (s\<lparr>main_joinable := b\<rparr>) = admin_started s"
  by (cases "admin_server s"; simp add: pending_fault_def admin_started_def)+

lemma run_task_cases:
  assumes "admin_inv s" "tasks s = t # ts"
  shows "run_task net s t =
    (case pending_fault net s of
       Some e \<Rightarrow> Inl (Throw e)
     | None \<Rightarrow> Inr (s\<lparr>admin_server := admin_started s\<rparr>))" and "ts = []"
proof -
  from assms obtain a where a: "admin_server s = Some a" "listener a = None" "ts = []"
    by (auto simp: admin_inv_def split: option.splits)
  show "ts = []" by (rule a(3))
  show "run_task net s t =
    (case pending_fault net s of
       Some e \<Rightarrow> Inl (Throw e) | None \<Rightarrow> Inr (s\<lparr>admin_server := admin_started s\<rparr>))"
    using instance_start_fresh(1) [OF a(2), of net "live_bases s"]
      instance_start_fresh(2) [OF a(2), of net _ "live_bases s"] a assms(2)
    by (fastforce simp: run_task_def pending_fault_def admin_started_def split: option.split)
qed

lemma run_tasks_cases:
  assumes "admin_inv s"
  shows "run_tasks net s =
    (case pending_fault net s of
       Some e \<Rightarrow> Inl (Throw e)
     | None \<Rightarrow> Inr (s\<lparr>admin_server := admin_started s, tasks := []\<rparr>))"
proof (cases "tasks s")
  case Nil
  then show ?thesis
    by (simp add: run_tasks_def pending_fault_def admin_started_def option.map_ident split: option.split)
next
  case (Cons t ts)
  from run_task_cases(1) [OF assms Cons, of net] run_task_cases(2) [OF assms Cons] Cons show ?thesis
    by (simp add: run_tasks_def split: option.split)
qed

lemma admin_started_alive:
  assumes "admin_inv s" "live_bases s \<noteq> []" "admin_started s = Some a"
  shows "workers_alive s a \<and> listener a = Some Accepting"
proof -
  from assms(3) obtain a0 where a0: "admin_server s = Some a0"
    "a = (if tasks s = [] then a0 else a0\<lparr>bases := live_bases s, listener := Some Accepting\<rparr>)"
    unfolding admin_started_def by blast
  show ?thesis
  proof (cases "tasks s = []")
    case True
    with a0 assms(1) show ?thesis by (simp add: admin_inv_def)
  next
    case False
    with a0 assms(2) show ?thesis by (simp add: workers_alive_def)
  qed
qed

lemma admin_started_wf:
  "matchers_inv s \<Longrightarrow> admin_started s = Some a \<Longrightarrow> wf_matcher (matcher a)"
  by (auto simp: admin_started_def matchers_inv_def)

section \<open>The invariant\<close>

lemma server_inv_new: "server_inv (ServerImpl ip p)"
  by (simp add: server_inv_def phase_inv_def admin_inv_def workers_alive_def matchers_inv_def
      ServerImpl_def ServerInstance_def wf_ResourceMatcher)

lemma server_inv_register:
  assumes inv: "server_inv s" and r: "server_register s r = Inr (e, s')"
  shows "server_inv s'"
proof -
  from r obtain app where app: "registerResource (application s) r (bindMethods r) = Inr (e, app)"
    "s' = s\<lparr>application := app\<rparr>" by (auto simp: server_register_def doRegister_def bind_res_Inr_iff)
  with inv registerResource_frame [OF app(1)] registerResource_wf [OF app(1)] show ?thesis
    by (simp add: server_inv_def phase_inv_def admin_inv_def workers_alive_def matchers_inv_def
        cong: option.case_cong split: if_splits)
qed

lemma add_bases_inv:
  assumes "server_inv s"
  shows "admin_inv ((add_base ^^ k) s)" "matchers_inv ((add_base ^^ k) s)"
    "pending_fault net ((add_base ^^ k) s) = pending_fault net s"
    "base_threads ((add_base ^^ k) s) = live_bases ((add_base ^^ k) s)"
    "distinct (live_bases ((add_base ^^ k) s))"
    "\<forall>b\<in>set (live_bases ((add_base ^^ k) s)). b < next_base ((add_base ^^ k) s)"
  using assms
  by (fastforce simp: server_inv_def admin_inv_def matchers_inv_def pending_fault_def workers_alive_def
      add_bases_frame add_bases_live split: option.splits)+

text \<open>The state after a successful start.\<close>

definition after_start :: "server_impl \<Rightarrow> server_impl" where
  "after_start s =
     (let s1 = (add_base ^^ kBases) s in
      s1\<lparr>started := True, main_joinable := True,
         application := (application s)\<lparr>bases := live_bases s1, listener := Some Accepting\<rparr>,
         admin_server := admin_started s1, tasks := []\<rparr>)"

lemma start_failed_before:
  assumes "\<not> started s" "listener (application s) \<noteq> None"
  shows "start net s = Inr (Some (Logic_error ''Server has already been started''), (add_base ^^ kBases) s)"
  using assms by (simp add: start_def add_bases_frame instance_start_taken Let_def)

lemma start_listen_fails:
  assumes "\<not> started s" "listener (application s) = None"
    and "listen_fault net (ipaddr (application s)) (port (application s)) = Some e"
  shows "\<exists>l. start net s = Inr (Some e, ((add_base ^^ kBases) s)\<lparr>application :=
      (application s)\<lparr>bases := live_bases ((add_base ^^ kBases) s), listener := Some l\<rparr>\<rparr>) \<and> l \<noteq> Accepting"
  using instance_start_fresh(2) [OF assms(2,3), of "live_bases ((add_base ^^ kBases) s)"] assms(1)
  by (auto simp: start_def add_bases_frame Let_def)

lemma start_succeeds:
  assumes inv: "server_inv s" and "\<not> started s" "listener (application s) = None"
    and "listen_fault net (ipaddr (application s)) (port (application s)) = None"
  shows "start net s =
    (case pending_fault net s of Some e \<Rightarrow> Inl (Throw e) | None \<Rightarrow> Inr (None, after_start s))"
proof -
  let ?s1 = "(add_base ^^ kBases) s"
  let ?app = "(application s)\<lparr>bases := live_bases ?s1, listener := Some Accepting\<rparr>"
  let ?s2 = "?s1\<lparr>application := ?app, started := True, main_joinable := True\<rparr>"
  have i: "instance_start net (application s) (live_bases ?s1) = (None, ?app)"
    by (rule instance_start_fresh(1) [OF assms(3,4)])
  have "admin_inv ?s2"
    using add_bases_inv(1) [OF inv, of kBases] by (simp add: admin_inv_def workers_alive_def cong: option.case_cong)
  from run_tasks_cases [OF this, of net] have
    "run_tasks net ?s2 = (case pending_fault net ?s1 of
       Some e \<Rightarrow> Inl (Throw e) | None \<Rightarrow> Inr (?s2\<lparr>admin_server := admin_started ?s1, tasks := []\<rparr>))"
    by (simp only: pending_frame)
  then show ?thesis
    using i assms(2) unfolding add_bases_inv(3) [OF inv]
    by (cases "pending_fault net s") (simp_all add: start_def add_bases_frame after_start_def Let_def)
qed

lemma after_start_inv:
  assumes inv: "server_inv s" and "\<not> started s"
  shows "server_inv (after_start s)"
proof -
  let ?s1 = "(add_base ^^ kBases) s"
  note s1 = add_bases_inv [OF inv, where k = kBases]
  have live: "live_bases ?s1 \<noteq> []" by (simp add: add_bases_live kBases_def)
  have down: "\<not> shutdown s"
    using inv assms(2) by (simp add: server_inv_def phase_inv_def)
  have alive: "workers_alive ?s1 a \<and> listener a = Some Accepting" if "admin_started ?s1 = Some a" for a
    by (rule admin_started_alive [OF s1(1) live that])
  have none: "admin_started ?s1 = None \<longleftrightarrow> admin_server s = None"
    by (simp add: admin_started_def add_bases_frame)
  have wf: "matchers_inv (after_start s)"
    using admin_started_wf [OF s1(2)] inv by (simp add: matchers_inv_def after_start_def server_inv_def Let_def)
  have "admin_inv (after_start s)"
    using alive by (cases "admin_started ?s1") (simp_all add: admin_inv_def after_start_def workers_alive_def Let_def)
  moreover have "phase_inv (after_start s)"
    using live down by (simp add: phase_inv_def after_start_def add_bases_frame Let_def)
  ultimately show ?thesis
    using wf live s1(4-6) by (simp add: server_inv_def after_start_def workers_alive_def Let_def)
qed

lemma failed_start_inv:
  assumes inv: "server_inv s" and "\<not> started s" and "l \<noteq> Accepting"
  shows "server_inv (((add_base ^^ kBases) s)\<lparr>application :=
      (application s)\<lparr>bases := bs, listener := Some l\<rparr>\<rparr>)"
  using add_bases_inv [OF inv, where k = kBases] assms
  by (simp add: server_inv_def phase_inv_def admin_inv_def matchers_inv_def workers_alive_def add_bases_frame
      cong: option.case_cong)

lemma server_inv_start:
  assumes inv: "server_inv s" and st: "start net s = Inr (e, s')"
  shows "server_inv s'"
proof (cases "started s")
  case True
  with inv st show ?thesis by (auto simp: start_def)
next
  case False
  show ?thesis
  proof (cases "listener (application s)")
    case None
    show ?thesis
    proof (cases "listen_fault net (ipaddr (application s)) (port (application s))")
      case (Some e)
      with start_listen_fails [OF False None] failed_start_inv [OF inv False] st show ?thesis by fastforce
    next
      case ok: None
      from start_succeeds [OF inv False None ok] st have "s' = after_start s"
        by (auto split: option.splits)
      with after_start_inv [OF inv False] show ?thesis by simp
    qed
  next
    case (Some l)
    have "(application s)\<lparr>bases := bases (application s), listener := Some l\<rparr> = application s"
      using Some by simp
    moreover have "l \<noteq> Accepting" using inv False Some by (auto simp: server_inv_def phase_inv_def)
    ultimately have "server_inv (((add_base ^^ kBases) s)\<lparr>application := application s\<rparr>)"
      using failed_start_inv [OF inv False, of l "bases (application s)"] by simp
    moreover have "s' = (add_base ^^ kBases) s" using start_failed_before [OF False, of net] Some st by simp
    moreover have "((add_base ^^ kBases) s)\<lparr>application := application s\<rparr> = (add_base ^^ kBases) s"
      using server_impl.surjective [of "(add_base ^^ kBases) s"] add_bases_frame(1) [of kBases s] by simp
    ultimately show ?thesis by simp
  qed
qed

lemma startAdminServer_created:
  assumes "startAdminServer serialize s ip p = Inr (e, s')" "s' \<noteq> s"
  shows "\<exists>a. AdminServer serialize ip p = Inr (None, a) \<and> admin_server s = None \<and> e = None \<and>
    s' = s\<lparr>admin_server := Some a, tasks := tasks s @ [StartAdmin]\<rparr>"
  using assms by (auto simp: startAdminServer_def bind_res_Inr_iff split: if_splits)

lemma server_inv_admin:
  assumes inv: "server_inv s" and st: "startAdminServer serialize s ip p = Inr (e, s')"
  shows "server_inv s'"
proof (cases "s' = s")
  case False
  from startAdminServer_created [OF st False] obtain a where a: "AdminServer serialize ip p = Inr (None, a)"
    "admin_server s = None" "s' = s\<lparr>admin_server := Some a, tasks := tasks s @ [StartAdmin]\<rparr>" by blast
  from AdminServer_fresh [OF a(1)] inv a(2,3) show ?thesis
    by (simp add: unstarted_def server_inv_def phase_inv_def admin_inv_def matchers_inv_def workers_alive_def split: if_splits)
qed (use inv in simp)

text \<open>The state after a running server was stopped.\<close>

definition after_stop :: "server_impl \<Rightarrow> server_impl" where
  "after_stop s = s\<lparr>shutdown := True, live_bases := [], base_threads := [], main_joinable := False,
     application := instance_stop (application s), admin_server := None, tasks := []\<rparr>"

lemma stopAndWait_running:
  assumes inv: "server_inv s" and run: "started s" "\<not> shutdown s"
  shows "stopAndWait net s =
    (case pending_fault net s of
       Some e \<Rightarrow> Inl (Throw e)
     | None \<Rightarrow> if 0 < waiting s then Inl Undef else Inr (None, after_stop s))"
proof -
  have "admin_inv s" "main_joinable s"
    using inv run by (auto simp: server_inv_def phase_inv_def)
  with run run_tasks_cases [OF this(1), of net] show ?thesis
    by (simp add: stopAndWait_def stop_instances_def join_main_def after_stop_def Let_def split: option.split)
qed

lemma after_stop_inv:
  assumes "server_inv s" "started s" "waiting s = 0"
  shows "server_inv (after_stop s)"
  using assms by (simp add: server_inv_def phase_inv_def admin_inv_def matchers_inv_def workers_alive_def
      after_stop_def) (simp add: instance_stop_def)

lemma server_inv_stop:
  assumes inv: "server_inv s" and st: "stopAndWait net s = Inr (e, s')"
  shows "server_inv s'"
proof (cases "started s \<and> \<not> shutdown s")
  case True
  with stopAndWait_running [OF inv] st have "s' = after_stop s" "waiting s = 0"
    by (auto split: if_splits option.splits)
  with after_stop_inv [OF inv] True show ?thesis by simp
next
  case False
  with st inv show ?thesis by (auto simp: stopAndWait_def split: if_splits)
qed

lemma wait_cases:
  assumes "server_inv s"
  shows "wait s =
    (if \<not> started s then Inr (Returns None, s)
     else if shutdown s then Inr (Returns (Some (System_error ''Invalid argument'')), s)
     else if waiting s = 0 then Inr (Sleeps, s\<lparr>waiting := 1\<rparr>) else Inl Undef)"
proof -
  have "phase_inv s" using assms by (simp add: server_inv_def)
  then show ?thesis by (simp add: wait_def join_main_def phase_inv_def split: if_splits)
qed

lemma server_inv_waiting:
  assumes "server_inv s" "started s" "\<not> shutdown s"
  shows "server_inv (s\<lparr>waiting := k\<rparr>)"
  using assms by (simp add: server_inv_def phase_inv_def admin_inv_def matchers_inv_def workers_alive_def
      cong: option.case_cong)

lemma server_inv_wait: "server_inv s \<Longrightarrow> wait s = Inr (w, s') \<Longrightarrow> server_inv s'"
  using server_inv_waiting [of s 1] by (auto simp: wait_cases split: if_splits)

lemma server_inv_loop:
  assumes inv: "server_inv s" and s: "started s" "\<not> shutdown s" "tasks s = t # ts"
    and r: "run_task net s t = Inr s'"
  shows "server_inv (s'\<lparr>tasks := ts\<rparr>)"
proof -
  have adm: "admin_inv s" "live_bases s \<noteq> []"
    using inv s(1,2) by (auto simp: server_inv_def phase_inv_def)
  from run_task_cases(1) [OF adm(1) s(3), of net] run_task_cases(2) [OF adm(1) s(3)] r have
    s': "s' = s\<lparr>admin_server := admin_started s\<rparr>" "ts = []" by (auto split: option.splits)
  have "admin_inv (s\<lparr>admin_server := admin_started s, tasks := []\<rparr>)"
    using admin_started_alive [OF adm]
    by (cases "admin_started s") (simp_all add: admin_inv_def workers_alive_def)
  moreover have "matchers_inv (s\<lparr>admin_server := admin_started s, tasks := []\<rparr>)"
  proof -
    have m: "matchers_inv s" using inv by (simp add: server_inv_def)
    then show ?thesis using admin_started_wf [OF m] unfolding matchers_inv_def by simp
  qed
  ultimately show ?thesis
    using inv s(1,2) unfolding s' by (simp add: server_inv_def phase_inv_def workers_alive_def)
qed

lemma server_inv_step: "server_step s s' \<Longrightarrow> server_inv s \<Longrightarrow> server_inv s'"
  by (induction rule: server_step.induct)
     (auto intro: server_inv_register server_inv_start server_inv_admin server_inv_stop
       server_inv_wait server_inv_loop)

lemma server_inv_reachable: "reachable s \<Longrightarrow> server_inv s"
  by (induction rule: reachable.induct) (auto intro: server_inv_new server_inv_step)

text \<open>After the end: a server that was shut down stays so, whatever is called.\<close>

inductive_cases server_stepE: "server_step s s'"

lemma shutdown_step:
  assumes inv: "server_inv s" and down: "shutdown s" and step: "server_step s s'"
  shows "shutdown s'"
proof -
  have st: "started s" "\<not> main_joinable s" "waiting s = 0"
    using inv down by (auto simp: server_inv_def phase_inv_def split: if_splits)
  from step show ?thesis
    by (rule server_stepE)
       (use st down in \<open>auto simp: server_register_def doRegister_def start_def startAdminServer_def
          stopAndWait_def wait_def join_main_def bind_res_Inr_iff split: if_splits\<close>)
qed

lemma shutdown_steps:
  "server_step\<^sup>*\<^sup>* s s' \<Longrightarrow> reachable s \<Longrightarrow> shutdown s \<Longrightarrow> reachable s' \<and> shutdown s'"
  by (induction rule: rtranclp_induct)
     (auto intro: reachable_step shutdown_step server_inv_reachable)

section \<open>What the admin server serves\<close>

lemma admin_templates:
  "template (path (PingResource 1)) = [Lit '''', Lit ''ping'']"
  "template (path (MetricsResource serialize 2)) = [Lit '''', Lit ''metrics'']"
proof -
  have "template ''/ping'' = [Lit '''', Lit ''ping'']" "template ''/metrics'' = [Lit '''', Lit ''metrics'']"
    by code_simp+
  then show "template (path (PingResource 1)) = [Lit '''', Lit ''ping'']"
    "template (path (MetricsResource serialize 2)) = [Lit '''', Lit ''metrics'']"
    by (simp_all add: PingResource_def MetricsResource_def Resource_def)
qed

lemma AdminServer_routes:
  "\<exists>a. AdminServer serialize ip p = Inr (None, a) \<and> wf_matcher (matcher a) \<and>
     routes (matcher a) =
       [[Lit '''', Lit ''ping''] \<mapsto> (PingResource 1, Some (bindMethods (PingResource 1))),
        [Lit '''', Lit ''metrics''] \<mapsto>
          (MetricsResource serialize 2, Some (bindMethods (MetricsResource serialize 2)))]"
proof -
  let ?i = "ServerInstance ip p :: 'a server_instance" and ?ping = "PingResource 1"
    and ?metrics = "MetricsResource serialize 2"
  have i: "matcher ?i = ResourceMatcher" by (simp add: ServerInstance_def)
  have "routes ResourceMatcher (template (path ?ping)) = None" by (simp add: routes_ResourceMatcher)
  from addResource_free [OF wf_ResourceMatcher this, of "bindMethods ?ping"] obtain m1 where
    1: "addResource ResourceMatcher ?ping (bindMethods ?ping) = Inr (None, m1)" "wf_matcher m1"
    "routes m1 = [[Lit '''', Lit ''ping''] \<mapsto> (?ping, Some (bindMethods ?ping))]"
    unfolding admin_templates routes_ResourceMatcher by blast
  have "routes m1 (template (path ?metrics)) = None" unfolding 1(3) admin_templates by simp
  from addResource_free [OF 1(2) this, of "bindMethods ?metrics"] obtain m2 where
    2: "addResource m1 ?metrics (bindMethods ?metrics) = Inr (None, m2)" "wf_matcher m2"
    "routes m2 = (routes m1)([Lit '''', Lit ''metrics''] \<mapsto> (?metrics, Some (bindMethods ?metrics)))"
    unfolding admin_templates by blast
  have "AdminServer serialize ip p = Inr (None, ?i\<lparr>matcher := m2\<rparr>)"
    using 1(1) 2(1) by (simp add: AdminServer_def registerResource_def i Let_def)
  then show ?thesis using 2(2,3) 1(3) by (intro exI [of _ "?i\<lparr>matcher := m2\<rparr>"]) simp
qed

section \<open>Properties\<close>

text \<open>C25: In every reachable state of a server, a connection accepted by its application or its admin
  instance is given to a worker base that exists and was not deleted, whatever the counter is.\<close>

theorem accepted_to_live_worker:
  assumes "reachable s" and "i = application s \<or> admin_server s = Some i"
    and "listener i = Some Accepting"
  shows "\<exists>b\<in>set (live_bases s). chooseBase iter i = Inr (iter + 1, b)"
proof -
  have "workers_alive s i"
    using server_inv_reachable [OF assms(1)] assms(2)
    by (auto simp: server_inv_def admin_inv_def split: option.splits)
  with assms(3) have "bases i \<noteq> []" "set (bases i) \<subseteq> set (live_bases s)"
    by (simp_all add: workers_alive_def)
  with chooseBase_defined [of i iter] show ?thesis by blast
qed

definition started_server :: server_impl where
  "started_server = after_start (ServerImpl ''127.0.0.1'' 80)"

lemma started_server_eq: "start (\<lambda>_. None) (ServerImpl ''127.0.0.1'' 80) = Inr (None, started_server)"
proof -
  let ?s = "ServerImpl ''127.0.0.1'' 80"
  have "listener (application ?s) = None" "\<not> started ?s" "admin_server ?s = None"
    by (simp_all add: ServerImpl_def ServerInstance_def)
  with start_succeeds [OF server_inv_new, of "''127.0.0.1''" 80 "\<lambda>_. None"] show ?thesis
    by (simp add: listen_fault_def pending_fault_def started_server_def)
qed

lemma started_server_state:
  "reachable started_server" "started started_server" "\<not> shutdown started_server"
  "waiting started_server = 0" "live_bases started_server = [0, 1, 2, 3]"
  "listener (application started_server) = Some Accepting" "admin_server started_server = None"
proof -
  let ?s = "ServerImpl ''127.0.0.1'' 80"
  show "reachable started_server"
    by (rule reachable_step [OF reachable_new step_start [OF started_server_eq]])
  have new: "live_bases ?s = []" "next_base ?s = 0" "\<not> shutdown ?s" "waiting ?s = 0" "admin_server ?s = None"
    by (simp_all add: ServerImpl_def)
  show "started started_server" "\<not> shutdown started_server" "waiting started_server = 0"
    "listener (application started_server) = Some Accepting" "admin_server started_server = None"
    using new by (simp_all add: started_server_def after_start_def add_bases_frame admin_started_def Let_def)
  show "live_bases started_server = [0, 1, 2, 3]"
    using new by (simp add: started_server_def after_start_def add_bases_live kBases_def upt_rec Let_def)
qed

lemma started_server_quiet: "pending_fault net started_server = None"
  by (simp add: pending_fault_def started_server_state(7))

theorem accepted_to_live_worker_witness:
  "\<exists>b\<in>{0, 1, 2, 3}. chooseBase 2147483647 (application started_server) = Inr (2147483648, b)"
  using accepted_to_live_worker [OF started_server_state(1), of "application started_server" 2147483647]
    started_server_state(5,6) by simp

text \<open>Stopping a running server stops both instances and releases every worker; stopping again has no
  effect, and waiting afterwards throws. But when another thread is in \<open>wait\<close>, as the documented way
  to wait for the end demands, \<open>stopAndWait\<close> joins the main thread a second time, which is undefined.\<close>

theorem stop_running_server:
  assumes "reachable s" and "started s" and "\<not> shutdown s" and "pending_fault net s = None"
  shows "if waiting s = 0 then
      \<exists>s'. stopAndWait net s = Inr (None, s') \<and> listener (application s') = None \<and>
        admin_server s' = None \<and> live_bases s' = [] \<and> base_threads s' = [] \<and>
        stopAndWait net' s' = Inr (None, s') \<and>
        wait s' = Inr (Returns (Some (System_error ''Invalid argument'')), s')
    else stopAndWait net s = Inl Undef"
  using stopAndWait_running [OF server_inv_reachable [OF assms(1)] assms(2,3), of net] assms(2,4)
  by (simp add: stopAndWait_def wait_def join_main_def after_stop_def)

theorem stop_running_server_witness:
  "(\<exists>s. stopAndWait (\<lambda>_. None) started_server = Inr (None, s) \<and> live_bases s = []) \<and>
   (\<exists>s. wait started_server = Inr (Sleeps, s) \<and> stopAndWait (\<lambda>_. None) s = Inl Undef)"
proof
  show "\<exists>s. stopAndWait (\<lambda>_. None) started_server = Inr (None, s) \<and> live_bases s = []"
    using stop_running_server [OF started_server_state(1-3) started_server_quiet, of "\<lambda>_. None" "\<lambda>_. None"]
      started_server_state(4) by auto
  let ?s = "started_server\<lparr>waiting := 1\<rparr>"
  have "main_joinable started_server"
    using server_inv_reachable [OF started_server_state(1)] started_server_state(2,3)
    by (simp add: server_inv_def phase_inv_def)
  then have w: "wait started_server = Inr (Sleeps, ?s)"
    using started_server_state by (simp add: wait_def)
  then have "reachable ?s" using started_server_state(1) by (metis reachable_step step_wait)
  from stop_running_server [OF this, of "\<lambda>_. None" "\<lambda>_. None"] w started_server_state(2,3,7)
  show "\<exists>s. wait started_server = Inr (Sleeps, s) \<and> stopAndWait (\<lambda>_. None) s = Inl Undef"
    by (simp add: pending_fault_def)
qed

text \<open>When starting fails in the network, the server stays stopped with four more worker threads, and
  no later attempt succeeds: each throws that the server has already been started.\<close>

theorem failed_start_is_final:
  assumes "reachable s" and "\<not> started s" and "start net s = Inr (Some e, s')"
  shows "\<not> started s' \<and> length (live_bases s') = length (live_bases s) + 4 \<and>
    (\<exists>s''. start net' s' = Inr (Some (Logic_error ''Server has already been started''), s'') \<and> \<not> started s'')"
proof -
  note inv = server_inv_reachable [OF assms(1)]
  let ?s1 = "(add_base ^^ kBases) s"
  have s': "\<not> started s' \<and> listener (application s') \<noteq> None \<and> live_bases s' = live_bases ?s1"
  proof (cases "listener (application s)")
    case None
    show ?thesis
    proof (cases "listen_fault net (ipaddr (application s)) (port (application s))")
      case (Some d)
      from start_listen_fails [OF assms(2) None Some] assms(2,3) show ?thesis
        by (auto simp: add_bases_frame)
    next
      case ok: None
      from start_succeeds [OF inv assms(2) None ok] assms(3) show ?thesis by (auto split: option.splits)
    qed
  next
    case (Some l)
    with start_failed_before [OF assms(2), of net] assms(2,3) show ?thesis by (auto simp: add_bases_frame)
  qed
  then have "start net' s' = Inr (Some (Logic_error ''Server has already been started''), (add_base ^^ kBases) s')"
    by (intro start_failed_before) simp_all
  with s' show ?thesis by (simp add: add_bases_frame add_bases_live kBases_def)
qed

theorem failed_start_is_final_witness:
  "\<exists>s. start (\<lambda>x. if x = ListenOp 128 then Some (System_error ''in use'') else None)
       (ServerImpl ''127.0.0.1'' 80) = Inr (Some (System_error ''in use''), s) \<and>
     (\<exists>s'. start (\<lambda>_. None) s = Inr (Some (Logic_error ''Server has already been started''), s'))"
proof -
  let ?net = "\<lambda>x. if x = ListenOp 128 then Some (System_error ''in use'') else None"
  have "\<not> started (ServerImpl ''127.0.0.1'' 80)" by (simp add: ServerImpl_def)
  moreover have "\<exists>s. start ?net (ServerImpl ''127.0.0.1'' 80) = Inr (Some (System_error ''in use''), s)"
    by (simp add: start_def add_bases_frame instance_start_def ServerImpl_def ServerInstance_def Let_def)
  ultimately show ?thesis using failed_start_is_final [OF reachable_new] by blast
qed

text \<open>C40: A new admin server registers its two resources without a collision, and answers a GET request for
  \<open>/ping\<close> with \<open>pong\<close> and one for \<open>/metrics\<close> with the JSON text of the metrics.\<close>

theorem admin_server_serves:
  assumes "matcher_set (set_first pf)" and "build (mm_ins pf) (url_parse pf) b 1 = Inr req"
  shows "\<exists>a :: 'b server_instance. AdminServer serialize ip p = Inr (None, a) \<and>
    (rpath req = ''/ping'' \<longrightarrow>
       get_response pf (matcher a) b 1 = Inr (Response OK TEXT_PLAIN (''pong'' @ [CHR 0x0A]))) \<and>
    (rpath req = ''/metrics'' \<longrightarrow>
       get_response pf (matcher a) b 1 = Inr (Response OK APPLICATION_JSON serialize))"
proof -
  let ?ping = "PingResource 1" and ?metrics = "MetricsResource serialize 2"
  obtain a :: "'b server_instance" where a: "AdminServer serialize ip p = Inr (None, a)" "wf_matcher (matcher a)"
    "routes (matcher a) = [[Lit '''', Lit ''ping''] \<mapsto> (?ping, Some (bindMethods ?ping)),
        [Lit '''', Lit ''metrics''] \<mapsto> (?metrics, Some (bindMethods ?metrics))]"
    using AdminServer_routes by blast
  have m: "rmethod req = GET"
    using assms(2) by (auto simp: build_def bind_res_Inr_iff Request_def convertMethod_def split: option.splits)
  have cand: "candidate (matcher a) ['''', c] ts \<longleftrightarrow> ts = [Lit '''', Lit c]" if "c \<in> {''ping'', ''metrics''}" for c ts
    using that unfolding candidate_def a(3) by (auto simp: template_matches_def split: if_splits)
  have one: "get_response pf (matcher a) b 1 =
      (case dispatch req (match_of (matcher a) ['''', c] [Lit '''', Lit c]) of
         Inl (Throw e) \<Rightarrow> Inr (Response INTERNAL_ERROR TEXT_PLAIN (what e)) | r \<Rightarrow> r)"
    if c: "c \<in> {''ping'', ''metrics''}" and "path_components (rpath req) = ['''', c]" for c
  proof -
    have "matcher_match (set_first pf) (matcher a) (rpath req) =
        Inr (Some (match_of (matcher a) ['''', c] [Lit '''', Lit c]))"
      using matcher_set.match_single [OF assms(1) a(2), of "rpath req" "[Lit '''', Lit c]"]
      unfolding that(2) cand [OF c] by blast
    from get_response_cases [OF assms(2) this] show ?thesis by simp
  qed
  have paths: "path_components ''/ping'' = ['''', ''ping'']" "path_components ''/metrics'' = ['''', ''metrics'']"
    by code_simp+
  have "get_response pf (matcher a) b 1 = Inr (Response OK TEXT_PLAIN (''pong'' @ [CHR 0x0A]))"
    if "rpath req = ''/ping''"
    using one [of "''ping''"] paths(1) that m
    by (simp add: dispatch_def match_of_def a(3) bindMethods_def dispatch_handler_eq PingResource_def
        Extractor_def Ping_get_def)
  moreover have "get_response pf (matcher a) b 1 = Inr (Response OK APPLICATION_JSON serialize)"
    if "rpath req = ''/metrics''"
    using one [of "''metrics''"] paths(2) that m
    by (simp add: dispatch_def match_of_def a(3) bindMethods_def dispatch_handler_eq MetricsResource_def
        Extractor_def Metrics_get_def)
  ultimately show ?thesis using a(1) by blast
qed

theorem admin_server_serves_witness:
  "\<exists>a :: nat server_instance. AdminServer ''{}'' ''127.0.0.1'' 8080 = Inr (None, a) \<and>
     get_response \<lparr>mm_ins = insert_back,
         url_parse = (\<lambda>u. Some \<lparr>path_field = Some (0, length u), query_field = None\<rparr>),
         set_first = set_begin_std\<rparr> (matcher a) (RequestBuilder\<lparr>url := ''/metrics''\<rparr>) 1 =
       Inr (Response OK APPLICATION_JSON ''{}'')"
proof -
  let ?pf = "\<lparr>mm_ins = insert_back,
      url_parse = (\<lambda>u. Some \<lparr>path_field = Some (0, length u), query_field = None\<rparr>),
      set_first = set_begin_std\<rparr>"
  let ?b = "RequestBuilder\<lparr>url := ''/metrics''\<rparr>"
  have set: "matcher_set (set_first ?pf)" using match_std.matcher_set_axioms by simp
  obtain req where req: "build (mm_ins ?pf) (url_parse ?pf) ?b 1 = Inr req" "rpath req = ''/metrics''"
    by (simp add: build_def convertMethod_def string_slice_def Request_def)
  from admin_server_serves [OF set req(1), of "''{}''" "''127.0.0.1''" 8080] req(2)
  show ?thesis by blast
qed

text \<open>A server that was shut down never serves again: whatever is called afterwards, and in whatever
  order, it stays shut down, has no worker, and neither of its instances accepts connections.\<close>

theorem shut_down_for_good:
  assumes "reachable s" and "shutdown s" and "server_step\<^sup>*\<^sup>* s s'"
    and "i = application s' \<or> admin_server s' = Some i"
  shows "shutdown s' \<and> live_bases s' = [] \<and> listener i \<noteq> Some Accepting"
proof -
  from shutdown_steps [OF assms(3,1,2)] have s': "server_inv s'" "shutdown s'"
    using server_inv_reachable by blast+
  then have "live_bases s' = []" by (auto simp: server_inv_def phase_inv_def split: if_splits)
  moreover have "workers_alive s' i"
    using s'(1) assms(4) by (auto simp: server_inv_def admin_inv_def)
  ultimately show ?thesis using s'(2) by (auto simp: workers_alive_def)
qed

theorem shut_down_for_good_witness:
  "\<exists>s s' a. stopAndWait (\<lambda>_. None) started_server = Inr (None, s) \<and>
     startAdminServer ''{}'' s ''127.0.0.1'' 8080 = Inr (None, s') \<and> admin_server s' = Some a \<and>
     shutdown s' \<and> live_bases s' = [] \<and> listener a \<noteq> Some Accepting"
proof -
  obtain s where s: "stopAndWait (\<lambda>_. None) started_server = Inr (None, s)" "shutdown s" "admin_server s = None"
    using stopAndWait_running [OF server_inv_reachable [OF started_server_state(1)] started_server_state(2,3),
        of "\<lambda>_. None"] started_server_state(4) started_server_quiet by (simp add: after_stop_def)
  have r: "reachable s" by (rule reachable_step [OF started_server_state(1) step_stop [OF s(1)]])
  obtain a :: "nat server_instance" where "AdminServer ''{}'' ''127.0.0.1'' 8080 = Inr (None, a)"
    using AdminServer_routes by blast
  then obtain s' where s': "startAdminServer ''{}'' s ''127.0.0.1'' 8080 = Inr (None, s')" "admin_server s' = Some a"
    using s(3) by (simp add: startAdminServer_def)
  have "server_step\<^sup>*\<^sup>* s s'" using step_admin [OF s'(1)] by blast
  from shut_down_for_good [OF r s(2) this, of a] s(1) s' show ?thesis by blast
qed

end
