(* ===== verification/Refinement.thy ===== *)
theory Refinement
  imports Prelude
begin

text \<open>
  Deterministic components and their specifications. A component takes an event in a state and
  yields an outcome and the next state, or a fault. The locale \<open>refinement\<close> is the interface
  between a component and an abstract machine: an invariant the component keeps and an
  abstraction under which each event has the same outcome in both. Its lemmas lift this to
  whole histories of events, which is how a client observes the component.
\<close>

section \<open>Histories\<close>

fun history :: "('s \<Rightarrow> 'e \<Rightarrow> ('o \<times> 's) res) \<Rightarrow> 's \<Rightarrow> 'e list \<Rightarrow> ('o list \<times> 's) res" where
  "history step s [] = Inr ([], s)"
| "history step s (e # es) =
     bind_res (step s e) (\<lambda>(out, s'). bind_res (history step s' es) (\<lambda>(outs, t). Inr (out # outs, t)))"

lemma history_append:
  "history step s (es @ fs) =
     bind_res (history step s es) (\<lambda>(outs, s'). bind_res (history step s' fs) (\<lambda>(outs', t). Inr (outs @ outs', t)))"
proof (induction es arbitrary: s)
  case Nil
  show ?case by (cases "history step s fs") auto
next
  case (Cons e es)
  show ?case
  proof (cases "step s e")
    case (Inr p)
    obtain out s1 where p: "p = (out, s1)" by fastforce
    show ?thesis
    proof (cases "history step s1 es")
      case (Inr q)
      obtain outs s2 where "q = (outs, s2)" by fastforce
      with p Inr \<open>step s e = Inr p\<close> Cons.IH [of s1] show ?thesis
        by (cases "history step s2 fs") auto
    qed (use p Inr Cons.IH [of s1] in simp)
  qed simp
qed

text \<open>What is kept by every event is kept by a history.\<close>

lemma history_invariant:
  assumes "history step s es = Inr (outs, s')" and "P s"
    and "\<And>s e out s'. e \<in> set es \<Longrightarrow> P s \<Longrightarrow> step s e = Inr (out, s') \<Longrightarrow> P s'"
  shows "P s'"
  using assms
proof (induction es arbitrary: s outs)
  case (Cons e es)
  from Cons.prems(1) obtain out s1 outs1 where
    "step s e = Inr (out, s1)" "history step s1 es = Inr (outs1, s')"
    by (auto simp: bind_res_Inr_iff)
  note st = this
  show ?case
  proof (rule Cons.IH [OF st(2)])
    show "P s1" using Cons.prems(3) [OF _ Cons.prems(2) st(1)] by simp
    show "P t'" if "e \<in> set es" "P t" "step t e = Inr (out, t')" for e t out t'
      using Cons.prems(3) [OF _ that(2,3)] that(1) by simp
  qed
qed simp

text \<open>A script: events in a fixed order, up to the first whose outcome does not let it go on. That
  outcome is the first component of the result.\<close>

fun script ::
    "('o \<Rightarrow> bool) \<Rightarrow> ('s \<Rightarrow> 'e \<Rightarrow> ('o \<times> 's) res) \<Rightarrow> 's \<Rightarrow> 'e list \<Rightarrow> ('o option \<times> 's) res" where
  "script go step s [] = Inr (None, s)"
| "script go step s (e # es) =
     bind_res (step s e) (\<lambda>(out, s'). if go out then script go step s' es else Inr (Some out, s'))"

lemma script_invariant:
  assumes "script go step s es = Inr (out, s')" and "P s"
    and "\<And>s e out s'. P s \<Longrightarrow> step s e = Inr (out, s') \<Longrightarrow> P s'"
  shows "P s'"
  using assms(1,2)
proof (induction es arbitrary: s)
  case (Cons e es)
  from Cons.prems(1) obtain o1 s1 where 1: "step s e = Inr (o1, s1)"
    "(if go o1 then script go step s1 es else Inr (Some o1, s1)) = Inr (out, s')"
    by (auto simp: bind_res_Inr_iff)
  from assms(3) [OF Cons.prems(2) 1(1)] 1(2) Cons.IH [of s1] show ?case by (cases "go o1") auto
qed simp

section \<open>Components and abstract machines\<close>

locale refinement =
  fixes step :: "'s \<Rightarrow> 'e \<Rightarrow> ('o \<times> 's) res"
    and inv :: "'s \<Rightarrow> bool"
    and abst :: "'s \<Rightarrow> 't"
    and spec :: "'t \<Rightarrow> 'e \<Rightarrow> ('o \<times> 't) res"
  assumes inv_step: "inv s \<Longrightarrow> step s e = Inr (out, s') \<Longrightarrow> inv s'"
    and simulates: "inv s \<Longrightarrow> bind_res (step s e) (\<lambda>(out, s'). Inr (out, abst s')) = spec (abst s) e"
begin

lemma simulates_ok: "inv s \<Longrightarrow> step s e = Inr (out, s') \<Longrightarrow> spec (abst s) e = Inr (out, abst s')"
  using simulates [of s e] by simp

lemma simulates_fault: "inv s \<Longrightarrow> step s e = Inl f \<Longrightarrow> spec (abst s) e = Inl f"
  using simulates [of s e] by simp

lemma inv_history: "history step s es = Inr (outs, s') \<Longrightarrow> inv s \<Longrightarrow> inv s'"
  by (rule history_invariant [where P = inv]) (auto intro: inv_step)

text \<open>The outcomes of a history, and whether and how it fails, are those of the abstract machine.\<close>

lemma histories_agree:
  "inv s \<Longrightarrow>
     bind_res (history step s es) (\<lambda>(outs, s'). Inr (outs, abst s')) = history spec (abst s) es"
proof (induction es arbitrary: s)
  case (Cons e es)
  show ?case
  proof (cases "step s e")
    case (Inl f)
    with simulates_fault [OF Cons.prems] show ?thesis by simp
  next
    case (Inr p)
    then obtain out s' where p: "step s e = Inr (out, s')" by (cases p) auto
    note IH = Cons.IH [OF inv_step [OF Cons.prems p]]
    show ?thesis
      using simulates_ok [OF Cons.prems p] p IH [symmetric]
      by (cases "history step s' es") (auto simp: split_beta)
  qed
qed simp

lemma scripts_agree:
  "inv s \<Longrightarrow>
     bind_res (script go step s es) (\<lambda>(out, s'). Inr (out, abst s')) = script go spec (abst s) es"
proof (induction es arbitrary: s)
  case (Cons e es)
  show ?case
  proof (cases "step s e")
    case (Inl f)
    with simulates_fault [OF Cons.prems] show ?thesis by simp
  next
    case (Inr p)
    then obtain out s' where p: "step s e = Inr (out, s')" by (cases p) auto
    with simulates_ok [OF Cons.prems p] Cons.IH [OF inv_step [OF Cons.prems p]] show ?thesis by simp
  qed
qed simp

lemma inv_script: "script go step s es = Inr (out, s') \<Longrightarrow> inv s \<Longrightarrow> inv s'"
  by (rule script_invariant [where P = inv]) (auto intro: inv_step)

end

end
