(* ===== verification/Server_Spec.thy ===== *)
theory Server_Spec
  imports Server Refinement
begin

text \<open>
  The contract of the class \<open>Server\<close> (\<open>include/server.h\<close>) as an abstract machine that knows the
  phase of the life cycle, the address, the table of routes, whether a thread waits, and the
  state of the admin server, and nothing of bases, threads, listeners and tries. The server of
  \<open>src/server.cc\<close> refines it: every history of calls, interleaved in any way with turns of the
  listener's loop and with any failures of the network, has the same outcomes on both.

  The second part is the liveness of the admin server on fair infinite runs.
\<close>

section \<open>The calls\<close>

text \<open>The public methods of \<open>Server\<close>, and a turn of the loop that runs a queued function.\<close>

datatype server_call =
    RegisterResource resource
  | Start
  | StopAndWait
  | Wait
  | StartAdminServer string "16 word"

datatype outcome = Returned | Threw exn | Blocked

fun ended :: "exn option \<Rightarrow> outcome" where
  "ended None = Returned"
| "ended (Some e) = Threw e"

fun waited :: "wait_result \<Rightarrow> outcome" where
  "waited (Returns e) = ended e"
| "waited Sleeps = Blocked"

text \<open>The methods of \<open>Server\<close> forward to the implementation. \<open>serialize\<close> is the metrics' text.\<close>

fun server_method ::
    "string \<Rightarrow> (listener_op \<Rightarrow> exn option) \<Rightarrow> server_impl \<Rightarrow> server_call \<Rightarrow> (outcome \<times> server_impl) res" where
  "server_method serialize net s (RegisterResource r) =
     bind_res (server_register s r) (\<lambda>(e, s'). Inr (ended e, s'))"
| "server_method serialize net s Start = bind_res (start net s) (\<lambda>(e, s'). Inr (ended e, s'))"
| "server_method serialize net s StopAndWait = bind_res (stopAndWait net s) (\<lambda>(e, s'). Inr (ended e, s'))"
| "server_method serialize net s Wait = bind_res (wait s) (\<lambda>(w, s'). Inr (waited w, s'))"
| "server_method serialize net s (StartAdminServer ip p) =
     bind_res (startAdminServer serialize s ip p) (\<lambda>(e, s'). Inr (ended e, s'))"

definition loop_enabled :: "server_impl \<Rightarrow> bool" where
  "loop_enabled s \<longleftrightarrow> started s \<and> \<not> shutdown s \<and> tasks s \<noteq> []"

definition loop_turn :: "(listener_op \<Rightarrow> exn option) \<Rightarrow> server_impl \<Rightarrow> (outcome \<times> server_impl) res" where
  "loop_turn net s =
     (if loop_enabled s
      then bind_res (run_task net s (hd (tasks s))) (\<lambda>s'. Inr (Returned, s'\<lparr>tasks := tl (tasks s)\<rparr>))
      else Inr (Returned, s))"

text \<open>An event: a call or a turn of the loop, and how the network behaves meanwhile.\<close>

datatype server_input =
    Call "listener_op \<Rightarrow> exn option" server_call
  | Turn "listener_op \<Rightarrow> exn option"

fun server_event :: "string \<Rightarrow> server_impl \<Rightarrow> server_input \<Rightarrow> (outcome \<times> server_impl) res" where
  "server_event serialize s (Call net c) = server_method serialize net s c"
| "server_event serialize s (Turn net) = loop_turn net s"

section \<open>The abstract machine\<close>

datatype phase = Fresh | Failed | Running | Down

datatype admin_phase = Absent | Requested string "16 word" | Serving

record server_spec =
  phase :: phase
  address :: "string \<times> 16 word"
  waiter :: bool
  admin :: admin_phase
  table :: "seg list \<Rightarrow> (resource \<times> methods option) option"

definition spec_new :: "string \<Rightarrow> 16 word \<Rightarrow> server_spec" where
  "spec_new ip p =
     \<lparr>phase = Fresh, address = (ip, p), waiter = False, admin = Absent, table = Map.empty\<rparr>"

fun admin_fault :: "(listener_op \<Rightarrow> exn option) \<Rightarrow> admin_phase \<Rightarrow> exn option" where
  "admin_fault net (Requested ip p) = listen_fault net ip p"
| "admin_fault net _ = None"

fun admin_up :: "admin_phase \<Rightarrow> admin_phase" where
  "admin_up (Requested ip p) = Serving"
| "admin_up a = a"

fun spec_method ::
    "(listener_op \<Rightarrow> exn option) \<Rightarrow> server_spec \<Rightarrow> server_call \<Rightarrow> (outcome \<times> server_spec) res" where
  "spec_method net t (RegisterResource r) =
     (if table t (template (path r)) = None
      then Inr (Returned, t\<lparr>table := (table t)(template (path r) \<mapsto> (r, Some (bindMethods r)))\<rparr>)
      else Inr (Threw (Runtime_error ''Resource registration collision''), t))"
| "spec_method net t Start =
     (if phase t \<noteq> Fresh then Inr (Threw (Logic_error ''Server has already been started''), t)
      else case listen_fault net (fst (address t)) (snd (address t)) of
          Some e \<Rightarrow> Inr (Threw e, t\<lparr>phase := Failed\<rparr>)
        | None \<Rightarrow> (case admin_fault net (admin t) of
            Some e \<Rightarrow> Inl (Throw e)
          | None \<Rightarrow> Inr (Returned, t\<lparr>phase := Running, admin := admin_up (admin t)\<rparr>)))"
| "spec_method net t StopAndWait =
     (case phase t of
        Running \<Rightarrow> (case admin_fault net (admin t) of
            Some e \<Rightarrow> Inl (Throw e)
          | None \<Rightarrow> if waiter t then Inl Undef else Inr (Returned, t\<lparr>phase := Down, admin := Absent\<rparr>))
      | Down \<Rightarrow> Inr (Returned, t)
      | _ \<Rightarrow> Inr (Threw (Logic_error ''Server was not started''), t))"
| "spec_method net t Wait =
     (case phase t of
        Running \<Rightarrow> if waiter t then Inl Undef else Inr (Blocked, t\<lparr>waiter := True\<rparr>)
      | Down \<Rightarrow> Inr (Threw (System_error ''Invalid argument''), t)
      | _ \<Rightarrow> Inr (Returned, t))"
| "spec_method net t (StartAdminServer ip p) =
     (if admin t = Absent then Inr (Returned, t\<lparr>admin := Requested ip p\<rparr>)
      else Inr (Threw (Logic_error ''Admin server has already been started''), t))"

fun spec_event :: "server_spec \<Rightarrow> server_input \<Rightarrow> (outcome \<times> server_spec) res" where
  "spec_event t (Call net c) = spec_method net t c"
| "spec_event t (Turn net) =
     (if phase t \<noteq> Running then Inr (Returned, t)
      else case admin_fault net (admin t) of
          Some e \<Rightarrow> Inl (Throw e)
        | None \<Rightarrow> Inr (Returned, t\<lparr>admin := admin_up (admin t)\<rparr>))"

section \<open>The abstraction\<close>

definition phase_of :: "server_impl \<Rightarrow> phase" where
  "phase_of s =
     (if \<not> started s then (if listener (application s) = None then Fresh else Failed)
      else if shutdown s then Down else Running)"

definition admin_of :: "server_impl \<Rightarrow> admin_phase" where
  "admin_of s =
     (case admin_server s of
        None \<Rightarrow> Absent
      | Some a \<Rightarrow> if tasks s = [] then Serving else Requested (ipaddr a) (port a))"

definition server_abs :: "server_impl \<Rightarrow> server_spec" where
  "server_abs s =
     \<lparr>phase = phase_of s, address = (ipaddr (application s), port (application s)),
      waiter = (0 < waiting s), admin = admin_of s, table = routes (matcher (application s))\<rparr>"

lemma server_abs_new: "server_abs (ServerImpl ip p) = spec_new ip p"
  by (simp add: server_abs_def spec_new_def phase_of_def admin_of_def ServerImpl_def ServerInstance_def
      routes_ResourceMatcher)

lemma admin_fault_of: "admin_fault net (admin_of s) = pending_fault net s"
  by (simp add: admin_of_def pending_fault_def split: option.split)

text \<open>Changing one part of the state changes its abstraction accordingly.\<close>

lemma abs_after_start:
  assumes "\<not> started s" "\<not> shutdown s" "waiting s = 0"
  shows "server_abs (after_start s) =
    (server_abs s)\<lparr>phase := Running, admin := admin_up (admin_of s)\<rparr>"
  using assms
  by (cases "admin_server s")
     (simp_all add: server_abs_def after_start_def phase_of_def admin_of_def admin_started_def
        add_bases_frame Let_def)

lemma abs_after_stop:
  assumes "started s" "\<not> shutdown s"
  shows "server_abs (after_stop s) = (server_abs s)\<lparr>phase := Down, admin := Absent\<rparr>"
  using assms by (simp add: server_abs_def after_stop_def phase_of_def admin_of_def instance_stop_def)

lemma abs_failed_start:
  assumes "\<not> started s"
  shows "server_abs (((add_base ^^ k) s)\<lparr>application := (application s)\<lparr>bases := bs, listener := Some l\<rparr>\<rparr>) =
    (server_abs s)\<lparr>phase := Failed\<rparr>"
  using assms by (simp add: server_abs_def phase_of_def admin_of_def add_bases_frame cong: option.case_cong)

lemma abs_add_bases: "server_abs ((add_base ^^ k) s) = server_abs s"
  by (cases "admin_server s") (simp_all add: server_abs_def phase_of_def admin_of_def add_bases_frame)

lemma abs_waiting:
  "server_abs (s\<lparr>waiting := 1\<rparr>) = (server_abs s)\<lparr>waiter := True\<rparr>"
  by (simp add: server_abs_def phase_of_def admin_of_def cong: option.case_cong)

lemma abs_register:
  "server_abs (s\<lparr>application := (application s)\<lparr>matcher := m\<rparr>\<rparr>) = (server_abs s)\<lparr>table := routes m\<rparr>"
  by (simp add: server_abs_def phase_of_def admin_of_def cong: option.case_cong)

section \<open>The refinement\<close>

lemma refines_start:
  assumes inv: "server_inv s"
  shows "bind_res (start net s) (\<lambda>(e, s'). Inr (ended e, server_abs s')) = spec_method net (server_abs s) Start"
proof (cases "phase_of s = Fresh")
  case True
  then have s: "\<not> started s" "listener (application s) = None"
    by (auto simp: phase_of_def split: if_splits)
  then have s': "\<not> shutdown s" "waiting s = 0" using inv by (auto simp: server_inv_def phase_inv_def)
  show ?thesis
  proof (cases "listen_fault net (ipaddr (application s)) (port (application s))")
    case None
    from start_succeeds [OF inv s None] abs_after_start [OF s(1) s'] True None show ?thesis
      by (simp add: server_abs_def admin_fault_of split: option.split)
  next
    case (Some e)
    from start_listen_fails [OF s Some] abs_failed_start [OF s(1), where k = kBases] True Some show ?thesis
      by (auto simp: server_abs_def)
  qed
next
  case False
  then have "start net s = Inr (Some (Logic_error ''Server has already been started''), s) \<or>
      start net s = Inr (Some (Logic_error ''Server has already been started''), (add_base ^^ kBases) s)"
  proof (cases "started s")
    case True
    then show ?thesis by (simp add: start_def)
  next
    case not: False
    with False have "listener (application s) \<noteq> None" by (auto simp: phase_of_def split: if_splits)
    from start_failed_before [OF not this] show ?thesis by blast
  qed
  then have "bind_res (start net s) (\<lambda>(e, s'). Inr (ended e, server_abs s')) =
      Inr (Threw (Logic_error ''Server has already been started''), server_abs s)"
    by (elim disjE) (simp_all add: abs_add_bases)
  with False show ?thesis by (simp add: server_abs_def)
qed

lemma refines_stop:
  assumes inv: "server_inv s"
  shows "bind_res (stopAndWait net s) (\<lambda>(e, s'). Inr (ended e, server_abs s')) =
    spec_method net (server_abs s) StopAndWait"
proof (cases "started s \<and> \<not> shutdown s")
  case True
  then have "phase (server_abs s) = Running" by (simp add: server_abs_def phase_of_def)
  moreover have "admin (server_abs s) = admin_of s" "waiter (server_abs s) = (0 < waiting s)"
    by (simp_all add: server_abs_def)
  ultimately show ?thesis
    using True stopAndWait_running [OF inv, of net] abs_after_stop
    by (simp add: admin_fault_of split: option.split)
next
  case False
  then show ?thesis by (auto simp: stopAndWait_def server_abs_def phase_of_def)
qed

lemma refines_wait:
  assumes "server_inv s"
  shows "bind_res (wait s) (\<lambda>(w, s'). Inr (waited w, server_abs s')) = spec_method net (server_abs s) Wait"
  unfolding wait_cases [OF assms]
  using abs_waiting [of s, unfolded One_nat_def] by (auto simp: server_abs_def phase_of_def)

lemma refines_register:
  assumes "server_inv s"
  shows "bind_res (server_register s r) (\<lambda>(e, s'). Inr (ended e, server_abs s')) =
    spec_method net (server_abs s) (RegisterResource r)"
proof -
  have wf: "wf_matcher (matcher (application s))"
    using assms by (simp add: server_inv_def matchers_inv_def)
  have t: "table (server_abs s) = routes (matcher (application s))" by (simp add: server_abs_def)
  show ?thesis
  proof (cases "routes (matcher (application s)) (template (path r)) = None")
    case True
    from registerResource_free [OF wf this, of "bindMethods r"] True show ?thesis
      by (auto simp: server_register_def doRegister_def t abs_register)
  next
    case False
    from registerResource_taken [OF wf this, of "bindMethods r"] False show ?thesis
      by (auto simp: server_register_def doRegister_def t)
  qed
qed

lemma refines_admin:
  assumes "server_inv s"
  shows "bind_res (startAdminServer serialize s ip p) (\<lambda>(e, s'). Inr (ended e, server_abs s')) =
    spec_method net (server_abs s) (StartAdminServer ip p)"
proof (cases "admin_server s")
  case None
  obtain a :: "nat server_instance" where a: "AdminServer serialize ip p = Inr (None, a)"
    using AdminServer_routes by blast
  from AdminServer_fresh [OF a] have "ipaddr a = ip" "port a = p" by (simp_all add: unstarted_def)
  with None a show ?thesis
    by (simp add: startAdminServer_def server_abs_def admin_of_def phase_of_def)
next
  case (Some a)
  then show ?thesis by (simp add: startAdminServer_def server_abs_def admin_of_def)
qed

lemma refines_turn:
  assumes inv: "server_inv s"
  shows "bind_res (loop_turn net s) (\<lambda>(out, s'). Inr (out, server_abs s')) = spec_event (server_abs s) (Turn net)"
proof (cases "loop_enabled s")
  case True
  then obtain t ts where t: "tasks s = t # ts" and run: "started s" "\<not> shutdown s"
    by (auto simp: loop_enabled_def neq_Nil_conv)
  have adm: "admin_inv s" using inv by (simp add: server_inv_def)
  have abs: "server_abs (s\<lparr>admin_server := admin_started s, tasks := []\<rparr>) =
      (server_abs s)\<lparr>admin := admin_up (admin_of s)\<rparr>"
    by (cases "admin_server s") (simp_all add: server_abs_def phase_of_def admin_of_def admin_started_def)
  have "phase (server_abs s) = Running" "admin (server_abs s) = admin_of s"
    using run by (simp_all add: server_abs_def phase_of_def)
  with True t abs run_task_cases [OF adm t] show ?thesis
    by (simp add: loop_turn_def admin_fault_of split: option.split)
next
  case False
  have up: "admin_up (admin_of s) = admin_of s \<and> admin_fault net (admin_of s) = None" if "tasks s = []"
    using that by (simp add: admin_of_def split: option.split)
  with False show ?thesis
    by (auto simp: loop_turn_def loop_enabled_def server_abs_def phase_of_def)
qed

lemma server_event_inv:
  assumes "server_inv s" "server_event serialize s e = Inr (out, s')"
  shows "server_inv s'"
proof (cases e)
  case (Call net c)
  with assms show ?thesis
    by (cases c) (auto simp: bind_res_Inr_iff intro: server_inv_register server_inv_start server_inv_stop
        server_inv_wait server_inv_admin)
next
  case (Turn net)
  with assms show ?thesis
    using server_inv_loop [OF assms(1), of "hd (tasks s)" "tl (tasks s)" net]
    by (auto simp: loop_turn_def loop_enabled_def bind_res_Inr_iff neq_Nil_conv split: if_splits)
qed

lemma server_event_refines:
  assumes "server_inv s"
  shows "bind_res (server_event serialize s e) (\<lambda>(out, s'). Inr (out, server_abs s')) = spec_event (server_abs s) e"
proof (cases e)
  case (Call net c)
  then show ?thesis
    using assms refines_start refines_stop refines_wait refines_register refines_admin
    by (cases c) (simp_all add: bind_res_assoc split_def)
next
  case (Turn net)
  with refines_turn [OF assms] show ?thesis by simp
qed

interpretation server_machine: refinement "server_event serialize" server_inv server_abs spec_event
  for serialize
  by unfold_locales (auto intro: server_event_inv server_event_refines)

section \<open>Fair runs\<close>

text \<open>An infinite run: calls and turns of the loop in any order, with idle steps.\<close>

definition server_run :: "(nat \<Rightarrow> server_impl) \<Rightarrow> bool" where
  "server_run \<sigma> \<longleftrightarrow>
     reachable (\<sigma> 0) \<and> (\<forall>n. server_step (\<sigma> n) (\<sigma> (Suc n)) \<or> \<sigma> (Suc n) = \<sigma> n)"

definition loop_step :: "server_impl \<Rightarrow> server_impl \<Rightarrow> bool" where
  "loop_step s s' \<longleftrightarrow> loop_enabled s \<and> (\<exists>net. loop_turn net s = Inr (Returned, s'))"

text \<open>The loop's thread is scheduled: a function that stays queued on a running loop is run.\<close>

definition loop_fair :: "(nat \<Rightarrow> server_impl) \<Rightarrow> bool" where
  "loop_fair \<sigma> \<longleftrightarrow>
     (\<forall>n. (\<forall>m\<ge>n. loop_enabled (\<sigma> m)) \<longrightarrow> (\<exists>m\<ge>n. loop_step (\<sigma> m) (\<sigma> (Suc m))))"

lemma run_reachable: "server_run \<sigma> \<Longrightarrow> reachable (\<sigma> n)"
proof (induction n)
  case (Suc n)
  then have "server_step (\<sigma> n) (\<sigma> (Suc n)) \<or> \<sigma> (Suc n) = \<sigma> n" by (simp add: server_run_def)
  with Suc show ?case by (auto intro: reachable_step)
qed (simp add: server_run_def)

text \<open>A requested admin server of a running server is there until the server is stopped.\<close>

lemma admin_stays:
  assumes step: "server_step s s'" and inv: "server_inv s"
    and run: "started s" "\<not> shutdown s" and adm: "admin_server s = Some a"
  shows "started s' \<and> (shutdown s' \<or> (\<exists>a. admin_server s' = Some a))"
  using step
proof (rule server_stepE)
  fix net e
  assume "stopAndWait net s = Inr (e, s')"
  with stopAndWait_running [OF inv run, of net] run show ?thesis
    by (auto simp: after_stop_def split: option.splits if_splits)
next
  fix w
  assume "wait s = Inr (w, s')"
  with run adm show ?thesis by (auto simp: wait_cases [OF inv] split: if_splits)
next
  fix net t ts s1
  assume "s' = s1\<lparr>tasks := ts\<rparr>" "run_task net s t = Inr s1"
  with run show ?thesis by (auto simp: run_task_def split: option.splits prod.splits)
qed (use run adm in \<open>auto simp: server_register_def doRegister_def start_def startAdminServer_def
    bind_res_Inr_iff\<close>)

lemma loop_step_starts_admin:
  assumes step: "loop_step s s'" and inv: "server_inv s"
  shows "\<exists>a. admin_server s' = Some a \<and> listener a = Some Accepting"
proof -
  from step obtain net where run: "loop_enabled s" "loop_turn net s = Inr (Returned, s')"
    by (auto simp: loop_step_def)
  then obtain t ts where t: "tasks s = t # ts" and st: "started s" "\<not> shutdown s"
    by (auto simp: loop_enabled_def neq_Nil_conv)
  have adm: "admin_inv s" "live_bases s \<noteq> []"
    using inv st by (auto simp: server_inv_def phase_inv_def)
  from run_task_cases [OF adm(1) t] run t have "admin_server s' = admin_started s"
    by (auto simp: loop_turn_def bind_res_Inr_iff split: option.splits)
  moreover obtain a where "admin_started s = Some a"
    using adm(1) t by (auto simp: admin_inv_def admin_started_def split: option.splits)
  ultimately show ?thesis using admin_started_alive [OF adm] by auto
qed

section \<open>Properties\<close>


text \<open>C20: The admin server comes up: in every infinite run in which the loop's thread is scheduled, once an
  admin server has been requested of a running server, it accepts connections eventually, unless
  the server is stopped.\<close>

theorem admin_server_comes_up:
  assumes "server_run \<sigma>" and "loop_fair \<sigma>"
    and "started (\<sigma> n)" and "\<not> shutdown (\<sigma> n)" and "admin_server (\<sigma> n) = Some a"
  shows "\<exists>m\<ge>n. shutdown (\<sigma> m) \<or> (\<exists>a. admin_server (\<sigma> m) = Some a \<and> listener a = Some Accepting)"
proof (rule ccontr)
  assume "\<not> ?thesis"
  then have never: "\<not> shutdown (\<sigma> m)" "admin_server (\<sigma> m) = Some a \<Longrightarrow> listener a \<noteq> Some Accepting"
    if "n \<le> m" for m a using that by blast+
  have inv: "server_inv (\<sigma> m)" for m by (rule server_inv_reachable [OF run_reachable [OF assms(1)]])
  have stays: "started (\<sigma> m) \<and> (\<exists>a. admin_server (\<sigma> m) = Some a)" if "n \<le> m" for m
    using that
  proof (induction m rule: dec_induct)
    case (step m)
    have "server_step (\<sigma> m) (\<sigma> (Suc m)) \<or> \<sigma> (Suc m) = \<sigma> m"
      using assms(1) by (simp add: server_run_def)
    with step admin_stays [OF _ inv, of m "\<sigma> (Suc m)"] never(1) [of m] never(1) [of "Suc m"]
    show ?case by auto
  qed (use assms in blast)
  have "loop_enabled (\<sigma> m)" if m: "n \<le> m" for m
  proof -
    from stays [OF m] obtain a where a: "admin_server (\<sigma> m) = Some a" by blast
    have "admin_inv (\<sigma> m)" using inv [of m] by (simp add: server_inv_def)
    with never(2) [OF m a] a have "tasks (\<sigma> m) \<noteq> []" by (auto simp: admin_inv_def)
    with stays [OF m] never(1) [OF m] show ?thesis by (simp add: loop_enabled_def)
  qed
  with assms(2) obtain m where m: "n \<le> m" "loop_step (\<sigma> m) (\<sigma> (Suc m))"
    unfolding loop_fair_def by blast
  from loop_step_starts_admin [OF m(2) inv] never(2) [of "Suc m"] m(1) show False by auto
qed

theorem admin_server_comes_up_witness:
  "\<exists>\<sigma> a. server_run \<sigma> \<and> loop_fair \<sigma> \<and> admin_server (\<sigma> 1) = Some a \<and> listener a = None \<and>
     (\<exists>m\<ge>1. shutdown (\<sigma> m) \<or> (\<exists>a. admin_server (\<sigma> m) = Some a \<and> listener a = Some Accepting))"
proof -
  obtain a :: "nat server_instance" where a: "AdminServer ''{}'' ''127.0.0.1'' 8080 = Inr (None, a)"
    using AdminServer_routes by blast
  then have l: "listener a = None" using AdminServer_fresh [OF a] by (simp add: unstarted_def)
  let ?s1 = "started_server\<lparr>admin_server := Some a, tasks := tasks started_server @ [StartAdmin]\<rparr>"
  have req: "startAdminServer ''{}'' started_server ''127.0.0.1'' 8080 = Inr (None, ?s1)"
    using a started_server_state(7) by (simp add: startAdminServer_def)
  have 1: "reachable ?s1" by (rule reachable_step [OF started_server_state(1) step_admin [OF req]])
  have adm: "admin_inv ?s1" using server_inv_reachable [OF 1] by (simp add: server_inv_def)
  with l have t: "tasks ?s1 = [StartAdmin]" by (simp add: admin_inv_def)
  let ?s2 = "?s1\<lparr>admin_server := admin_started ?s1, tasks := []\<rparr>"
  have "pending_fault (\<lambda>_. None) ?s1 = None" by (simp add: pending_fault_def listen_fault_def)
  with run_task_cases(1) [OF adm t, of "\<lambda>_. None"] have
    "run_task (\<lambda>_. None) ?s1 StartAdmin = Inr (?s1\<lparr>admin_server := admin_started ?s1\<rparr>)" by simp
  from step_loop [OF _ _ t this] started_server_state(2,3) have 2: "server_step ?s1 ?s2" by simp
  define \<sigma> where "\<sigma> = (\<lambda>n :: nat. if n = 0 then started_server else if n = 1 then ?s1 else ?s2)"
  have run: "server_run \<sigma>"
    using started_server_state(1) step_admin [OF req] 2 by (auto simp: server_run_def \<sigma>_def)
  have "\<not> loop_enabled (\<sigma> (n + 2))" for n by (simp add: \<sigma>_def loop_enabled_def)
  then have fair: "loop_fair \<sigma>" unfolding loop_fair_def by (metis le_add1)
  have s1: "\<sigma> 1 = ?s1" by (simp add: \<sigma>_def)
  have "started (\<sigma> 1)" "\<not> shutdown (\<sigma> 1)" "admin_server (\<sigma> 1) = Some a"
    using started_server_state(2,3) unfolding s1 by simp_all
  from admin_server_comes_up [OF run fair this] run fair this(3) l show ?thesis by blast
qed

end
