(* ===== verification/Connection.thy ===== *)
theory Connection
  imports Server_Instance
begin

text \<open>
  One connection: \<open>ServerInstance::RequestContext\<close> with its read and write callbacks,
  \<open>message_complete\<close> and \<open>acceptCb\<close> (\<open>src/server_instance.h\<close>, \<open>src/server_instance.cc\<close>).

  The HTTP parser is a parameter: \<open>execute p s\<close> says which events the parser in state \<open>p\<close>
  would report for the bytes \<open>s\<close>, how many bytes it accepts and its next state; when the
  callback of the \<open>i\<close>-th event refuses, \<open>on_refusal\<close> gives the bytes and the state instead. The
  streams appear as the calls they make into the callbacks. A context is an \<open>option\<close>, \<open>None\<close>
  once it is deleted; a callback that reaches a deleted context is \<open>Undef\<close>.
\<close>

section \<open>The parser and the context\<close>

datatype parser_event = Piece callback | MessageComplete int

record 'p execution =
  events :: "parser_event list"
  parsed :: nat
  next_state :: 'p
  on_refusal :: "nat \<Rightarrow> nat \<times> 'p"

type_synonym 'p http_parser = "'p \<Rightarrow> string \<Rightarrow> 'p execution"

text \<open>\<open>written\<close> holds the strings handed to the stream, each with the write callback.\<close>

record 'p conn =
  parser :: 'p
  builder :: builder
  written :: "string list"

definition RequestContext :: "'p \<Rightarrow> 'p conn" where
  "RequestContext http_parser_init =
     \<lparr>parser = http_parser_init, builder = RequestBuilder, written = []\<rparr>"

section \<open>Callbacks of the parser\<close>

definition message_complete ::
    "platform \<Rightarrow> matcher \<Rightarrow> 'p conn \<Rightarrow> int \<Rightarrow> (int \<times> 'p conn) res" where
  "message_complete pf m ctx method =
     bind_res (get_response pf m (builder ctx) method) (\<lambda>resp.
       let resp_str = to_string resp in
       Inr (0, ctx\<lparr>written := written ctx @ [resp_str]\<rparr>))"

text \<open>\<open>RequestBuilder::builder\<close>: the callbacks of the builder find it in the context that the
  parser's \<open>data\<close> points to.\<close>

definition RequestBuilder_builder :: "'p conn \<Rightarrow> builder" where
  "RequestBuilder_builder data = builder data"

lemma RequestBuilder_builder_eq [simp]: "RequestBuilder_builder data = builder data"
  by (simp add: RequestBuilder_builder_def)

fun handle_event ::
    "platform \<Rightarrow> matcher \<Rightarrow> 'p conn \<Rightarrow> parser_event \<Rightarrow> (int \<times> 'p conn) res" where
  "handle_event pf m ctx (Piece c) =
     (let (rc, b) = run_callback (RequestBuilder_builder ctx) c in Inr (rc, ctx\<lparr>builder := b\<rparr>))"
| "handle_event pf m ctx (MessageComplete method) = message_complete pf m ctx method"

text \<open>The events in order, up to the first refusal; the first component counts those accepted
  when there was a refusal.\<close>

fun handle_events ::
    "platform \<Rightarrow> matcher \<Rightarrow> 'p conn \<Rightarrow> parser_event list \<Rightarrow> nat \<Rightarrow> (nat option \<times> 'p conn) res" where
  "handle_events pf m ctx [] i = Inr (None, ctx)"
| "handle_events pf m ctx (e # es) i =
     bind_res (handle_event pf m ctx e) (\<lambda>(rc, ctx').
       if rc \<noteq> 0 then Inr (Some i, ctx') else handle_events pf m ctx' es (Suc i))"

definition http_parser_execute ::
    "'p http_parser \<Rightarrow> platform \<Rightarrow> matcher \<Rightarrow> 'p conn \<Rightarrow> string \<Rightarrow> (nat \<times> 'p conn) res" where
  "http_parser_execute execute pf m ctx data =
     (let ex = execute (parser ctx) data in
      bind_res (handle_events pf m ctx (events ex) 0) (\<lambda>(refused, ctx').
        case refused of
          None \<Rightarrow> Inr (parsed ex, ctx'\<lparr>parser := next_state ex\<rparr>)
        | Some i \<Rightarrow> Inr (fst (on_refusal ex i), ctx'\<lparr>parser := snd (on_refusal ex i)\<rparr>)))"

section \<open>Callbacks of the stream\<close>

text \<open>
  \<open>ReadCallback::available\<close> over the extents of the buffer: the context, deleted when an extent
  is not parsed completely, and the number of bytes drained from the buffer.
\<close>

fun read_extents ::
    "'p http_parser \<Rightarrow> platform \<Rightarrow> matcher \<Rightarrow> 'p conn \<Rightarrow> nat \<Rightarrow> string list \<Rightarrow>
     ('p conn option \<times> nat) res" where
  "read_extents execute pf m ctx drain [] = Inr (Some ctx, drain)"
| "read_extents execute pf m ctx drain (extent # extents) =
     bind_res (http_parser_execute execute pf m ctx extent) (\<lambda>(n, ctx').
       if n \<noteq> length extent then Inr (None, 0)
       else read_extents execute pf m ctx' (drain + n) extents)"

definition live_context :: "'p conn option \<Rightarrow> 'p conn res" where
  "live_context c = (case c of None \<Rightarrow> Inl Undef | Some ctx \<Rightarrow> Inr ctx)"

definition available ::
    "'p http_parser \<Rightarrow> platform \<Rightarrow> matcher \<Rightarrow> 'p conn option \<Rightarrow> string list \<Rightarrow>
     ('p conn option \<times> nat) res" where
  "available execute pf m c extents =
     bind_res (live_context c) (\<lambda>ctx. read_extents execute pf m ctx 0 extents)"

definition eof ::
    "'p http_parser \<Rightarrow> platform \<Rightarrow> matcher \<Rightarrow> 'p conn option \<Rightarrow> 'p conn option res" where
  "eof execute pf m c =
     bind_res (live_context c) (\<lambda>ctx.
     bind_res (http_parser_execute execute pf m ctx []) (\<lambda>(rc, ctx').
       Inr (if rc \<noteq> 0 then None else Some ctx')))"

text \<open>The other three callbacks only delete the context.\<close>

definition delete_context :: "'p conn option \<Rightarrow> 'p conn option res" where
  "delete_context c = bind_res (live_context c) (\<lambda>_. Inr None)"

definition read_error :: "'p conn option \<Rightarrow> 'p conn option res" where
  "read_error = delete_context"

definition write_error :: "'p conn option \<Rightarrow> 'p conn option res" where
  "write_error = delete_context"

definition write_complete :: "'p conn option \<Rightarrow> 'p conn option res" where
  "write_complete = delete_context"

text \<open>\<open>acceptCb\<close>: a worker is chosen and a context created for the socket.\<close>

definition acceptCb ::
    "'p \<Rightarrow> 32 word \<Rightarrow> 'b server_instance \<Rightarrow> (32 word \<times> 'b \<times> 'p conn) res" where
  "acceptCb http_parser_init iter s =
     bind_res (chooseBase iter s) (\<lambda>(iter', base). Inr (iter', base, RequestContext http_parser_init))"

section \<open>Events and chunks\<close>

fun join_events :: "parser_event \<Rightarrow> parser_event \<Rightarrow> parser_event option" where
  "join_events (Piece c) (Piece d) = map_option Piece (join_chunks c d)"
| "join_events _ _ = None"

definition merge_events :: "parser_event list \<Rightarrow> parser_event list" where
  "merge_events = merge_by join_events"

text \<open>The context after events that are all accepted.\<close>

definition after_events ::
    "platform \<Rightarrow> matcher \<Rightarrow> 'p conn \<Rightarrow> parser_event list \<Rightarrow> 'p conn option res" where
  "after_events pf m ctx es =
     bind_res (handle_events pf m ctx es 0)
       (\<lambda>(r, ctx'). Inr (if r = None then Some ctx' else None))"

lemma handle_events_index:
  "handle_events pf m ctx es (i + k) =
     bind_res (handle_events pf m ctx es i) (\<lambda>(r, ctx'). Inr (map_option (\<lambda>j. j + k) r, ctx'))"
proof (induction es arbitrary: ctx i)
  case (Cons e es)
  show ?case
  proof (cases "handle_event pf m ctx e")
    case (Inr p)
    then show ?thesis using Cons [of "snd p" "Suc i"] by (cases p) simp
  qed simp
qed simp

lemma after_events_Nil: "after_events pf m ctx [] = Inr (Some ctx)"
  by (simp add: after_events_def)

lemma after_events_Cons:
  fixes ctx :: "'p conn"
  shows "after_events pf m ctx (e # es) =
     bind_res (handle_event pf m ctx e)
       (\<lambda>(rc, ctx'). if rc \<noteq> 0 then Inr None else after_events pf m ctx' es)"
proof (cases "handle_event pf m ctx e")
  case (Inr p)
  have "bind_res (handle_events pf m ctx' es (Suc 0)) (\<lambda>(r, ctx'). Inr (if r = None then Some ctx' else None)) =
      after_events pf m ctx' es" for ctx' :: "'p conn"
    using handle_events_index [of pf m ctx' es 0 1]
    by (cases "handle_events pf m ctx' es 0") (auto simp: after_events_def)
  with Inr show ?thesis by (cases p) (simp add: after_events_def)
qed (simp add: after_events_def)

lemma after_events_append:
  "after_events pf m ctx (es @ fs) =
     bind_res (after_events pf m ctx es)
       (\<lambda>c. case c of None \<Rightarrow> Inr None | Some ctx' \<Rightarrow> after_events pf m ctx' fs)"
proof (induction es arbitrary: ctx)
  case (Cons e es)
  show ?case
  proof (cases "handle_event pf m ctx e")
    case (Inr p)
    then show ?thesis using Cons [of "snd p"] by (cases p) (simp add: after_events_Cons)
  qed (simp add: after_events_Cons)
qed (simp add: after_events_Nil)

text \<open>Splitting a value into pieces makes no difference to the context.\<close>

lemma after_join_pieces:
  assumes "join_chunks c d = Some e"
  shows "after_events pf m ctx (Piece c # Piece d # es) = after_events pf m ctx (Piece e # es)"
proof -
  obtain rc b where 1: "run_callback (builder ctx) c = (rc, b)" by fastforce
  obtain rc' b' where 2: "run_callback (builder ctx) e = (rc', b')" by fastforce
  obtain rc'' b'' where 3: "run_callback b d = (rc'', b'')" by fastforce
  have "run_callbacks (builder ctx) [c, d] = run_callbacks (builder ctx) [e]"
    by (rule run_join_chunks [OF assms])
  then have "rc \<noteq> 0 \<and> rc' \<noteq> 0 \<or> rc = 0 \<and> rc' = rc'' \<and> b' = b''"
    using 1 2 3 by (auto split: if_splits)
  then show ?thesis using 1 2 3 by (auto simp: after_events_Cons)
qed

lemma after_join_events:
  "join_events e f = Some g \<Longrightarrow>
     after_events pf m ctx (e # f # es) = after_events pf m ctx (g # es)"
  using after_join_pieces by (cases e; cases f) auto

lemma after_merge_events:
  fixes ctx :: "'p conn"
  shows "after_events pf m ctx (merge_events es) = after_events pf m ctx es"
  unfolding merge_events_def
proof (rule merge_by_invariant [where run = "after_events pf m", OF after_join_events])
  show "after_events pf m ctx (c # cs) = after_events pf m ctx (c # ds)"
    if "\<And>ctx :: 'p conn. after_events pf m ctx cs = after_events pf m ctx ds" for ctx :: "'p conn" and c cs ds
    by (simp add: after_events_Cons that cong: if_cong)
qed

section \<open>Segments of the input\<close>

text \<open>
  The documented behaviour of a streaming parser: if it accepts some bytes, it accepts them
  in two segments as well, ends in the same state, and reports the same values, perhaps in
  more pieces. (An empty segment signals the end of the input and is not meant.)
\<close>

definition accepts :: "'p http_parser \<Rightarrow> 'p \<Rightarrow> string \<Rightarrow> bool" where
  "accepts execute p s \<longleftrightarrow> parsed (execute p s) = length s"

definition streaming :: "'p http_parser \<Rightarrow> bool" where
  "streaming execute \<longleftrightarrow>
     (\<forall>p x y. x \<noteq> [] \<longrightarrow> y \<noteq> [] \<longrightarrow> accepts execute p (x @ y) \<longrightarrow>
        accepts execute p x \<and> accepts execute (next_state (execute p x)) y \<and>
        next_state (execute p (x @ y)) = next_state (execute (next_state (execute p x)) y) \<and>
        merge_events (events (execute p (x @ y))) =
          merge_events (events (execute p x) @ events (execute (next_state (execute p x)) y)))"

lemma streamingD:
  assumes "streaming execute" "x \<noteq> []" "y \<noteq> []" "accepts execute p (x @ y)"
  shows "accepts execute p x \<and> accepts execute (next_state (execute p x)) y \<and>
    next_state (execute p (x @ y)) = next_state (execute (next_state (execute p x)) y) \<and>
    merge_events (events (execute p (x @ y))) =
      merge_events (events (execute p x) @ events (execute (next_state (execute p x)) y))"
  using assms unfolding streaming_def by blast

lemma handle_event_parser:
  "handle_event pf m (ctx\<lparr>parser := p\<rparr>) e =
     bind_res (handle_event pf m ctx e) (\<lambda>(rc, c). Inr (rc, c\<lparr>parser := p\<rparr>))"
proof (cases e)
  case (Piece c)
  then show ?thesis by (cases "run_callback (builder ctx) c") simp
next
  case (MessageComplete k)
  then show ?thesis
    by (cases "get_response pf m (builder ctx) k") (simp_all add: message_complete_def Let_def)
qed

lemma after_events_parser:
  "after_events pf m (ctx\<lparr>parser := p\<rparr>) es =
     bind_res (after_events pf m ctx es) (\<lambda>c. Inr (map_option (\<lambda>c. c\<lparr>parser := p\<rparr>) c))"
proof (induction es arbitrary: ctx)
  case (Cons e es)
  show ?case
  proof (cases "handle_event pf m ctx e")
    case (Inr q)
    then show ?thesis using Cons [of "snd q"] by (cases q) (simp add: after_events_Cons handle_event_parser)
  qed (simp add: after_events_Cons handle_event_parser)
qed (simp add: after_events_Nil)

lemma execute_accepted:
  assumes "after_events pf m ctx (events (execute (parser ctx) data)) = Inr (Some c)"
  shows "http_parser_execute execute pf m ctx data =
    Inr (parsed (execute (parser ctx) data), c\<lparr>parser := next_state (execute (parser ctx) data)\<rparr>)"
  using assms
  by (auto simp: after_events_def http_parser_execute_def bind_res_Inr_iff Let_def split: if_splits)

text \<open>Reading the bytes in any segments is reading them at once.\<close>

lemma read_extents_concat:
  assumes str: "streaming execute"
  shows "xs \<noteq> [] \<Longrightarrow> [] \<notin> set xs \<Longrightarrow> accepts execute (parser ctx) (concat xs) \<Longrightarrow>
    after_events pf m ctx (events (execute (parser ctx) (concat xs))) = Inr (Some c) \<Longrightarrow>
    read_extents execute pf m ctx d xs =
      Inr (Some (c\<lparr>parser := next_state (execute (parser ctx) (concat xs))\<rparr>), d + length (concat xs))"
proof (induction xs arbitrary: ctx c d)
  case (Cons x xs)
  show ?case
  proof (cases "xs = []")
    case True
    with Cons.prems show ?thesis by (simp add: execute_accepted accepts_def)
  next
    case False
    let ?p = "parser ctx" and ?y = "concat xs"
    let ?q = "next_state (execute ?p x)"
    have "x \<noteq> []" using Cons.prems(2) by auto
    moreover have "?y \<noteq> []" using Cons.prems(2) False by (cases xs) auto
    moreover have "accepts execute ?p (x @ ?y)" using Cons.prems(3) by simp
    ultimately have s:
      "accepts execute ?p x" "accepts execute ?q ?y"
      "next_state (execute ?p (x @ ?y)) = next_state (execute ?q ?y)"
      "merge_events (events (execute ?p (x @ ?y))) =
         merge_events (events (execute ?p x) @ events (execute ?q ?y))"
      using streamingD [OF str] by blast+
    have "after_events pf m ctx (merge_events (events (execute ?p (x @ ?y)))) = Inr (Some c)"
      using Cons.prems(4) by (simp only: after_merge_events concat.simps)
    then have "after_events pf m ctx (events (execute ?p x) @ events (execute ?q ?y)) = Inr (Some c)"
      by (simp only: s(4) after_merge_events)
    then obtain c1 where c1: "after_events pf m ctx (events (execute ?p x)) = Inr (Some c1)"
      "after_events pf m c1 (events (execute ?q ?y)) = Inr (Some c)"
      by (auto simp: after_events_append bind_res_Inr_iff split: option.splits)
    have step: "http_parser_execute execute pf m ctx x = Inr (length x, c1\<lparr>parser := ?q\<rparr>)"
      using execute_accepted [where execute = execute and data = x, OF c1(1)] s(1) by (simp add: accepts_def)
    have "after_events pf m (c1\<lparr>parser := ?q\<rparr>) (events (execute ?q ?y)) = Inr (Some (c\<lparr>parser := ?q\<rparr>))"
      using c1(2) by (simp add: after_events_parser)
    then show ?thesis
      using Cons.IH [of "c1\<lparr>parser := ?q\<rparr>" "c\<lparr>parser := ?q\<rparr>" "d + length x"] step s False Cons.prems(2)
      by simp
  qed
qed simp

section \<open>One request\<close>

lemma after_pieces:
  assumes "run_callbacks (builder ctx) cs = (0, b)"
  shows "after_events pf m ctx (map Piece cs) = Inr (Some (ctx\<lparr>builder := b\<rparr>))"
  using assms
proof (induction cs arbitrary: ctx)
  case (Cons c cs)
  obtain rc b1 where 1: "run_callback (builder ctx) c = (rc, b1)" by fastforce
  with Cons.prems have "rc = 0" "run_callbacks b1 cs = (0, b)" by (auto split: if_splits)
  with 1 Cons.IH [of "ctx\<lparr>builder := b1\<rparr>"] show ?case by (simp add: after_events_Cons)
qed (simp add: after_events_Nil)

lemma after_request:
  assumes "run_callbacks (builder ctx) cs = (0, b)" "get_response pf m b k = Inr resp"
  shows "after_events pf m ctx (map Piece cs @ [MessageComplete k]) =
    Inr (Some (ctx\<lparr>builder := b, written := written ctx @ [to_string resp]\<rparr>))"
  using assms(2)
  by (simp add: after_events_append after_pieces [OF assms(1)] after_events_Cons after_events_Nil
      message_complete_def)

lemma read_request:
  assumes "streaming execute" and "xs \<noteq> []" and "[] \<notin> set xs"
    and "accepts execute p (concat xs)"
    and "merge_events (events (execute p (concat xs))) =
           merge_events (map Piece cs @ [MessageComplete k])"
    and "run_callbacks RequestBuilder cs = (0, b)" and "get_response pf m b k = Inr resp"
  shows "\<exists>c. available execute pf m (Some (RequestContext p)) xs = Inr (Some c, length (concat xs)) \<and>
    builder c = b \<and> written c = [to_string resp] \<and> write_complete (Some c) = Inr None"
proof -
  let ?ctx = "RequestContext p"
  have ctx: "parser ?ctx = p" "builder ?ctx = RequestBuilder" "written ?ctx = []"
    by (simp_all add: RequestContext_def)
  let ?c = "?ctx\<lparr>builder := b, written := [to_string resp]\<rparr>"
  have "after_events pf m ?ctx (map Piece cs @ [MessageComplete k]) = Inr (Some ?c)"
    using after_request [of ?ctx cs b pf m k resp] assms(6,7) ctx by simp
  then have "after_events pf m ?ctx (merge_events (events (execute p (concat xs)))) = Inr (Some ?c)"
    unfolding assms(5) after_merge_events .
  then have "after_events pf m ?ctx (events (execute (parser ?ctx) (concat xs))) = Inr (Some ?c)"
    unfolding after_merge_events ctx .
  from read_extents_concat [OF assms(1-3) _ this, of 0] assms(4) ctx
  show ?thesis
    by (simp add: available_def live_context_def write_complete_def delete_context_def)
qed

section \<open>Completions\<close>

text \<open>The stream reports the completion of each of \<open>n\<close> writes, one after the other.\<close>

definition complete_writes :: "nat \<Rightarrow> 'p conn option \<Rightarrow> 'p conn option res" where
  "complete_writes n c = fold_res (\<lambda>c _. write_complete c) c [0..<n]"

lemma complete_writes_simps:
  "complete_writes 0 c = Inr c"
  "complete_writes (Suc n) c = bind_res (complete_writes n c) write_complete"
  by (simp_all add: complete_writes_def fold_res_append)

lemma complete_writes_eq:
  "complete_writes n (Some ctx) =
     (if n = 0 then Inr (Some ctx) else if n = 1 then Inr None else Inl Undef)"
proof (induction n)
  case (Suc n)
  then show ?case
    by (auto simp: complete_writes_simps write_complete_def delete_context_def live_context_def)
qed (simp add: complete_writes_simps)

fun is_complete :: "parser_event \<Rightarrow> bool" where
  "is_complete (MessageComplete k) = True"
| "is_complete (Piece c) = False"

text \<open>Every complete message causes one write.\<close>

lemma after_events_written:
  "after_events pf m ctx es = Inr (Some c) \<Longrightarrow>
     length (written c) = length (written ctx) + length (filter is_complete es)"
proof (induction es arbitrary: ctx)
  case (Cons e es)
  then obtain rc c1 where 1: "handle_event pf m ctx e = Inr (rc, c1)" "rc = 0"
    "after_events pf m c1 es = Inr (Some c)"
    by (auto simp: after_events_Cons bind_res_Inr_iff split: if_splits)
  have "length (written c1) = length (written ctx) + length (filter is_complete [e])"
    using 1(1,2) by (cases e) (auto simp: message_complete_def bind_res_Inr_iff Let_def split: prod.splits)
  with Cons.IH [OF 1(3)] show ?case by simp
qed (simp add: after_events_Nil)

text \<open>The builder is not reset: the URL of a second message is appended to that of the first.\<close>

lemma second_request_url:
  assumes "after_events pf m (RequestContext p) [Piece (Url u), MessageComplete k, Piece (Url v)] = Inr (Some c)"
  shows "url (builder c) = u @ v"
  using assms
  by (auto simp: after_events_Cons after_events_Nil bind_res_Inr_iff message_complete_def Let_def on_url_def
      RequestContext_def RequestBuilder_def)

section \<open>A parser\<close>

text \<open>A concrete streaming parser: one URL per line, every line is a GET request.\<close>

definition line_event :: "char \<Rightarrow> parser_event" where
  "line_event c = (if c = CHR 0x0A then MessageComplete 1 else Piece (Url [c]))"

definition line_parser :: "unit http_parser" where
  "line_parser p s = \<lparr>events = map line_event s, parsed = length s, next_state = (),
     on_refusal = (\<lambda>i. (i, ()))\<rparr>"

lemma streaming_line_parser: "streaming line_parser"
  by (simp add: streaming_def line_parser_def accepts_def)

section \<open>Properties\<close>

text \<open>A complete request that the parser reports, in whatever pieces and however the network cuts its
  bytes into extents, is answered with exactly one write, of the text of the response to the
  request as a whole; all bytes are drained, and the completion of the write deletes the context.\<close>

theorem request_answered_once:
  assumes "streaming execute" and "xs \<noteq> []" and "[] \<notin> set xs"
    and "accepts execute p (concat xs)"
    and "merge_events (events (execute p (concat xs))) =
           merge_events (map Piece cs @ [MessageComplete k])"
    and "run_callbacks RequestBuilder cs = (0, b)" and "get_response pf m b k = Inr resp"
  shows "\<exists>c. available execute pf m (Some (RequestContext p)) xs = Inr (Some c, length (concat xs)) \<and>
    builder c = b \<and> written c = [to_string resp] \<and> write_complete (Some c) = Inr None"
  using read_request [OF assms] .

theorem request_answered_once_witness:
  "\<exists>c. available line_parser
         \<lparr>mm_ins = insert_back, url_parse = (\<lambda>u. Some \<lparr>path_field = None, query_field = None\<rparr>),
          set_first = set_begin_rb\<rparr> ResourceMatcher (Some (RequestContext ()))
         [''/a'', ''b'' @ [CHR 0x0A]] = Inr (Some c, 4) \<and>
       written c = [to_string notFound]"
proof -
  let ?pf = "\<lparr>mm_ins = insert_back, url_parse = (\<lambda>u. Some \<lparr>path_field = None, query_field = None\<rparr>),
      set_first = set_begin_rb\<rparr>"
  let ?xs = "[''/a'', ''b'' @ [CHR 0x0A]]"
  let ?b = "RequestBuilder\<lparr>url := ''/ab''\<rparr>"
  have e: "merge_events (events (line_parser () (concat ?xs))) =
      merge_events (map Piece [Url ''/ab''] @ [MessageComplete 1])" by code_simp
  have a: "accepts line_parser () (concat ?xs)" by (simp add: accepts_def line_parser_def)
  have r: "run_callbacks RequestBuilder [Url ''/ab''] = (0, ?b)"
    by (simp add: RequestBuilder_def on_url_def)
  have "build (mm_ins ?pf) (url_parse ?pf) ?b 1 = Inr (Request ''/'' '''' GET [] [] [])"
    by (simp add: build_def convertMethod_def RequestBuilder_def)
  moreover have "\<nexists>ts. candidate ResourceMatcher (path_components (rpath (Request ''/'' '''' GET [] [] []))) ts"
    by (simp add: candidate_def routes_ResourceMatcher)
  ultimately have g: "get_response ?pf ResourceMatcher ?b 1 = Inr notFound"
    using match_rb.response_not_found [OF wf_ResourceMatcher, of ?pf] by simp
  from request_answered_once [OF streaming_line_parser _ _ a e r g] show ?thesis by auto
qed

text \<open>Every complete message the parser reports causes one write with the callback of the context. If
  the stream completes these writes, all is well with at most one; with more (pipelined requests),
  the second completion reaches the context that the first one has deleted.\<close>

theorem pipelined_requests:
  assumes "after_events pf m (RequestContext p) es = Inr (Some c)"
  shows "length (written c) = length (filter is_complete es) \<and>
    complete_writes (length (written c)) (Some c) =
      (if filter is_complete es = [] then Inr (Some c)
       else if length (filter is_complete es) = 1 then Inr None else Inl Undef)"
  using after_events_written [OF assms] by (simp add: complete_writes_eq RequestContext_def)

theorem pipelined_requests_witness:
  "\<exists>c. after_events
         \<lparr>mm_ins = insert_back, url_parse = (\<lambda>u. None), set_first = set_begin_rb\<rparr> ResourceMatcher
         (RequestContext ()) [Piece (Url ''/a''), MessageComplete 1, Piece (Url ''/b''), MessageComplete 1] =
         Inr (Some c) \<and> complete_writes 2 (Some c) = Inl Undef"
proof -
  let ?pf = "\<lparr>mm_ins = insert_back, url_parse = (\<lambda>u. None), set_first = set_begin_rb\<rparr>"
  let ?es = "[Piece (Url ''/a''), MessageComplete 1, Piece (Url ''/b''), MessageComplete 1]"
  have "\<exists>c. after_events ?pf ResourceMatcher (RequestContext ()) ?es = Inr (Some c)"
    by (simp add: after_events_Cons after_events_Nil message_complete_def get_response_def build_def
        on_url_def Let_def)
  then obtain c where c: "after_events ?pf ResourceMatcher (RequestContext ()) ?es = Inr (Some c)" ..
  from pipelined_requests [OF c] c show ?thesis by (auto simp: numeral_2_eq_2)
qed

end
