(* ===== verification/Serving.thy ===== *)
theory Serving
  imports Connection Refinement
begin

text \<open>
  Many connections on one instance: \<open>acceptCb\<close> creates a context per socket and gives it to a
  worker, and the callbacks of the streams of all connections interleave in any order. The
  connections share the routes and the process-wide counter of \<open>chooseBase\<close>, nothing else, so
  each of them goes through the same states as if it were alone, and the faults of the whole
  are the faults of single connections.
\<close>

section \<open>One connection\<close>

text \<open>What the stream of a connection reports to the callbacks of its context.\<close>

datatype conn_event =
    Available "string list"
  | EndOfFile
  | ReadError
  | WriteError
  | WriteComplete

text \<open>What is seen of an event: the number of bytes drained, or nothing.\<close>

datatype 'b observation = Accepted 'b | Drained nat | Silent

fun conn_step ::
    "'p http_parser \<Rightarrow> platform \<Rightarrow> matcher \<Rightarrow> 'p conn option \<Rightarrow> conn_event \<Rightarrow>
     ('b observation \<times> 'p conn option) res" where
  "conn_step execute pf m c (Available extents) =
     bind_res (available execute pf m c extents) (\<lambda>(c', drain). Inr (Drained drain, c'))"
| "conn_step execute pf m c EndOfFile = bind_res (eof execute pf m c) (\<lambda>c'. Inr (Silent, c'))"
| "conn_step execute pf m c ReadError = bind_res (read_error c) (\<lambda>c'. Inr (Silent, c'))"
| "conn_step execute pf m c WriteError = bind_res (write_error c) (\<lambda>c'. Inr (Silent, c'))"
| "conn_step execute pf m c WriteComplete = bind_res (write_complete c) (\<lambda>c'. Inr (Silent, c'))"

section \<open>All connections\<close>

datatype serving_event = Accept | On nat conn_event

text \<open>Connections are numbered in the order in which they are accepted; each has its worker and
  its context, \<open>None\<close> once deleted.\<close>

record ('p, 'b) serving =
  counter :: "32 word"
  connections :: "('b \<times> 'p conn option) list"

definition idle :: "32 word \<Rightarrow> ('p, 'b) serving" where
  "idle iter = \<lparr>counter = iter, connections = []\<rparr>"

fun serve ::
    "'p http_parser \<Rightarrow> platform \<Rightarrow> 'p \<Rightarrow> 'b server_instance \<Rightarrow> ('p, 'b) serving \<Rightarrow> serving_event \<Rightarrow>
     ('b observation \<times> ('p, 'b) serving) res" where
  "serve execute pf p0 inst s Accept =
     bind_res (acceptCb p0 (counter s) inst) (\<lambda>(iter', base, ctx).
       Inr (Accepted base, \<lparr>counter = iter', connections = connections s @ [(base, Some ctx)]\<rparr>))"
| "serve execute pf p0 inst s (On i e) =
     (if i < length (connections s)
      then bind_res (conn_step execute pf (matcher inst) (snd (connections s ! i)) e) (\<lambda>(out, c').
        Inr (out, s\<lparr>connections := (connections s)[i := (fst (connections s ! i), c')]\<rparr>))
      else Inl Undef)"

text \<open>The events of one connection, the number of connections, and that events only name
  connections that were accepted before.\<close>

fun own_events :: "nat \<Rightarrow> serving_event list \<Rightarrow> conn_event list" where
  "own_events i [] = []"
| "own_events i (Accept # es) = own_events i es"
| "own_events i (On j e # es) = (if j = i then e # own_events i es else own_events i es)"

fun accepts_of :: "serving_event list \<Rightarrow> nat" where
  "accepts_of [] = 0"
| "accepts_of (Accept # es) = Suc (accepts_of es)"
| "accepts_of (On j e # es) = accepts_of es"

fun ordered_from :: "nat \<Rightarrow> serving_event list \<Rightarrow> bool" where
  "ordered_from n [] \<longleftrightarrow> True"
| "ordered_from n (Accept # es) \<longleftrightarrow> ordered_from (Suc n) es"
| "ordered_from n (On j e # es) \<longleftrightarrow> j < n \<and> ordered_from n es"

lemma own_events_append: "own_events i (es @ fs) = own_events i es @ own_events i fs"
  by (induction i es rule: own_events.induct) simp_all

lemma accepts_of_append: "accepts_of (es @ fs) = accepts_of es + accepts_of fs"
  by (induction es rule: accepts_of.induct) simp_all

lemma ordered_from_append:
  "ordered_from n (es @ fs) \<longleftrightarrow> ordered_from n es \<and> ordered_from (n + accepts_of es) fs"
  by (induction n es rule: ordered_from.induct) auto

lemma own_events_none: "ordered_from n es \<Longrightarrow> n + accepts_of es \<le> i \<Longrightarrow> own_events i es = []"
  by (induction n es rule: ordered_from.induct) auto

text \<open>The life of one connection by itself.\<close>

definition alone ::
    "'p http_parser \<Rightarrow> platform \<Rightarrow> 'p \<Rightarrow> matcher \<Rightarrow> conn_event list \<Rightarrow>
     ('b observation list \<times> 'p conn option) res" where
  "alone execute pf p0 m es = history (conn_step execute pf m) (Some (RequestContext p0)) es"

lemma alone_snoc:
  "alone execute pf p0 m (es @ [e]) =
     bind_res (alone execute pf p0 m es) (\<lambda>(outs, c).
       bind_res (conn_step execute pf m c e) (\<lambda>(out, c'). Inr (outs @ [out], c')))"
  unfolding alone_def history_append
  by (rule bind_res_cong [OF refl]) (auto simp: bind_res_assoc split_def)

section \<open>Each connection as if it were alone\<close>

lemma choose_run_snoc:
  assumes "choose_run iter inst n = Inr bs" "chooseBase (iter + of_nat n) inst = Inr (iter', b)"
  shows "choose_run iter inst (Suc n) = Inr (bs @ [b])"
  using assms
proof (induction n arbitrary: iter bs)
  case (Suc n)
  from Suc.prems(1) obtain i1 b1 bs1 where
    1: "chooseBase iter inst = Inr (i1, b1)" "choose_run i1 inst n = Inr bs1" "bs = b1 # bs1"
    by (auto simp: bind_res_Inr_iff)
  have "i1 = iter + 1" using 1(1) by (auto simp: chooseBase_def bind_res_Inr_iff Let_def split: if_splits)
  then have "iter + of_nat (Suc n) = i1 + of_nat n" by simp
  then have "chooseBase (i1 + of_nat n) inst = Inr (iter', b)" using Suc.prems(2) by (simp only:)
  from Suc.IH [OF 1(2) this] 1 show ?case by simp
qed simp

lemma map_fst_update: "j < length xs \<Longrightarrow> map fst (xs[j := (fst (xs ! j), c)]) = map fst xs"
  by (simp add: map_update) (metis list_update_id nth_map)

text \<open>The state after a history without a fault.\<close>

definition as_alone ::
    "'p http_parser \<Rightarrow> platform \<Rightarrow> 'p \<Rightarrow> 'b server_instance \<Rightarrow> 32 word \<Rightarrow> serving_event list \<Rightarrow>
     ('p, 'b) serving \<Rightarrow> bool" where
  "as_alone execute pf p0 inst iter es s \<longleftrightarrow>
     length (connections s) = accepts_of es \<and>
     counter s = iter + of_nat (accepts_of es) \<and>
     choose_run iter inst (accepts_of es) = Inr (map fst (connections s)) \<and>
     (\<forall>i<accepts_of es. \<exists>outs :: 'b observation list.
        alone execute pf p0 (matcher inst) (own_events i es) = Inr (outs, snd (connections s ! i)))"

lemma as_alone_accept:
  fixes inst :: "'b server_instance"
  assumes s: "as_alone execute pf p0 inst iter es s" and ord: "ordered_from 0 es"
    and "bases inst \<noteq> []"
  shows "\<exists>b s'. serve execute pf p0 inst s Accept = Inr (Accepted b, s') \<and>
    as_alone execute pf p0 inst iter (es @ [Accept]) s'"
proof -
  let ?n = "accepts_of es"
  obtain b where b: "chooseBase (counter s) inst = Inr (counter s + 1, b)"
    using chooseBase_defined [OF assms(3)] by blast
  let ?s' = "\<lparr>counter = counter s + 1, connections = connections s @ [(b, Some (RequestContext p0))]\<rparr>"
  have "serve execute pf p0 inst s Accept = Inr (Accepted b, ?s')"
    using b by (simp add: acceptCb_def)
  moreover have "as_alone execute pf p0 inst iter (es @ [Accept]) ?s'"
    unfolding as_alone_def
  proof (intro conjI allI impI)
    show "choose_run iter inst (accepts_of (es @ [Accept])) = Inr (map fst (connections ?s'))"
      using choose_run_snoc [of iter inst ?n "map fst (connections s)" "counter s + 1" b] s b
      by (simp add: as_alone_def accepts_of_append)
  next
    fix i
    assume i: "i < accepts_of (es @ [Accept])"
    show "\<exists>outs :: 'b observation list. alone execute pf p0 (matcher inst) (own_events i (es @ [Accept])) =
        Inr (outs, snd (connections ?s' ! i))"
    proof (cases "i < ?n")
      case True
      with s show ?thesis by (simp add: as_alone_def own_events_append nth_append)
    next
      case False
      with i have "i = ?n" by (simp add: accepts_of_append)
      with own_events_none [OF ord, of i] s show ?thesis
        by (simp add: as_alone_def own_events_append alone_def nth_append)
    qed
  qed (use s in \<open>simp_all add: as_alone_def accepts_of_append\<close>)
  ultimately show ?thesis by blast
qed

lemma as_alone_on:
  fixes inst :: "'b server_instance"
  assumes s: "as_alone execute pf p0 inst iter es s" and j: "j < accepts_of es"
    and c: "conn_step execute pf (matcher inst) (snd (connections s ! j)) e = Inr (out :: 'b observation, c')"
  shows "as_alone execute pf p0 inst iter (es @ [On j e])
    (s\<lparr>connections := (connections s)[j := (fst (connections s ! j), c')]\<rparr>)"
proof -
  have len: "length (connections s) = accepts_of es" using s by (simp add: as_alone_def)
  have "map fst ((connections s)[j := (fst (connections s ! j), c')]) = map fst (connections s)"
    using j len by (simp add: map_fst_update)
  moreover have "\<exists>outs :: 'b observation list.
      alone execute pf p0 (matcher inst) (own_events i (es @ [On j e])) =
        Inr (outs, snd ((connections s)[j := (fst (connections s ! j), c')] ! i))"
    if i: "i < accepts_of es" for i
  proof -
    from s i obtain outs :: "'b observation list" where
      a: "alone execute pf p0 (matcher inst) (own_events i es) = Inr (outs, snd (connections s ! i))"
      unfolding as_alone_def by blast
    show ?thesis
    proof (cases "i = j")
      case True
      with a c i len show ?thesis by (simp add: own_events_append alone_snoc)
    next
      case False
      with a show ?thesis by (simp add: own_events_append)
    qed
  qed
  ultimately show ?thesis using s by (simp add: as_alone_def accepts_of_append)
qed

text \<open>One more event, which fails only as it fails for the connection alone.\<close>

lemma as_alone_step:
  fixes inst :: "'b server_instance"
  assumes s: "as_alone execute pf p0 inst iter es s" and ord: "ordered_from 0 (es @ [e])" and "bases inst \<noteq> []"
  shows "case serve execute pf p0 inst s e of
      Inl f \<Rightarrow> \<exists>i<accepts_of (es @ [e]).
        alone execute pf p0 (matcher inst) (own_events i (es @ [e])) = (Inl f :: ('b observation list \<times> _) res)
    | Inr (out, s') \<Rightarrow> as_alone execute pf p0 inst iter (es @ [e]) s'"
proof (cases e)
  case Accept
  have "ordered_from 0 es" using ord by (simp add: ordered_from_append)
  from as_alone_accept [OF s this assms(3)] Accept show ?thesis by auto
next
  case (On j ev)
  then have j: "j < accepts_of es" using ord by (simp add: ordered_from_append)
  then have len: "j < length (connections s)" using s by (simp add: as_alone_def)
  show ?thesis
  proof (cases "conn_step execute pf (matcher inst) (snd (connections s ! j)) ev :: ('b observation \<times> _) res")
    case (Inl f)
    from s j obtain outs :: "'b observation list" where
      "alone execute pf p0 (matcher inst) (own_events j es) = Inr (outs, snd (connections s ! j))"
      unfolding as_alone_def by blast
    with Inl have "alone execute pf p0 (matcher inst) (own_events j (es @ [e])) =
        (Inl f :: ('b observation list \<times> _) res)"
      by (simp add: On own_events_append alone_snoc)
    with Inl On j len show ?thesis by (auto simp: accepts_of_append intro!: exI [of _ j])
  next
    case (Inr r)
    then obtain out c' where
      "conn_step execute pf (matcher inst) (snd (connections s ! j)) ev = Inr (out :: 'b observation, c')"
      by (cases r) auto
    from as_alone_on [OF s j this] this On len show ?thesis by simp
  qed
qed

lemma serve_cases:
  fixes inst :: "'b server_instance"
  assumes "bases inst \<noteq> []"
  shows "ordered_from 0 es \<Longrightarrow>
    (case history (serve execute pf p0 inst) (idle iter) es of
       Inl f \<Rightarrow> \<exists>i<accepts_of es.
         alone execute pf p0 (matcher inst) (own_events i es) = (Inl f :: ('b observation list \<times> _) res)
     | Inr (outs, s) \<Rightarrow> as_alone execute pf p0 inst iter es s)"
proof (induction es rule: rev_induct)
  case Nil
  show ?case by (simp add: as_alone_def idle_def)
next
  case (snoc e es)
  let ?h = "history (serve execute pf p0 inst) (idle iter)"
  have IH: "case ?h es of
      Inl f \<Rightarrow> \<exists>i<accepts_of es.
        alone execute pf p0 (matcher inst) (own_events i es) = (Inl f :: ('b observation list \<times> _) res)
    | Inr (outs, s) \<Rightarrow> as_alone execute pf p0 inst iter es s"
    using snoc by (simp add: ordered_from_append)
  show ?case
  proof (cases "?h es")
    case (Inl f)
    with IH obtain i where i: "i < accepts_of es"
      "alone execute pf p0 (matcher inst) (own_events i es) = (Inl f :: ('b observation list \<times> _) res)"
      by auto
    then have "alone execute pf p0 (matcher inst) (own_events i (es @ [e])) = (Inl f :: ('b observation list \<times> _) res)"
      by (simp add: own_events_append alone_def history_append)
    with i(1) Inl show ?thesis by (auto simp: history_append accepts_of_append intro!: exI [of _ i])
  next
    case (Inr q)
    then obtain outs s where h: "?h es = Inr (outs, s)" by (cases q) auto
    with IH have "as_alone execute pf p0 inst iter es s" by simp
    from as_alone_step [OF this snoc.prems assms] h show ?thesis
      by (cases "serve execute pf p0 inst s e") (auto simp: history_append)
  qed
qed

text \<open>Reading distinct elements cyclically uses them evenly.\<close>

lemma count_cycle:
  assumes "distinct xs" "x \<in> set xs"
  shows "count (mset (map (\<lambda>i. xs ! ((k + i) mod length xs)) [0..<n])) x
    \<in> {n div length xs, Suc (n div length xs)}"
proof (induction n rule: less_induct)
  case (less n)
  let ?m = "length xs" and ?f = "\<lambda>i. xs ! ((k + i) mod length xs)"
  have m: "0 < ?m" using assms(2) by (cases xs) auto
  show ?case
  proof (cases "n < ?m")
    case True
    then have "map ?f [0..<n] = take n (rotate k xs)"
      by (intro nth_equalityI) (simp_all add: nth_rotate)
    then have "distinct (map ?f [0..<n])" using assms(1) by (simp add: distinct_take)
    then have "count (mset (map ?f [0..<n])) x \<le> 1"
      unfolding distinct_count_atmost_1 by simp
    with True show ?thesis by auto
  next
    case False
    then obtain n' where n: "n = ?m + n'" using le_Suc_ex [of ?m n] by auto
    have "map ?f [?m..<?m + n'] = map ?f [0..<n']"
    proof (rule nth_equalityI)
      fix i
      assume "i < length (map ?f [?m..<?m + n'])"
      moreover have "(k + (?m + i)) mod ?m = (k + i) mod ?m" by (metis add.left_commute mod_add_self1)
      ultimately show "map ?f [?m..<?m + n'] ! i = map ?f [0..<n'] ! i" by simp
    qed simp
    then have "map ?f [0..<n] = map ?f [0..<?m] @ map ?f [0..<n']"
      unfolding n upt_add_eq_append [OF le0, of ?m n'] map_append by simp
    moreover have "count (mset (map ?f [0..<?m])) x = 1"
      using assms unfolding mset_cycle distinct_count_atmost_1 by simp
    ultimately have "count (mset (map ?f [0..<n])) x = Suc (count (mset (map ?f [0..<n'])) x)" by simp
    moreover have "n div ?m = Suc (n' div ?m)" using div_add_self1 [of ?m n'] m n by simp
    moreover have "n' < n" using n m by simp
    ultimately show ?thesis using less.IH [of n'] by auto
  qed
qed

lemma serve_workers:
  assumes "history (serve execute pf p0 inst) (idle iter) es = Inr (outs, s)"
  shows "choose_run iter inst (length (connections s)) = Inr (map fst (connections s))"
proof -
  let ?P = "\<lambda>s. counter s = iter + of_nat (length (connections s)) \<and>
    choose_run iter inst (length (connections s)) = Inr (map fst (connections s))"
  have "?P s"
  proof (rule history_invariant [where P = ?P, OF assms])
    show "?P (idle iter)" by (simp add: idle_def)
  next
    fix e s out s'
    assume P: "?P s" and st: "serve execute pf p0 inst s e = Inr (out, s')"
    show "?P s'"
    proof (cases e)
      case Accept
      with st obtain iter' b where b: "chooseBase (counter s) inst = Inr (iter', b)"
        "s' = \<lparr>counter = iter', connections = connections s @ [(b, Some (RequestContext p0))]\<rparr>"
        by (auto simp: acceptCb_def bind_res_Inr_iff)
      have "iter' = counter s + 1"
        using b(1) by (auto simp: chooseBase_def bind_res_Inr_iff Let_def split: if_splits)
      with P b choose_run_snoc [of iter inst "length (connections s)" "map fst (connections s)" iter' b]
      show ?thesis by simp
    next
      case (On j e)
      with st P show ?thesis
        by (auto simp: bind_res_Inr_iff map_fst_update split: if_splits)
    qed
  qed
  then show ?thesis by simp
qed

section \<open>Properties\<close>

text \<open>C16: Connections do not influence each other: whatever their events and however these interleave, a
  history of all of them fails only as one of them fails alone, and otherwise each connection has
  the worker its turn assigns it and exactly the context its own events alone would have led to.\<close>

theorem connections_independent:
  assumes "bases inst \<noteq> []" and "ordered_from 0 es"
  shows "case history (serve execute pf p0 inst) (idle iter) es of
      Inl f \<Rightarrow> \<exists>i<accepts_of es.
        alone execute pf p0 (matcher inst) (own_events i es) = (Inl f :: ('b observation list \<times> _) res)
    | Inr (outs, s) \<Rightarrow>
        length (connections s) = accepts_of es \<and>
        choose_run iter (inst :: 'b server_instance) (accepts_of es) = Inr (map fst (connections s)) \<and>
        (\<forall>i<accepts_of es. \<exists>outs :: 'b observation list.
           alone execute pf p0 (matcher inst) (own_events i es) = Inr (outs, snd (connections s ! i)))"
  using serve_cases [OF assms, of execute pf p0 iter] by (simp add: as_alone_def split: sum.splits prod.splits)

text \<open>Two connections, of which the second fails while the first is being read.\<close>

definition four_workers :: "nat server_instance" where
  "four_workers = (ServerInstance ''127.0.0.1'' 80)\<lparr>bases := [0, 1, 2, 3], listener := Some Accepting\<rparr>"

definition plain_platform :: platform where
  "plain_platform = \<lparr>mm_ins = insert_back,
     url_parse = (\<lambda>u. Some \<lparr>path_field = Some (0, length u), query_field = None\<rparr>), set_first = set_begin_rb\<rparr>"

theorem connections_independent_witness:
  "\<exists>outs s c. history (serve line_parser plain_platform () four_workers) (idle 0)
       [Accept, Accept, On 0 (Available [''/a'']), On 1 ReadError, On 0 (Available [''b''])] = Inr (outs, s) \<and>
     connections s = [(1, Some c), (2, None)] \<and> url (builder c) = ''/ab''"
proof -
  let ?es = "[Accept, Accept, On 0 (Available [''/a'']), On 1 ReadError, On 0 (Available [''b''])]"
  let ?alone = "\<lambda>es. alone line_parser plain_platform () (matcher four_workers) es ::
    (nat observation list \<times> unit conn option) res"
  let ?c = "RequestContext ()\<lparr>builder := RequestBuilder\<lparr>url := ''/ab''\<rparr>\<rparr>"
  have b: "bases four_workers \<noteq> []" by (simp add: four_workers_def)
  have own: "own_events 0 ?es = [Available [''/a''], Available [''b'']]" "own_events 1 ?es = [ReadError]" by simp_all
  have 0: "?alone (own_events 0 ?es) = Inr ([Drained 2, Drained 1], Some ?c)"
    unfolding own by (simp add: alone_def available_def live_context_def http_parser_execute_def line_parser_def
        line_event_def RequestContext_def RequestBuilder_def on_url_def Let_def)
  have 1: "?alone (own_events 1 ?es) = Inr ([Silent], None)"
    unfolding own by (simp add: alone_def read_error_def delete_context_def live_context_def)
  have two: "i < accepts_of ?es \<Longrightarrow> i = 0 \<or> i = 1" for i by auto
  have ord: "ordered_from 0 ?es" and acc: "accepts_of ?es = 2" by simp_all
  note ind = connections_independent [OF b ord, of line_parser plain_platform "()" 0]
  then obtain outs s where s: "history (serve line_parser plain_platform () four_workers) (idle 0) ?es = Inr (outs, s)"
    using 0 1 two by (cases "history (serve line_parser plain_platform () four_workers) (idle 0) ?es") fastforce+
  have w: "choose_run 0 four_workers 2 = Inr [1, 2]"
  proof -
    have l: "[0..<2] = [0, 1 :: nat]" by (simp add: upt_rec)
    have "length (bases four_workers) = 4" by (simp add: four_workers_def)
    from choose_run_4 [OF this, of 0 2] show ?thesis unfolding l by (simp add: four_workers_def)
  qed
  from ind have I: "length (connections s) = 2 \<and> choose_run 0 four_workers 2 = Inr (map fst (connections s)) \<and>
      (\<forall>i<2. \<exists>outs. ?alone (own_events i ?es) = Inr (outs, snd (connections s ! i)))"
    unfolding s sum.case prod.case acc .
  have own': "\<exists>outs. ?alone (own_events i ?es) = Inr (outs, snd (connections s ! i))" if "i < 2" for i
    using I that by blast
  have "length (connections s) = 2" "map fst (connections s) = [1, 2]" using I w by simp_all
  moreover have "snd (connections s ! 0) = Some ?c" "snd (connections s ! 1) = None"
    using own' [of 0] own' [of 1] unfolding 0 1 by auto
  ultimately have "connections s = [(1, Some ?c), (2, None)]"
    by (cases "connections s"; cases "tl (connections s)") (auto simp: numeral_2_eq_2)
  with s show ?thesis by (intro exI [of _ outs] exI [of _ s] exI [of _ ?c]) simp
qed

text \<open>The connections are spread evenly over the four workers: after any history, with any initial value
  of the counter, the numbers of connections given to two workers differ by at most one.\<close>

theorem connections_balanced:
  assumes "length (bases inst) = 4" and "distinct (bases inst)"
    and "history (serve execute pf p0 inst) (idle iter) es = Inr (outs, s)"
    and "b \<in> set (bases inst)" and "b' \<in> set (bases inst)"
  shows "count (mset (map fst (connections s))) b \<le> Suc (count (mset (map fst (connections s))) b')"
proof -
  let ?n = "length (connections s)"
  have "map fst (connections s) = map (\<lambda>i. bases inst ! ((unat iter + 1 + i) mod length (bases inst))) [0..<?n]"
    using serve_workers [OF assms(3)] choose_run_4 [OF assms(1), of iter ?n] assms(1) by simp
  with count_cycle [OF assms(2,4), of "unat iter + 1" ?n] count_cycle [OF assms(2,5), of "unat iter + 1" ?n]
  show ?thesis by auto
qed

theorem connections_balanced_witness:
  "\<exists>outs s. history (serve line_parser plain_platform () four_workers) (idle (- 2))
       [Accept, Accept, On 0 ReadError, Accept, Accept, Accept] = Inr (outs, s) \<and>
     count (mset (map fst (connections s))) 3 \<le> Suc (count (mset (map fst (connections s))) 0)"
proof -
  let ?es = "[Accept, Accept, On 0 ReadError, Accept, Accept, Accept]"
  have b: "length (bases four_workers) = 4" "distinct (bases four_workers)"
    "3 \<in> set (bases four_workers)" "0 \<in> set (bases four_workers)"
    by (simp_all add: four_workers_def)
  have ne: "bases four_workers \<noteq> []" by (simp add: four_workers_def)
  have "\<exists>outs s. history (serve line_parser plain_platform () four_workers) (idle (- 2)) ?es = Inr (outs, s)"
  proof (cases "history (serve line_parser plain_platform () four_workers) (idle (- 2)) ?es")
    case (Inl f)
    with serve_cases [OF ne, of ?es line_parser plain_platform "()" "- 2"] obtain i where
      i: "alone line_parser plain_platform () (matcher four_workers) (own_events i ?es) =
        (Inl f :: (nat observation list \<times> unit conn option) res)" by auto
    have "own_events i ?es = [] \<or> own_events i ?es = [ReadError]" by auto
    with i show ?thesis
      by (auto simp: alone_def read_error_def delete_context_def live_context_def)
  qed auto
  then obtain outs s where
    s: "history (serve line_parser plain_platform () four_workers) (idle (- 2)) ?es = Inr (outs, s)" by blast
  from connections_balanced [OF b(1,2) s b(3,4)] s show ?thesis by blast
qed

end
