(* ===== verification/System.thy ===== *)
theory System
  imports Server_Spec Serving
begin

text \<open>
  The whole running program: a server with its application and admin instances, the process-wide
  counter of \<open>chooseBase\<close>, and the connections both instances have accepted. A step is an event of
  the server, the accepting of a connection by an instance that listens, or an event of the stream
  of a connection. The last one happens on the thread of the connection's worker base, so it needs
  that base to exist.
\<close>

section \<open>States and steps\<close>

datatype instance_kind = Application | Admin

record 'p connection =
  origin :: instance_kind
  worker :: nat
  ctx :: "'p conn option"

record 'p system =
  server :: server_impl
  accept_counter :: "32 word"
  open_connections :: "'p connection list"

fun instance_of :: "instance_kind \<Rightarrow> server_impl \<Rightarrow> nat server_instance option" where
  "instance_of Application s = Some (application s)"
| "instance_of Admin s = admin_server s"

definition accept_connection ::
    "'p \<Rightarrow> instance_kind \<Rightarrow> nat server_instance \<Rightarrow> 'p system \<Rightarrow> 'p system res" where
  "accept_connection p0 k i y =
     bind_res (acceptCb p0 (accept_counter y) i) (\<lambda>(iter', b, c).
       Inr (y\<lparr>accept_counter := iter',
              open_connections := open_connections y @ [\<lparr>origin = k, worker = b, ctx = Some c\<rparr>]\<rparr>))"

definition stream_event ::
    "'p http_parser \<Rightarrow> platform \<Rightarrow> nat server_instance \<Rightarrow> nat \<Rightarrow> conn_event \<Rightarrow> 'p system \<Rightarrow>
     (nat observation \<times> 'p system) res" where
  "stream_event execute pf i j e y =
     (let c = open_connections y ! j in
      bind_res (conn_step execute pf (matcher i) (ctx c) e) (\<lambda>(out, ctx').
        Inr (out, y\<lparr>open_connections := (open_connections y)[j := c\<lparr>ctx := ctx'\<rparr>]\<rparr>)))"

text \<open>A connection is served when its worker runs and its instance exists.\<close>

definition served_by :: "'p system \<Rightarrow> 'p connection \<Rightarrow> nat server_instance \<Rightarrow> bool" where
  "served_by y c i \<longleftrightarrow>
     worker c \<in> set (live_bases (server y)) \<and> instance_of (origin c) (server y) = Some i"

inductive system_step :: "'p http_parser \<Rightarrow> platform \<Rightarrow> 'p \<Rightarrow> string \<Rightarrow> 'p system \<Rightarrow> 'p system \<Rightarrow> bool"
  for execute pf p0 serialize where
  sys_server: "server_event serialize (server y) e = Inr (out, s') \<Longrightarrow>
    system_step execute pf p0 serialize y (y\<lparr>server := s'\<rparr>)"
| sys_accept: "instance_of k (server y) = Some i \<Longrightarrow> listener i = Some Accepting \<Longrightarrow>
    accept_connection p0 k i y = Inr y' \<Longrightarrow> system_step execute pf p0 serialize y y'"
| sys_stream: "j < length (open_connections y) \<Longrightarrow> served_by y (open_connections y ! j) i \<Longrightarrow>
    stream_event execute pf i j e y = Inr (out, y') \<Longrightarrow> system_step execute pf p0 serialize y y'"

definition system_new :: "string \<Rightarrow> 16 word \<Rightarrow> 32 word \<Rightarrow> 'p system" where
  "system_new ip p iter = \<lparr>server = ServerImpl ip p, accept_counter = iter, open_connections = []\<rparr>"

inductive system_reachable :: "'p http_parser \<Rightarrow> platform \<Rightarrow> 'p \<Rightarrow> string \<Rightarrow> 'p system \<Rightarrow> bool"
  for execute pf p0 serialize where
  sys_new: "system_reachable execute pf p0 serialize (system_new ip p iter)"
| sys_step: "system_reachable execute pf p0 serialize y \<Longrightarrow> system_step execute pf p0 serialize y y' \<Longrightarrow>
    system_reachable execute pf p0 serialize y'"

inductive_cases system_stepE: "system_step execute pf p0 serialize y y'"

section \<open>The invariant\<close>

text \<open>As long as the server is not shut down, every connection is served.\<close>

definition system_inv :: "'p system \<Rightarrow> bool" where
  "system_inv y \<longleftrightarrow>
     server_inv (server y) \<and>
     (\<not> shutdown (server y) \<longrightarrow> (\<forall>c\<in>set (open_connections y). \<exists>i. served_by y c i))"

text \<open>What the events of a server do to it.\<close>

lemma start_effect:
  assumes inv: "server_inv s" and st: "start net s = Inr (e, s')"
  obtains (unchanged) "s' = s"
  | (running) "\<not> started s" "listener (application s) = None" "s' = after_start s"
  | (failed) app where "\<not> started s" "listener app \<noteq> None" "listener app \<noteq> Some Accepting"
      "s' = ((add_base ^^ kBases) s)\<lparr>application := app\<rparr>"
proof (cases "started s")
  case True
  with st unchanged show ?thesis by (auto simp: start_def)
next
  case False
  show ?thesis
  proof (cases "listener (application s)")
    case None
    show ?thesis
    proof (cases "listen_fault net (ipaddr (application s)) (port (application s))")
      case (Some d)
      from start_listen_fails [OF False None Some] st obtain l where l: "l \<noteq> Accepting"
        "s' = ((add_base ^^ kBases) s)\<lparr>application :=
          (application s)\<lparr>bases := live_bases ((add_base ^^ kBases) s), listener := Some l\<rparr>\<rparr>" by auto
      show ?thesis by (rule failed [OF False _ _ l(2)]) (use l(1) in simp_all)
    next
      case ok: None
      from start_succeeds [OF inv False None ok] st running [OF False None] show ?thesis
        by (auto split: option.splits)
    qed
  next
    case (Some l)
    have "listener (application s) \<noteq> Some Accepting" using inv False by (simp add: server_inv_def phase_inv_def)
    moreover have "s' = ((add_base ^^ kBases) s)\<lparr>application := application s\<rparr>"
      using start_failed_before [OF False, of net] Some st add_bases_frame(1) [of kBases s] by simp
    moreover have "listener (application s) \<noteq> None" using Some by simp
    ultimately show ?thesis by (intro failed [OF False])
  qed
qed

lemma turn_effect:
  assumes inv: "server_inv s" and ev: "loop_turn net s = Inr (out, s')"
  obtains (unchanged) "s' = s"
  | (turned) a where "started s" "\<not> shutdown s" "admin_server s = Some a"
      "s' = s\<lparr>admin_server := Some (a\<lparr>bases := live_bases s, listener := Some Accepting\<rparr>), tasks := []\<rparr>"
proof (cases "loop_enabled s")
  case True
  then obtain t ts where t: "tasks s = t # ts" "started s" "\<not> shutdown s"
    by (auto simp: loop_enabled_def neq_Nil_conv)
  have a: "admin_inv s" using inv by (simp add: server_inv_def)
  with t(1) obtain a where adm: "admin_server s = Some a"
    by (auto simp: admin_inv_def split: option.splits)
  from run_task_cases [OF a t(1)] ev True t have "s' = s\<lparr>admin_server := admin_started s, tasks := []\<rparr>"
    by (auto simp: loop_turn_def split: option.splits)
  with adm t show ?thesis by (intro turned) (simp_all add: admin_started_def)
next
  case False
  with ev unchanged show ?thesis by (simp add: loop_turn_def)
qed

lemma server_event_effect:
  assumes inv: "server_inv s" and ev: "server_event serialize s e = Inr (out, s')"
  obtains (matched) m where "s' = s\<lparr>application := (application s)\<lparr>matcher := m\<rparr>\<rparr>"
  | (running) "\<not> started s" "listener (application s) = None" "s' = after_start s"
  | (failed) app where "\<not> started s" "listener app \<noteq> None" "listener app \<noteq> Some Accepting"
      "s' = ((add_base ^^ kBases) s)\<lparr>application := app\<rparr>"
  | (stopped) "started s" "s' = after_stop s"
  | (waited) w where "s' = s\<lparr>waiting := w\<rparr>"
  | (requested) a where "admin_server s = None" "listener a = None"
      "s' = s\<lparr>admin_server := Some a, tasks := tasks s @ [StartAdmin]\<rparr>"
  | (turned) a where "started s" "\<not> shutdown s" "admin_server s = Some a"
      "s' = s\<lparr>admin_server := Some (a\<lparr>bases := live_bases s, listener := Some Accepting\<rparr>), tasks := []\<rparr>"
proof -
  have same: thesis if "s' = s" by (rule waited [of "waiting s"]) (simp add: that)
  show ?thesis
  proof (cases e)
    case (Turn net)
    with ev show ?thesis using turn_effect [OF inv] same turned by auto
  next
    case (Call net c)
    show ?thesis
    proof (cases c)
      case (RegisterResource r)
      with Call ev matched show ?thesis
        by (auto simp: server_register_def doRegister_def registerResource_def bind_res_Inr_iff)
    next
      case Start
      with Call ev obtain x where st: "start net s = Inr (x, s')" by (auto simp: bind_res_Inr_iff)
      show ?thesis by (rule start_effect [OF inv st]) (use same running failed in blast)+
    next
      case StopAndWait
      with Call ev obtain x where st: "stopAndWait net s = Inr (x, s')" by (auto simp: bind_res_Inr_iff)
      show ?thesis
      proof (cases "started s \<and> \<not> shutdown s")
        case True
        with stopAndWait_running [OF inv, of net] st stopped show ?thesis
          by (auto split: option.splits if_splits)
      qed (use st same in \<open>auto simp: stopAndWait_def split: if_splits\<close>)
    next
      case Wait
      with Call ev same waited show ?thesis by (auto simp: wait_cases [OF inv] bind_res_Inr_iff split: if_splits)
    next
      case (StartAdminServer ip p)
      with Call ev obtain x where st: "startAdminServer serialize s ip p = Inr (x, s')" by (auto simp: bind_res_Inr_iff)
      show ?thesis
      proof (cases "s' = s")
        case False
        from startAdminServer_created [OF st this] obtain a where a: "AdminServer serialize ip p = Inr (None, a)"
          "admin_server s = None" "s' = s\<lparr>admin_server := Some a, tasks := tasks s @ [StartAdmin]\<rparr>" by blast
        from AdminServer_fresh [OF a(1)] have "listener a = None" by (simp add: unstarted_def)
        with a(2,3) show ?thesis by (intro requested)
      qed (rule same)
    qed
  qed
qed

text \<open>What an event of the server keeps as long as it does not shut it down.\<close>

lemma server_event_keeps:
  assumes inv: "server_inv s" and ev: "server_event serialize s e = Inr (out, s')" and "\<not> shutdown s'"
  shows "\<not> shutdown s \<and> set (live_bases s) \<subseteq> set (live_bases s') \<and>
    (instance_of k s = Some i \<longrightarrow> (\<exists>i'. instance_of k s' = Some i'))"
proof -
  have down: "\<not> started s \<Longrightarrow> \<not> shutdown s" using inv by (simp add: server_inv_def phase_inv_def)
  have "\<not> shutdown s \<and> set (live_bases s) \<subseteq> set (live_bases s') \<and>
      (\<forall>a. admin_server s = Some a \<longrightarrow> (\<exists>a'. admin_server s' = Some a'))"
    by (rule server_event_effect [OF inv ev])
      (use assms(3) down in \<open>auto simp: after_start_def after_stop_def admin_started_def add_bases_frame
        add_bases_live Let_def\<close>)
  then show ?thesis by (cases k) auto
qed

lemma system_inv_new: "system_inv (system_new ip p iter)"
  by (simp add: system_inv_def system_new_def server_inv_new)

lemma system_inv_server:
  assumes "system_inv y" "server_event serialize (server y) e = Inr (out, s')"
  shows "system_inv (y\<lparr>server := s'\<rparr>)"
proof -
  have inv: "server_inv (server y)" using assms(1) by (simp add: system_inv_def)
  have "\<exists>i'. served_by (y\<lparr>server := s'\<rparr>) c i'"
    if "\<not> shutdown s'" "c \<in> set (open_connections y)" for c
  proof -
    note keep = server_event_keeps [OF inv assms(2) that(1), of "origin c"]
    from assms(1) keep that(2) obtain i where "served_by y c i" unfolding system_inv_def by blast
    with keep show ?thesis unfolding served_by_def by auto
  qed
  with server_event_inv [OF inv assms(2)] show ?thesis by (simp add: system_inv_def)
qed

lemma system_inv_accept:
  assumes "system_inv y" and i: "instance_of k (server y) = Some i" "listener i = Some Accepting"
    and acc: "accept_connection p0 k i y = Inr y'"
  shows "system_inv y'"
proof -
  have "workers_alive (server y) i"
    using assms(1) i(1) by (cases k) (auto simp: system_inv_def server_inv_def admin_inv_def)
  with i(2) have b: "bases i \<noteq> []" "set (bases i) \<subseteq> set (live_bases (server y))"
    by (simp_all add: workers_alive_def)
  from chooseBase_defined [OF b(1), of "accept_counter y"] b(2) obtain w where
    w: "w \<in> set (live_bases (server y))" "chooseBase (accept_counter y) i = Inr (accept_counter y + 1, w)"
    by blast
  then have "y' = y\<lparr>accept_counter := accept_counter y + 1, open_connections := open_connections y @
      [\<lparr>origin = k, worker = w, ctx = Some (RequestContext p0)\<rparr>]\<rparr>"
    using acc by (simp add: accept_connection_def acceptCb_def)
  with w(1) assms(1) i(1) show ?thesis by (auto simp: system_inv_def served_by_def)
qed

lemma stream_event_frame:
  assumes "stream_event execute pf i j e y = Inr (out, y')" "j < length (open_connections y)"
  shows "server y' = server y \<and> map origin (open_connections y') = map origin (open_connections y) \<and>
    map worker (open_connections y') = map worker (open_connections y)"
proof -
  from assms obtain c' where
    y': "y' = y\<lparr>open_connections := (open_connections y)[j := (open_connections y ! j)\<lparr>ctx := c'\<rparr>]\<rparr>"
    by (auto simp: stream_event_def bind_res_Inr_iff Let_def)
  have "map f ((open_connections y)[j := z]) = map f (open_connections y)"
    if "f z = f (open_connections y ! j)" for f :: "'a connection \<Rightarrow> 'b" and z
    using that assms(2) by (simp add: map_update) (metis list_update_id nth_map)
  from this [of origin] this [of worker] show ?thesis unfolding y' by simp
qed

lemma system_inv_stream:
  assumes "system_inv y" and "j < length (open_connections y)"
    and "stream_event execute pf i j e y = Inr (out, y')"
  shows "system_inv y'"
proof -
  note frame = stream_event_frame [OF assms(3,2)]
  have "\<exists>i. served_by y' c i" if "c \<in> set (open_connections y')" "\<not> shutdown (server y)" for c
  proof -
    from that(1) obtain n where n: "n < length (open_connections y')" "c = open_connections y' ! n"
      by (auto simp: in_set_conv_nth)
    have len: "length (open_connections y') = length (open_connections y)"
      using frame by (metis length_map)
    have "origin c = origin (open_connections y ! n)" "worker c = worker (open_connections y ! n)"
      using n len frame by (metis nth_map)+
    moreover have "\<exists>i. served_by y (open_connections y ! n) i"
      using assms(1) that(2) n len by (auto simp: system_inv_def)
    ultimately show ?thesis using frame by (simp add: served_by_def)
  qed
  with assms(1) frame show ?thesis by (simp add: system_inv_def)
qed

lemma system_inv_step: "system_step execute pf p0 serialize y y' \<Longrightarrow> system_inv y \<Longrightarrow> system_inv y'"
  by (erule system_stepE) (auto intro: system_inv_server system_inv_accept system_inv_stream)

lemma system_inv_reachable: "system_reachable execute pf p0 serialize y \<Longrightarrow> system_inv y"
  by (induction rule: system_reachable.induct) (auto intro: system_inv_new system_inv_step)

section \<open>After the end\<close>

lemma server_event_down:
  assumes "server_inv s" "shutdown s" "server_event serialize s e = Inr (out, s')"
  shows "shutdown s'"
proof -
  have "started s" using assms(1,2) by (auto simp: server_inv_def phase_inv_def split: if_splits)
  with assms(2) have "phase (server_abs s) = Down" by (simp add: server_abs_def phase_of_def)
  moreover have "phase t' = Down" if "phase t = Down" "spec_event t ev = Inr (out, t')" for t t' ev
  proof (cases ev)
    case (Call net c)
    with that show ?thesis by (cases c) (auto split: if_splits)
  qed (use that in simp)
  ultimately have "phase (server_abs s') = Down"
    using server_machine.simulates_ok [OF assms(1,3)] by blast
  then show ?thesis by (auto simp: server_abs_def phase_of_def split: if_splits)
qed

lemma down_step:
  assumes step: "system_step execute pf p0 serialize y y'" and inv: "system_inv y" and down: "shutdown (server y)"
  shows "shutdown (server y') \<and> open_connections y' = open_connections y"
proof -
  have sinv: "server_inv (server y)" using inv by (simp add: system_inv_def)
  then have dead: "live_bases (server y) = []"
    using down by (auto simp: server_inv_def phase_inv_def split: if_splits)
  from step show ?thesis
  proof (rule system_stepE)
    fix e out s'
    assume "y' = y\<lparr>server := s'\<rparr>" "server_event serialize (server y) e = Inr (out, s')"
    with server_event_down [OF sinv down] show ?thesis by simp
  next
    fix k i
    assume i: "instance_of k (server y) = Some i" "listener i = Some Accepting"
    then have "workers_alive (server y) i"
      using sinv by (cases k) (auto simp: server_inv_def admin_inv_def)
    with i(2) dead show ?thesis by (simp add: workers_alive_def)
  next
    fix j i
    assume "served_by y (open_connections y ! j) i"
    with dead show ?thesis by (simp add: served_by_def)
  qed
qed

section \<open>Events of a stream are handled\<close>

text \<open>When every message is answered, every callback on a live context has a result.\<close>

definition answers_all :: "platform \<Rightarrow> matcher \<Rightarrow> bool" where
  "answers_all pf m \<longleftrightarrow> (\<forall>b k. \<exists>r. get_response pf m b k = Inr r)"

lemma handle_event_total:
  assumes "answers_all pf m"
  shows "\<exists>rc c'. handle_event pf m c e = Inr (rc, c')"
proof (cases e)
  case (Piece p)
  then show ?thesis by (cases "run_callback (builder c) p") simp
next
  case (MessageComplete k)
  from assms obtain r where "get_response pf m (builder c) k = Inr r" unfolding answers_all_def by blast
  with MessageComplete show ?thesis by (simp add: message_complete_def Let_def)
qed

lemma handle_events_total:
  assumes "answers_all pf m"
  shows "\<exists>r c'. handle_events pf m c es n = Inr (r, c')"
proof (induction es arbitrary: c n)
  case (Cons e es)
  from handle_event_total [OF assms, of c e] obtain rc c' where "handle_event pf m c e = Inr (rc, c')" by blast
  with Cons [of c' "Suc n"] show ?case by simp
qed simp

lemma execute_total:
  assumes "answers_all pf m"
  shows "\<exists>n c'. http_parser_execute execute pf m c data = Inr (n, c')"
proof -
  from handle_events_total [OF assms, of c "events (execute (parser c) data)" 0] obtain r c' where
    "handle_events pf m c (events (execute (parser c) data)) 0 = Inr (r, c')" by blast
  then show ?thesis by (cases r) (simp_all add: http_parser_execute_def Let_def)
qed

lemma read_extents_total:
  assumes "answers_all pf m"
  shows "\<exists>c' d. read_extents execute pf m c n xs = Inr (c', d)"
proof (induction xs arbitrary: c n)
  case (Cons x xs)
  from execute_total [OF assms, of execute c x] obtain k c' where
    "http_parser_execute execute pf m c x = Inr (k, c')" by blast
  with Cons [of c' "n + k"] show ?case by (cases "k = length x") simp_all
qed simp

lemma conn_step_total:
  assumes "answers_all pf m"
  shows "\<exists>out c'. conn_step execute pf m (Some c) e = Inr (out, c')"
proof (cases e)
  case (Available xs)
  from read_extents_total [OF assms, of execute c 0 xs] obtain c' d where
    "read_extents execute pf m c 0 xs = Inr (c', d)" by blast
  with Available show ?thesis by (simp add: available_def live_context_def)
next
  case EndOfFile
  from execute_total [OF assms, of execute c "[]"] obtain k c' where
    "http_parser_execute execute pf m c [] = Inr (k, c')" by blast
  with EndOfFile show ?thesis by (simp add: eof_def live_context_def)
qed (simp_all add: read_error_def write_error_def write_complete_def delete_context_def live_context_def)

lemma answers_all_routes:
  assumes "matcher_total_set (set_first pf)" "url_fields_within (url_parse pf)" "wf_matcher m" "routes_ok m"
  shows "answers_all pf m"
  using matcher_total_set.response_always [OF assms(1,3,4) refl assms(2)] by (simp add: answers_all_def)

section \<open>Properties\<close>


text \<open>A server with one connection.\<close>

definition one_connection :: "unit system" where
  "one_connection = \<lparr>server = started_server, accept_counter = 1,
     open_connections = [\<lparr>origin = Application, worker = 1, ctx = Some (RequestContext ())\<rparr>]\<rparr>"

lemma started_server_bases: "bases (application started_server) = [0, 1, 2, 3]"
proof -
  have "bases (application started_server) = live_bases started_server"
    by (simp add: started_server_def after_start_def Let_def)
  then show ?thesis by (simp only: started_server_state(5))
qed

lemma started_server_matcher: "matcher (application started_server) = ResourceMatcher"
  by (simp add: started_server_def after_start_def Let_def) (simp add: ServerImpl_def ServerInstance_def)

lemma one_connection_reachable: "system_reachable line_parser plain_platform () serialize one_connection"
proof -
  let ?y0 = "system_new ''127.0.0.1'' 80 0 :: unit system"
  let ?y1 = "?y0\<lparr>server := started_server\<rparr>"
  have "server_event serialize (server ?y0) (Call (\<lambda>_. None) Start) = Inr (Returned, started_server)"
    using started_server_eq by (simp add: system_new_def)
  from sys_step [OF sys_new sys_server [OF this]]
  have 1: "system_reachable line_parser plain_platform () serialize ?y1" .
  have "chooseBase 0 (application started_server) = Inr (1, 1)"
    using chooseBase_4 [of "application started_server" 0] by (simp add: started_server_bases)
  then have "accept_connection () Application (application started_server) ?y1 = Inr one_connection"
    by (simp add: accept_connection_def acceptCb_def one_connection_def system_new_def)
  from sys_step [OF 1 sys_accept [OF _ _ this]] started_server_state(6) show ?thesis by simp
qed


text \<open>C39: Stopping does not wait for requests: once the server is shut down, whatever is called afterwards,
  no connection is accepted and none makes progress; each connection that was open keeps its
  context for good, with whatever part of a request or response it holds.\<close>

theorem stop_abandons_connections:
  assumes "system_reachable execute pf p0 serialize y" and "shutdown (server y)"
    and "(system_step execute pf p0 serialize)\<^sup>*\<^sup>* y y'"
  shows "shutdown (server y') \<and> open_connections y' = open_connections y"
proof -
  from assms(3) have "system_inv y' \<and> shutdown (server y') \<and> open_connections y' = open_connections y"
  proof (induction rule: rtranclp_induct)
    case base
    show ?case using system_inv_reachable [OF assms(1)] assms(2) by simp
  next
    case (step y1 y2)
    with down_step [OF step.hyps(2)] system_inv_step [OF step.hyps(2)] show ?case by simp
  qed
  then show ?thesis by simp
qed

theorem stop_abandons_connections_witness:
  "\<exists>y. system_step line_parser plain_platform () ''{}'' one_connection y \<and> shutdown (server y) \<and>
     (\<forall>y'. (system_step line_parser plain_platform () ''{}'')\<^sup>*\<^sup>* y y' \<longrightarrow>
        open_connections y' = [\<lparr>origin = Application, worker = 1, ctx = Some (RequestContext ())\<rparr>])"
proof -
  have "stopAndWait (\<lambda>_. None) started_server = Inr (None, after_stop started_server)"
    using stopAndWait_running [OF server_inv_reachable [OF started_server_state(1)] started_server_state(2,3),
        of "\<lambda>_. None"] started_server_state(4) started_server_quiet by simp
  then have "server_event ''{}'' (server one_connection) (Call (\<lambda>_. None) StopAndWait) =
      Inr (Returned, after_stop started_server)" by (simp add: one_connection_def)
  from sys_server [OF this] have
    st: "system_step line_parser plain_platform () ''{}'' one_connection (one_connection\<lparr>server := after_stop started_server\<rparr>)" .
  have down: "shutdown (server (one_connection\<lparr>server := after_stop started_server\<rparr>))"
    by (simp add: after_stop_def)
  from stop_abandons_connections [OF sys_step [OF one_connection_reachable st] down] st down show ?thesis
    by (intro exI [of _ "one_connection\<lparr>server := after_stop started_server\<rparr>"]) (simp add: one_connection_def)
qed

end
