(* ===== verification/Shutdown.thy ===== *)
theory Shutdown
  imports System
begin

text \<open>
  \<open>ServerImpl::stopAndWait\<close> statement by statement, in parallel with the threads it stops
  (\<open>src/server.cc\<close>). \<open>Server\<close> treats the call as one step; here the thread of the caller, the
  thread of the listener's loop and those of the workers interleave. While the caller waits for
  the function it has queued on the listener's loop, the two alternate, so they make one line of
  statements. A worker runs callbacks of its connections, each of which uses the instance the
  connection came from (\<open>ctx->server\<close>), and leaves its loop after the base was stopped.

  The event base is not in the repository. \<open>waits\<close> says whether \<open>EventBase::stop\<close> returns only
  after the loop was left; both are considered. A thread in a loop uses the base, so a step of it
  after the base was deleted is undefined.
\<close>

section \<open>States\<close>

text \<open>The statements; the arguments are the positions of the two loops.\<close>

datatype statement =
    Run_queued
  | Stop_application
  | Stop_admin
  | Delete_admin
  | Stop_listener
  | Stop_base nat
  | Delete_base nat
  | Clear_bases
  | Join_thread nat
  | Clear_threads
  | Join_main
  | Set_shutdown
  | Finished
  | Raised exn

datatype base_state = Base_running | Base_stopped | Base_deleted

datatype thread_state = In_loop | In_callback instance_kind | Left_loop

record shutdown_state =
  impl :: server_impl
  statement :: statement
  base_at :: "nat \<Rightarrow> base_state"
  thread_at :: "nat \<Rightarrow> thread_state"
  listener_stopped :: bool
  main_left :: bool

definition begin_shutdown :: "server_impl \<Rightarrow> shutdown_state" where
  "begin_shutdown s =
     \<lparr>impl = s, statement = Run_queued, base_at = (\<lambda>_. Base_running), thread_at = (\<lambda>_. In_loop),
      listener_stopped = False, main_left = False\<rparr>"

section \<open>Steps\<close>

text \<open>The next statement of \<open>stopAndWait\<close>; \<open>None\<close> when it blocks.\<close>

definition caller_step ::
    "bool \<Rightarrow> (listener_op \<Rightarrow> exn option) \<Rightarrow> shutdown_state \<Rightarrow> shutdown_state res option" where
  "caller_step waits net y =
     (let s = impl y in
      case statement y of
        Run_queued \<Rightarrow>
          Some (bind_res (run_tasks net s) (\<lambda>s'. Inr (y\<lparr>impl := s', statement := Stop_application\<rparr>)))
      | Stop_application \<Rightarrow>
          Some (Inr (y\<lparr>impl := s\<lparr>application := instance_stop (application s)\<rparr>, statement := Stop_admin\<rparr>))
      | Stop_admin \<Rightarrow>
          (case admin_server s of
             None \<Rightarrow> Some (Inr (y\<lparr>statement := Stop_listener\<rparr>))
           | Some a \<Rightarrow> Some (Inr (y\<lparr>impl := s\<lparr>admin_server := Some (instance_stop a)\<rparr>,
                                    statement := Delete_admin\<rparr>)))
      | Delete_admin \<Rightarrow> Some (Inr (y\<lparr>impl := s\<lparr>admin_server := None\<rparr>, statement := Stop_listener\<rparr>))
      | Stop_listener \<Rightarrow> Some (Inr (y\<lparr>listener_stopped := True, statement := Stop_base 0\<rparr>))
      | Stop_base i \<Rightarrow>
          if i < length (live_bases s)
          then Some (if base_at y (live_bases s ! i) = Base_deleted then Inl Undef
                     else Inr (y\<lparr>base_at := (base_at y)(live_bases s ! i := Base_stopped),
                                 statement := Delete_base i\<rparr>))
          else Some (Inr (y\<lparr>statement := Clear_bases\<rparr>))
      | Delete_base i \<Rightarrow>
          if waits \<and> thread_at y (live_bases s ! i) \<noteq> Left_loop then None
          else Some (Inr (y\<lparr>base_at := (base_at y)(live_bases s ! i := Base_deleted),
                            statement := Stop_base (Suc i)\<rparr>))
      | Clear_bases \<Rightarrow> Some (Inr (y\<lparr>impl := s\<lparr>live_bases := []\<rparr>, statement := Join_thread 0\<rparr>))
      | Join_thread i \<Rightarrow>
          if i < length (base_threads s)
          then if thread_at y (base_threads s ! i) = Left_loop
               then Some (Inr (y\<lparr>statement := Join_thread (Suc i)\<rparr>)) else None
          else Some (Inr (y\<lparr>statement := Clear_threads\<rparr>))
      | Clear_threads \<Rightarrow> Some (Inr (y\<lparr>impl := s\<lparr>base_threads := []\<rparr>, statement := Join_main\<rparr>))
      | Join_main \<Rightarrow>
          if main_joinable s \<and> waiting s = 0 \<and> \<not> main_left y then None
          else Some (bind_res (join_main s) (\<lambda>(e, s'). Inr (y\<lparr>impl := s',
                 statement := (case e of None \<Rightarrow> Set_shutdown | Some x \<Rightarrow> Raised x)\<rparr>)))
      | Set_shutdown \<Rightarrow> Some (Inr (y\<lparr>impl := s\<lparr>shutdown := True\<rparr>, statement := Finished\<rparr>))
      | Finished \<Rightarrow> None
      | Raised _ \<Rightarrow> None)"

text \<open>What the thread of a base can do: enter a callback of one of the open connections, of which
  \<open>conns\<close> gives worker and instance, end it, and leave the loop of a stopped base.\<close>

datatype thread_action = Enter instance_kind | Return | Leave

fun thread_step ::
    "(nat \<times> instance_kind) list \<Rightarrow> shutdown_state \<Rightarrow> nat \<Rightarrow> thread_action \<Rightarrow> shutdown_state res option" where
  "thread_step conns y b (Enter k) =
     (if thread_at y b = In_loop \<and> (b, k) \<in> set conns
      then Some (if base_at y b = Base_deleted then Inl Undef
                 else Inr (y\<lparr>thread_at := (thread_at y)(b := In_callback k)\<rparr>))
      else None)"
| "thread_step conns y b Return =
     (case thread_at y b of
        In_callback k \<Rightarrow>
          Some (if instance_of k (impl y) = None \<or> base_at y b = Base_deleted then Inl Undef
                else Inr (y\<lparr>thread_at := (thread_at y)(b := In_loop)\<rparr>))
      | _ \<Rightarrow> None)"
| "thread_step conns y b Leave =
     (if thread_at y b = In_loop
      then (case base_at y b of
              Base_running \<Rightarrow> None
            | Base_stopped \<Rightarrow> Some (Inr (y\<lparr>thread_at := (thread_at y)(b := Left_loop)\<rparr>))
            | Base_deleted \<Rightarrow> Some (Inl Undef))
      else None)"

datatype shutdown_event = Caller | Thread nat thread_action | Main_leaves

fun shutdown_step ::
    "bool \<Rightarrow> (listener_op \<Rightarrow> exn option) \<Rightarrow> (nat \<times> instance_kind) list \<Rightarrow> shutdown_state \<Rightarrow> shutdown_event \<Rightarrow>
     shutdown_state res option" where
  "shutdown_step waits net conns y Caller = caller_step waits net y"
| "shutdown_step waits net conns y (Thread b a) = thread_step conns y b a"
| "shutdown_step waits net conns y Main_leaves =
     (if listener_stopped y \<and> \<not> main_left y then Some (Inr (y\<lparr>main_left := True\<rparr>)) else None)"

text \<open>A schedule is a sequence of events none of which blocks or fails.\<close>

fun run_schedule ::
    "bool \<Rightarrow> (listener_op \<Rightarrow> exn option) \<Rightarrow> (nat \<times> instance_kind) list \<Rightarrow> shutdown_state \<Rightarrow> shutdown_event list \<Rightarrow>
     shutdown_state option" where
  "run_schedule waits net conns y [] = Some y"
| "run_schedule waits net conns y (e # es) =
     (case shutdown_step waits net conns y e of
        Some (Inr y') \<Rightarrow> run_schedule waits net conns y' es
      | _ \<Rightarrow> None)"

text \<open>Whatever the schedule, nothing is undefined and nothing throws.\<close>

definition shutdown_safe ::
    "bool \<Rightarrow> (listener_op \<Rightarrow> exn option) \<Rightarrow> (nat \<times> instance_kind) list \<Rightarrow> server_impl \<Rightarrow> bool" where
  "shutdown_safe waits net conns s \<longleftrightarrow>
     (\<forall>es y e f. run_schedule waits net conns (begin_shutdown s) es = Some y \<longrightarrow>
        shutdown_step waits net conns y e \<noteq> Some (Inl f))"

text \<open>The open connections of a system.\<close>

definition open_conns :: "'p system \<Rightarrow> (nat \<times> instance_kind) list" where
  "open_conns y =
     map (\<lambda>c. (worker c, origin c)) (filter (\<lambda>c. ctx c \<noteq> None) (open_connections y))"

section \<open>The invariant\<close>

lemma run_schedule_append:
  "run_schedule waits net conns y (es @ fs) =
     Option.bind (run_schedule waits net conns y es) (\<lambda>y'. run_schedule waits net conns y' fs)"
  by (induction es arbitrary: y) (auto split: option.split sum.split)

text \<open>The server before each statement.\<close>

abbreviation ran_queued :: "server_impl \<Rightarrow> server_impl" where
  "ran_queued s \<equiv> s\<lparr>admin_server := admin_started s, tasks := []\<rparr>"

abbreviation app_stopped :: "server_impl \<Rightarrow> server_impl" where
  "app_stopped s \<equiv> (ran_queued s)\<lparr>application := instance_stop (application s)\<rparr>"

abbreviation no_instances :: "server_impl \<Rightarrow> server_impl" where
  "no_instances s \<equiv> (app_stopped s)\<lparr>admin_server := None\<rparr>"

abbreviation no_bases :: "server_impl \<Rightarrow> server_impl" where
  "no_bases s \<equiv> (no_instances s)\<lparr>live_bases := []\<rparr>"

fun impl_at :: "server_impl \<Rightarrow> statement \<Rightarrow> server_impl" where
  "impl_at s Run_queued = s"
| "impl_at s Stop_application = ran_queued s"
| "impl_at s Stop_admin = app_stopped s"
| "impl_at s Delete_admin = (app_stopped s)\<lparr>admin_server := map_option instance_stop (admin_started s)\<rparr>"
| "impl_at s Stop_listener = no_instances s"
| "impl_at s (Stop_base i) = no_instances s"
| "impl_at s (Delete_base i) = no_instances s"
| "impl_at s Clear_bases = no_instances s"
| "impl_at s (Join_thread i) = no_bases s"
| "impl_at s Clear_threads = no_bases s"
| "impl_at s Join_main = (no_bases s)\<lparr>base_threads := []\<rparr>"
| "impl_at s Set_shutdown = (no_bases s)\<lparr>base_threads := [], main_joinable := False\<rparr>"
| "impl_at s Finished = (no_bases s)\<lparr>base_threads := [], main_joinable := False, shutdown := True\<rparr>"
| "impl_at s (Raised e) = s"

lemma impl_at_Finished: "impl_at s Finished = after_stop s"
  by (simp add: after_stop_def)

text \<open>How many bases are deleted before a statement, of \<open>n\<close>; and whether the listener is stopped.\<close>

fun deleted_at :: "nat \<Rightarrow> statement \<Rightarrow> nat" where
  "deleted_at n (Stop_base i) = i"
| "deleted_at n (Delete_base i) = i"
| "deleted_at n st = (if st \<in> {Run_queued, Stop_application, Stop_admin, Delete_admin, Stop_listener} then 0 else n)"

definition early :: "statement set" where
  "early = {Run_queued, Stop_application, Stop_admin, Delete_admin, Stop_listener}"

fun in_range :: "nat \<Rightarrow> statement \<Rightarrow> bool" where
  "in_range n (Stop_base i) \<longleftrightarrow> i \<le> n"
| "in_range n (Delete_base i) \<longleftrightarrow> i < n"
| "in_range n (Join_thread i) \<longleftrightarrow> i \<le> n"
| "in_range n (Raised e) \<longleftrightarrow> False"
| "in_range n _ \<longleftrightarrow> True"

definition bases_at :: "nat list \<Rightarrow> statement \<Rightarrow> nat \<Rightarrow> base_state" where
  "bases_at bs st b =
     (if b \<in> set (take (deleted_at (length bs) st) bs) then Base_deleted
      else case st of Delete_base i \<Rightarrow> if b = bs ! i then Base_stopped else Base_running | _ \<Rightarrow> Base_running)"

definition shutdown_inv :: "(nat \<times> instance_kind) list \<Rightarrow> server_impl \<Rightarrow> shutdown_state \<Rightarrow> bool" where
  "shutdown_inv conns s y \<longleftrightarrow>
     in_range (length (live_bases s)) (statement y) \<and> impl y = impl_at s (statement y) \<and>
     base_at y = bases_at (live_bases s) (statement y) \<and>
     (\<forall>b. base_at y b = Base_deleted \<longrightarrow> thread_at y b = Left_loop) \<and>
     (\<forall>b k. thread_at y b = In_callback k \<longrightarrow> (b, k) \<in> set conns) \<and>
     (listener_stopped y \<longleftrightarrow> statement y \<notin> early) \<and>
     (statement y \<in> {Set_shutdown, Finished} \<longrightarrow> main_left y \<and> waiting s = 0)"

text \<open>The situation in which \<open>stopAndWait\<close> is called.\<close>

definition stoppable :: "(listener_op \<Rightarrow> exn option) \<Rightarrow> (nat \<times> instance_kind) list \<Rightarrow> server_impl \<Rightarrow> bool" where
  "stoppable net conns s \<longleftrightarrow>
     server_inv s \<and> started s \<and> \<not> shutdown s \<and> pending_fault net s = None \<and>
     fst ` set conns \<subseteq> set (live_bases s) \<and>
     (Admin \<in> snd ` set conns \<longrightarrow> admin_server s \<noteq> None)"

lemma bases_at_simps:
  "bases_at bs Run_queued = (\<lambda>_. Base_running)" "bases_at bs (Stop_base 0) = (\<lambda>_. Base_running)"
  "bases_at bs Stop_application = (\<lambda>_. Base_running)" "bases_at bs Stop_admin = (\<lambda>_. Base_running)"
  "bases_at bs Delete_admin = (\<lambda>_. Base_running)" "bases_at bs Stop_listener = (\<lambda>_. Base_running)"
  "bases_at bs Clear_bases = bases_at bs (Stop_base (length bs))"
  "bases_at bs (Join_thread i) = bases_at bs Clear_bases" "bases_at bs Clear_threads = bases_at bs Clear_bases"
  "bases_at bs Join_main = bases_at bs Clear_bases" "bases_at bs Set_shutdown = bases_at bs Clear_bases"
  "bases_at bs Finished = bases_at bs Clear_bases"
  by (simp_all add: bases_at_def fun_eq_iff)

lemma bases_at_stop:
  assumes "distinct bs" "i < length bs"
  shows "(bases_at bs (Stop_base i))(bs ! i := Base_stopped) = bases_at bs (Delete_base i)"
    and "bases_at bs (Stop_base i) (bs ! i) = Base_running"
    and "bases_at bs (Delete_base i) b = Base_deleted \<Longrightarrow> bases_at bs (Stop_base i) b = Base_deleted"
proof -
  have "bs ! i \<notin> set (take i bs)"
    using assms by (auto simp: in_set_conv_nth nth_eq_iff_index_eq)
  then show "(bases_at bs (Stop_base i))(bs ! i := Base_stopped) = bases_at bs (Delete_base i)"
    and "bases_at bs (Stop_base i) (bs ! i) = Base_running"
    and "bases_at bs (Delete_base i) b = Base_deleted \<Longrightarrow> bases_at bs (Stop_base i) b = Base_deleted"
    by (auto simp: bases_at_def fun_eq_iff split: if_splits)
qed

lemma bases_at_delete:
  assumes "i < length bs"
  shows "(bases_at bs (Delete_base i))(bs ! i := Base_deleted) = bases_at bs (Stop_base (Suc i))"
    and "bases_at bs (Stop_base (Suc i)) b = Base_deleted \<Longrightarrow> b = bs ! i \<or> bases_at bs (Delete_base i) b = Base_deleted"
  using assms by (auto simp: bases_at_def fun_eq_iff take_Suc_conv_app_nth split: if_splits)

lemma begin_inv: "stoppable net conns s \<Longrightarrow> shutdown_inv conns s (begin_shutdown s)"
  by (simp add: shutdown_inv_def begin_shutdown_def bases_at_simps early_def)

lemma impl_at_frame:
  "started (impl_at s st) = started s" "waiting (impl_at s st) = waiting s"
  by (induction s st rule: impl_at.induct) simp_all

text \<open>What the thread of a base does.\<close>

lemma thread_update_inv:
  assumes "shutdown_inv conns s y" "base_at y b \<noteq> Base_deleted \<or> t = Left_loop"
    and "\<And>k. t = In_callback k \<Longrightarrow> (b, k) \<in> set conns"
  shows "shutdown_inv conns s (y\<lparr>thread_at := (thread_at y)(b := t)\<rparr>)"
  using assms unfolding shutdown_inv_def by simp

lemma thread_step_inv:
  assumes inv: "shutdown_inv conns s y" and no_admin: "Admin \<notin> snd ` set conns"
    and step: "thread_step conns y b a = Some r"
  shows "\<exists>y'. r = Inr y' \<and> shutdown_inv conns s y'"
proof (cases a)
  case (Enter k)
  with step have k: "thread_at y b = In_loop" "(b, k) \<in> set conns" by (auto split: if_splits)
  with inv have "base_at y b \<noteq> Base_deleted" by (auto simp: shutdown_inv_def)
  with k step Enter thread_update_inv [OF inv, of b "In_callback k"] show ?thesis by auto
next
  case Return
  with step obtain k where k: "thread_at y b = In_callback k" by (auto split: thread_state.splits)
  with inv have "(b, k) \<in> set conns" "base_at y b \<noteq> Base_deleted" by (auto simp: shutdown_inv_def)
  moreover from this(1) no_admin have "k = Application" by (cases k) force+
  ultimately show ?thesis using step Return k thread_update_inv [OF inv, of b In_loop] by auto
next
  case Leave
  with step have "thread_at y b = In_loop" "base_at y b \<noteq> Base_running"
    by (auto split: if_splits base_state.splits)
  moreover from this inv have "base_at y b = Base_stopped"
    by (cases "base_at y b") (auto simp: shutdown_inv_def)
  ultimately show ?thesis using step Leave thread_update_inv [OF inv, of b Left_loop] by auto
qed

text \<open>What the caller does when \<open>stop\<close> waits.\<close>

lemma caller_step_inv:
  assumes ok: "stoppable net conns s" and inv: "shutdown_inv conns s y"
    and step: "caller_step True net y = Some r"
  shows "(\<exists>y'. r = Inr y' \<and> shutdown_inv conns s y') \<or> statement y = Join_main \<and> 0 < waiting s \<and> r = Inl Undef"
proof -
  let ?bs = "live_bases s"
  have sinv: "server_inv s" and fault: "pending_fault net s = None" using ok by (simp_all add: stoppable_def)
  then have bs: "distinct ?bs" "base_threads s = ?bs" and adm: "admin_inv s" by (simp_all add: server_inv_def)
  have joinable: "main_joinable s" using ok by (simp add: stoppable_def server_inv_def phase_inv_def)
  note defs = shutdown_inv_def caller_step_def early_def Let_def
  show ?thesis
  proof (cases "statement y")
    case Run_queued
    with step inv run_tasks_cases [OF adm, of net] fault show ?thesis by (auto simp: defs bases_at_simps)
  next
    case Stop_admin
    with step inv show ?thesis by (cases "admin_started s") (auto simp: defs bases_at_simps)
  next
    case (Stop_base i)
    show ?thesis
    proof (cases "i < length ?bs")
      case True
      with Stop_base step inv bases_at_stop [OF bs(1) True] show ?thesis by (auto simp: defs)
    next
      case False
      with Stop_base step inv show ?thesis by (auto simp: defs bases_at_simps)
    qed
  next
    case (Delete_base i)
    with inv have i: "i < length ?bs" by (simp add: shutdown_inv_def)
    have "thread_at y b = Left_loop"
      if "bases_at ?bs (Stop_base (Suc i)) b = Base_deleted" "thread_at y (?bs ! i) = Left_loop" for b
      using bases_at_delete(2) [OF i that(1)] that(2) inv Delete_base by (auto simp: shutdown_inv_def)
    with Delete_base step inv bases_at_delete(1) [OF i] i show ?thesis
      by (auto simp: defs split: if_splits)
  next
    case (Join_thread i)
    with step inv bs(2) show ?thesis by (auto simp: defs bases_at_simps split: if_splits)
  next
    case Join_main
    with step inv joinable show ?thesis
      by (auto simp: defs bases_at_simps join_main_def impl_at_frame split: if_splits)
  qed (use step inv in \<open>auto simp: defs bases_at_simps\<close>)
qed

lemma shutdown_step_inv:
  assumes ok: "stoppable net conns s" and no_admin: "Admin \<notin> snd ` set conns"
    and inv: "shutdown_inv conns s y" and step: "shutdown_step True net conns y e = Some r"
  shows "(\<exists>y'. r = Inr y' \<and> shutdown_inv conns s y') \<or> statement y = Join_main \<and> 0 < waiting s \<and> r = Inl Undef"
proof (cases e)
  case Caller
  with caller_step_inv [OF ok inv] step show ?thesis by simp
next
  case (Thread b a)
  with thread_step_inv [OF inv no_admin] step show ?thesis by simp
next
  case Main_leaves
  with step inv show ?thesis by (auto simp: shutdown_inv_def split: if_splits)
qed

lemma run_schedule_inv:
  assumes "stoppable net conns s" "Admin \<notin> snd ` set conns"
  shows "run_schedule True net conns y es = Some y' \<Longrightarrow> shutdown_inv conns s y \<Longrightarrow> shutdown_inv conns s y'"
proof (induction es arbitrary: y)
  case (Cons e es)
  then obtain y1 where y1: "shutdown_step True net conns y e = Some (Inr y1)"
    "run_schedule True net conns y1 es = Some y'"
    by (auto split: option.splits sum.splits)
  from shutdown_step_inv [OF assms Cons.prems(2) y1(1)] Cons.IH [OF y1(2)] show ?case by simp
qed simp

section \<open>Progress\<close>

text \<open>Until it has finished, \<open>stopAndWait\<close> goes on, or a thread it waits for does.\<close>

definition is_enter :: "shutdown_event \<Rightarrow> bool" where
  "is_enter e \<longleftrightarrow> (\<exists>b k. e = Thread b (Enter k))"

lemma shutdown_progress:
  assumes ok: "stoppable net conns s" and inv: "shutdown_inv conns s y" and "statement y \<noteq> Finished"
  shows "\<exists>e r. \<not> is_enter e \<and> shutdown_step True net conns y e = Some r"
proof (cases "caller_step True net y")
  case (Some r)
  have "shutdown_step True net conns y Caller = Some r" using Some by simp
  then show ?thesis unfolding is_enter_def by blast
next
  case None
  let ?bs = "live_bases s"
  have bs: "base_threads s = ?bs" using ok by (simp add: stoppable_def server_inv_def)
  have goes_on: "\<exists>e r. \<not> is_enter e \<and> shutdown_step True net conns y e = Some r"
    if "thread_at y b \<noteq> Left_loop" "base_at y b = Base_stopped" for b
  proof (cases "thread_at y b")
    case In_loop
    with that have "\<exists>r. shutdown_step True net conns y (Thread b Leave) = Some r" by simp
    then show ?thesis by (force simp: is_enter_def)
  next
    case (In_callback k)
    then have "\<exists>r. shutdown_step True net conns y (Thread b Return) = Some r" by simp
    then show ?thesis by (force simp: is_enter_def)
  qed (use that in simp)
  show ?thesis
  proof (cases "statement y")
    case (Delete_base i)
    with None inv have i: "i < length ?bs" "thread_at y (?bs ! i) \<noteq> Left_loop"
      by (auto simp: caller_step_def shutdown_inv_def Let_def split: if_splits)
    with inv have "base_at y (?bs ! i) \<noteq> Base_deleted" by (auto simp: shutdown_inv_def)
    then have "base_at y (?bs ! i) = Base_stopped"
      using inv Delete_base by (auto simp: shutdown_inv_def bases_at_def split: if_splits)
    with goes_on i(2) show ?thesis by blast
  next
    case (Join_thread i)
    with None inv bs have i: "i < length ?bs" "thread_at y (?bs ! i) \<noteq> Left_loop"
      by (auto simp: caller_step_def shutdown_inv_def Let_def split: if_splits)
    with inv Join_thread show ?thesis by (auto simp: shutdown_inv_def bases_at_simps bases_at_def)
  next
    case Join_main
    with None inv have "shutdown_step True net conns y Main_leaves = Some (Inr (y\<lparr>main_left := True\<rparr>))"
      by (auto simp: caller_step_def shutdown_inv_def early_def Let_def split: if_splits)
    then show ?thesis by (force simp: is_enter_def)
  qed (use None inv assms(3) in \<open>auto simp: caller_step_def shutdown_inv_def Let_def split: option.splits if_splits\<close>)
qed

text \<open>And it comes nearer to its end: every event but the entering of a callback brings the measure
  down.\<close>

fun statements_left :: "nat \<Rightarrow> statement \<Rightarrow> nat" where
  "statements_left n Run_queued = 11 + 3 * n"
| "statements_left n Stop_application = 10 + 3 * n"
| "statements_left n Stop_admin = 9 + 3 * n"
| "statements_left n Delete_admin = 8 + 3 * n"
| "statements_left n Stop_listener = 7 + 3 * n"
| "statements_left n (Stop_base i) = 6 + n + 2 * (n - i)"
| "statements_left n (Delete_base i) = 5 + n + 2 * (n - i)"
| "statements_left n Clear_bases = 5 + n"
| "statements_left n (Join_thread i) = 4 + (n - i)"
| "statements_left n Clear_threads = 3"
| "statements_left n Join_main = 2"
| "statements_left n Set_shutdown = 1"
| "statements_left n _ = 0"

fun thread_left :: "thread_state \<Rightarrow> nat" where
  "thread_left In_loop = 1"
| "thread_left (In_callback k) = 2"
| "thread_left Left_loop = 0"

definition work_left :: "nat list \<Rightarrow> shutdown_state \<Rightarrow> nat" where
  "work_left bs y = statements_left (length bs) (statement y) + (\<Sum>b\<in>set bs. thread_left (thread_at y b)) +
     (if main_left y then 0 else 1)"

lemma thread_sum_update:
  assumes "b \<in> set bs"
  shows "(\<Sum>c\<in>set bs. thread_left (((thread_at y)(b := t)) c)) + thread_left (thread_at y b) =
    (\<Sum>c\<in>set bs. thread_left (thread_at y c)) + thread_left t"
proof -
  have "(\<Sum>c\<in>set bs - {b}. thread_left (((thread_at y)(b := t)) c)) = (\<Sum>c\<in>set bs - {b}. thread_left (thread_at y c))"
    by (intro sum.cong) auto
  then show ?thesis using assms by (simp add: sum.remove [of "set bs" b])
qed

lemma thread_step_work:
  assumes ok: "stoppable net conns s" and inv: "shutdown_inv conns s y"
    and step: "thread_step conns y b a = Some (Inr y')"
  shows "work_left (live_bases s) y' + (if is_enter (Thread b a) then 0 else 2) = work_left (live_bases s) y + 1"
proof -
  let ?bs = "live_bases s"
  have mem: "b \<in> set ?bs" if "(b, k) \<in> set conns" for k
    using ok that by (force simp: stoppable_def)
  obtain t where t: "y' = y\<lparr>thread_at := (thread_at y)(b := t)\<rparr>" "b \<in> set ?bs"
    "thread_left t + (if is_enter (Thread b a) then 0 else 2) = thread_left (thread_at y b) + 1"
  proof (cases a)
    case (Enter k)
    with step mem that [of "In_callback k"] show thesis by (auto simp: is_enter_def split: if_splits)
  next
    case Return
    with step mem inv that [of In_loop] show thesis
      by (auto simp: is_enter_def shutdown_inv_def split: thread_state.splits if_splits)
  next
    case Leave
    with step have l: "thread_at y b = In_loop" "base_at y b = Base_stopped"
      "y' = y\<lparr>thread_at := (thread_at y)(b := Left_loop)\<rparr>"
      by (auto split: if_splits base_state.splits)
    with inv have "b \<in> set ?bs"
      by (auto simp: shutdown_inv_def bases_at_def split: if_splits statement.splits)
    with l Leave that [of Left_loop] show thesis by (auto simp: is_enter_def)
  qed
  from thread_sum_update [OF t(2), of y t] t(1,3) show ?thesis by (simp add: work_left_def)
qed

lemma caller_step_work:
  assumes ok: "stoppable net conns s" and inv: "shutdown_inv conns s y"
    and step: "caller_step True net y = Some (Inr y')"
  shows "work_left (live_bases s) y' < work_left (live_bases s) y"
proof -
  have "admin_inv s" "base_threads s = live_bases s" using ok by (simp_all add: stoppable_def server_inv_def)
  moreover have "thread_at y' = thread_at y" "main_left y' = main_left y"
    using step by (auto simp: caller_step_def Let_def bind_res_Inr_iff split: statement.splits option.splits if_splits)
  moreover have "statements_left (length (live_bases s)) (statement y') <
      statements_left (length (live_bases s)) (statement y)"
    using step inv calculation(2)
    by (cases "statement y")
      (auto simp: caller_step_def shutdown_inv_def Let_def bind_res_Inr_iff split: option.splits if_splits)
  ultimately show ?thesis by (simp add: work_left_def)
qed

text \<open>How long a schedule can be, and that one leads to the end.\<close>

lemma schedule_work:
  assumes "stoppable net conns s" "Admin \<notin> snd ` set conns"
  shows "run_schedule True net conns y es = Some y' \<Longrightarrow> shutdown_inv conns s y \<Longrightarrow>
    length es + work_left (live_bases s) y' \<le> work_left (live_bases s) y + 2 * length (filter is_enter es)"
proof (induction es arbitrary: y)
  case (Cons e es)
  then obtain y1 where y1: "shutdown_step True net conns y e = Some (Inr y1)"
    "run_schedule True net conns y1 es = Some y'"
    by (auto split: option.splits sum.splits)
  have inv1: "shutdown_inv conns s y1"
    using shutdown_step_inv [OF assms Cons.prems(2) y1(1)] by simp
  have "Suc (work_left (live_bases s) y1) \<le> work_left (live_bases s) y + (if is_enter e then 2 else 0)"
  proof (cases e)
    case Caller
    with caller_step_work [OF assms(1) Cons.prems(2)] y1(1) show ?thesis by (simp add: is_enter_def)
  next
    case (Thread b a)
    with thread_step_work [OF assms(1) Cons.prems(2), of b a y1] y1(1) show ?thesis by (simp split: if_splits)
  next
    case Main_leaves
    with y1(1) show ?thesis by (auto simp: is_enter_def work_left_def split: if_splits)
  qed
  with Cons.IH [OF y1(2) inv1] show ?case by (auto split: if_splits)
qed simp

lemma begin_work: "distinct bs \<Longrightarrow> work_left bs (begin_shutdown s) = 12 + 4 * length bs"
  by (simp add: work_left_def begin_shutdown_def distinct_card)

lemma schedule_to_end:
  assumes ok: "stoppable net conns s" "Admin \<notin> snd ` set conns"
  shows "shutdown_inv conns s y \<Longrightarrow> \<exists>es y'. run_schedule True net conns y es = Some y' \<and> filter is_enter es = [] \<and>
    (statement y' = Finished \<or> (\<exists>e f. shutdown_step True net conns y' e = Some (Inl f)))"
proof (induction "work_left (live_bases s) y" arbitrary: y rule: less_induct)
  case less
  show ?case
  proof (cases "statement y = Finished")
    case True
    then show ?thesis by (intro exI [of _ "[]"] exI [of _ y]) simp
  next
    case False
    from shutdown_progress [OF ok(1) less.prems False] obtain e r where
      e: "\<not> is_enter e" "shutdown_step True net conns y e = Some r" by blast
    show ?thesis
    proof (cases r)
      case (Inl f)
      with e(2) show ?thesis by (intro exI [of _ "[]"] exI [of _ y]) auto
    next
      case (Inr y1)
      then have run: "run_schedule True net conns y [e] = Some y1" using e(2) by simp
      from schedule_work [OF ok run less.prems] e(1)
      have "work_left (live_bases s) y1 < work_left (live_bases s) y" by simp
      moreover have "shutdown_inv conns s y1" by (rule run_schedule_inv [OF ok run less.prems])
      ultimately obtain es y' where "run_schedule True net conns y1 es = Some y'" "filter is_enter es = []"
        "statement y' = Finished \<or> (\<exists>e f. shutdown_step True net conns y' e = Some (Inl f))"
        using less.hyps by blast
      then show ?thesis using e Inr by (intro exI [of _ "e # es"] exI [of _ y']) simp
    qed
  qed
qed

section \<open>Schedules that fail\<close>

lemma caller_prefix:
  assumes ok: "stoppable net conns s" and y: "impl y = s" "statement y = Run_queued"
  shows "\<exists>es. run_schedule waits net conns y es = Some (y\<lparr>impl := no_instances s, statement := Stop_listener\<rparr>)"
proof -
  have "admin_inv s" "pending_fault net s = None" using ok by (simp_all add: stoppable_def server_inv_def)
  with run_tasks_cases [of s net] have q: "run_tasks net s = Inr (ran_queued s)" by simp
  show ?thesis
  proof (cases "admin_started s")
    case None
    with q y have "run_schedule waits net conns y [Caller, Caller, Caller] =
        Some (y\<lparr>impl := no_instances s, statement := Stop_listener\<rparr>)"
      by (simp add: caller_step_def)
    then show ?thesis by blast
  next
    case (Some a)
    with q y have "run_schedule waits net conns y [Caller, Caller, Caller, Caller] =
        Some (y\<lparr>impl := no_instances s, statement := Stop_listener\<rparr>)"
      by (simp add: caller_step_def)
    then show ?thesis by blast
  qed
qed

text \<open>A base is deleted while its thread is in the loop.\<close>

lemma fails_without_waiting:
  assumes ok: "stoppable net conns s"
  shows "\<not> shutdown_safe False net conns s"
proof -
  let ?y0 = "begin_shutdown s" and ?b = "live_bases s ! 0"
  have ne: "live_bases s \<noteq> []" using ok by (simp add: stoppable_def server_inv_def phase_inv_def)
  obtain es where es: "run_schedule False net conns ?y0 es = Some (?y0\<lparr>impl := no_instances s, statement := Stop_listener\<rparr>)"
    using caller_prefix [OF ok, of ?y0] by (auto simp: begin_shutdown_def)
  define y where "y = ?y0\<lparr>impl := no_instances s, listener_stopped := True, statement := Stop_base 1,
    base_at := (\<lambda>_. Base_running)(?b := Base_deleted)\<rparr>"
  have "run_schedule False net conns (?y0\<lparr>impl := no_instances s, statement := Stop_listener\<rparr>) [Caller, Caller, Caller] = Some y"
    using ne by (simp add: caller_step_def begin_shutdown_def y_def)
  with es have "run_schedule False net conns ?y0 (es @ [Caller, Caller, Caller]) = Some y"
    by (simp only: run_schedule_append bind.bind_lunit)
  moreover have "shutdown_step False net conns y (Thread ?b Leave) = Some (Inl Undef)"
    by (simp add: y_def begin_shutdown_def)
  ultimately show ?thesis unfolding shutdown_safe_def by blast
qed

text \<open>The admin instance is deleted while a worker handles a request to it.\<close>

lemma fails_with_admin_request:
  assumes ok: "stoppable net conns s" and admin: "(b, Admin) \<in> set conns"
  shows "\<not> shutdown_safe waits net conns s"
proof -
  let ?y0 = "begin_shutdown s"
  let ?y1 = "?y0\<lparr>thread_at := (\<lambda>_. In_loop)(b := In_callback Admin)\<rparr>"
  have enter: "run_schedule waits net conns ?y0 [Thread b (Enter Admin)] = Some ?y1"
    using admin by (simp add: begin_shutdown_def)
  obtain es where es: "run_schedule waits net conns ?y1 es = Some (?y1\<lparr>impl := no_instances s, statement := Stop_listener\<rparr>)"
    using caller_prefix [OF ok, of ?y1] by (auto simp: begin_shutdown_def)
  let ?z = "?y1\<lparr>impl := no_instances s, statement := Stop_listener\<rparr>"
  have "run_schedule waits net conns ?y0 ([Thread b (Enter Admin)] @ es) = Some ?z"
    using enter es by (simp only: run_schedule_append bind.bind_lunit)
  moreover have "shutdown_step waits net conns ?z (Thread b Return) = Some (Inl Undef)" by simp
  ultimately show ?thesis unfolding shutdown_safe_def by blast
qed

lemma shutdown_safe_conditions:
  assumes ok: "stoppable net conns s"
  shows "shutdown_safe waits net conns s \<longleftrightarrow> waits \<and> Admin \<notin> snd ` set conns \<and> waiting s = 0"
proof (cases "waits \<and> Admin \<notin> snd ` set conns")
  case True
  then have no_admin: "Admin \<notin> snd ` set conns" and w: "waits" by simp_all
  have "\<not> shutdown_safe True net conns s" if wt: "0 < waiting s"
  proof -
    from schedule_to_end [OF ok no_admin begin_inv [OF ok]] obtain es y where
      es: "run_schedule True net conns (begin_shutdown s) es = Some y"
      "statement y = Finished \<or> (\<exists>e f. shutdown_step True net conns y e = Some (Inl f))" by blast
    from run_schedule_inv [OF ok no_admin es(1) begin_inv [OF ok]] wt
    have "statement y \<noteq> Finished" by (auto simp: shutdown_inv_def)
    with es show ?thesis unfolding shutdown_safe_def by blast
  qed
  moreover have "shutdown_safe True net conns s" if "waiting s = 0"
    unfolding shutdown_safe_def
  proof (intro allI impI notI)
    fix es y e f
    assume "run_schedule True net conns (begin_shutdown s) es = Some y"
      and "shutdown_step True net conns y e = Some (Inl f)"
    with shutdown_step_inv [OF ok no_admin run_schedule_inv [OF ok no_admin _ begin_inv [OF ok]]] that
    show False by fastforce
  qed
  ultimately show ?thesis using no_admin w by auto
next
  case False
  then show ?thesis
    using fails_without_waiting [OF ok] fails_with_admin_request [OF ok] by (cases waits) auto
qed

text \<open>A running system can be stopped, with its open connections.\<close>

lemma system_stoppable:
  assumes "system_reachable execute pf p0 serialize y" "started (server y)" "\<not> shutdown (server y)"
    "pending_fault net (server y) = None"
  shows "stoppable net (open_conns y) (server y)"
proof -
  have inv: "system_inv y" by (rule system_inv_reachable [OF assms(1)])
  have served: "\<exists>i. served_by y c i" if "c \<in> set (open_connections y)" for c
    using inv assms(3) that by (simp add: system_inv_def)
  then have "fst ` set (open_conns y) \<subseteq> set (live_bases (server y))"
    by (fastforce simp: open_conns_def served_by_def)
  moreover have "admin_server (server y) \<noteq> None" if "Admin \<in> snd ` set (open_conns y)"
  proof -
    from that obtain c where "c \<in> set (open_connections y)" "origin c = Admin"
      by (auto simp: open_conns_def)
    with served [OF this(1)] show ?thesis by (auto simp: served_by_def)
  qed
  ultimately show ?thesis using inv assms by (simp add: stoppable_def system_inv_def)
qed

section \<open>Properties\<close>



text \<open>C19: When it is safe, it ends, and as the model of a single step says: a schedule has at most a fixed
  number of events and two for each callback that is entered meanwhile; at its end the call has
  finished with the state \<open>stopAndWait\<close> gives, or goes on without a further callback.\<close>

theorem shutdown_ends:
  assumes "system_reachable execute pf p0 serialize y" and "started (server y)"
    and "\<not> shutdown (server y)" and "pending_fault net (server y) = None"
    and "shutdown_safe True net (open_conns y) (server y)"
    and "run_schedule True net (open_conns y) (begin_shutdown (server y)) es = Some z"
  shows "length es \<le> 12 + 4 * length (live_bases (server y)) + 2 * length (filter is_enter es) \<and>
    (if statement z = Finished then stopAndWait net (server y) = Inr (None, impl z)
     else \<exists>e z'. \<not> is_enter e \<and> shutdown_step True net (open_conns y) z e = Some (Inr z'))"
proof -
  let ?s = "server y" and ?cs = "open_conns y"
  have ok: "stoppable net ?cs ?s" by (rule system_stoppable [OF assms(1-4)])
  with assms(5) have c: "Admin \<notin> snd ` set ?cs" "waiting ?s = 0"
    using shutdown_safe_conditions [OF ok] by simp_all
  have inv: "shutdown_inv ?cs ?s z" by (rule run_schedule_inv [OF ok c(1) assms(6) begin_inv [OF ok]])
  have d: "distinct (live_bases ?s)" and sinv: "server_inv ?s"
    using ok by (simp_all add: stoppable_def server_inv_def)
  have "length es \<le> 12 + 4 * length (live_bases ?s) + 2 * length (filter is_enter es)"
    using schedule_work [OF ok c(1) assms(6) begin_inv [OF ok]] begin_work [OF d, of ?s] by simp
  moreover have "stopAndWait net ?s = Inr (None, impl z)" if "statement z = Finished"
    using inv that stopAndWait_running [OF sinv assms(2,3), of net] assms(4) c(2)
    by (simp add: shutdown_inv_def after_stop_def)
  moreover have "\<exists>e z'. \<not> is_enter e \<and> shutdown_step True net ?cs z e = Some (Inr z')"
    if "statement z \<noteq> Finished"
  proof -
    from shutdown_progress [OF ok inv that] obtain e r where
      "\<not> is_enter e" "shutdown_step True net ?cs z e = Some r" by blast
    with shutdown_step_inv [OF ok c(1) inv] c(2) show ?thesis by fastforce
  qed
  ultimately show ?thesis by simp
qed

theorem shutdown_ends_witness:
  "\<exists>es z. run_schedule True (\<lambda>_. None) (open_conns one_connection) (begin_shutdown started_server) es = Some z \<and>
     length es \<le> 28 \<and> statement z = Finished \<and> stopAndWait (\<lambda>_. None) started_server = Inr (None, impl z)"
proof -
  let ?net = "\<lambda>_ :: listener_op. None :: exn option" and ?cs = "open_conns one_connection"
  have s: "server one_connection = started_server" by (simp add: one_connection_def)
  have safe: "shutdown_safe True ?net ?cs started_server"
    using shutdown_safe_conditions [OF system_stoppable [OF one_connection_reachable, of ?net]]
      started_server_state started_server_quiet by (simp add: s) (simp add: open_conns_def one_connection_def)
  have ok: "stoppable ?net ?cs started_server"
    using system_stoppable [OF one_connection_reachable, of ?net] started_server_state started_server_quiet
    by (simp add: s)
  have "Admin \<notin> snd ` set ?cs" by (simp add: open_conns_def one_connection_def)
  from schedule_to_end [OF ok this begin_inv [OF ok]] obtain es z where
    es: "run_schedule True ?net ?cs (begin_shutdown started_server) es = Some z" "filter is_enter es = []"
    "statement z = Finished \<or> (\<exists>e f. shutdown_step True ?net ?cs z e = Some (Inl f))" by blast
  from es(1,3) safe have "statement z = Finished" unfolding shutdown_safe_def by blast
  with shutdown_ends [OF one_connection_reachable, of ?net es z] es(1,2) safe started_server_state
    started_server_quiet show ?thesis by (auto simp: s)
qed

end
