(* ===== verification/Hello_Server.thy ===== *)
theory Hello_Server
  imports Server_Instance
begin

text \<open>
  \<open>example/hello_server.cc\<close>: five resources, and the routes \<open>main\<close> registers them at. They
  are the concrete program on which the general results are exercised: their templates are
  pairwise distinct and overlap in their variables, and their methods read path parameters,
  query and post parameters and the entity.
\<close>

section \<open>The resources\<close>

definition newline :: string where "newline = [CHR 0x0A]"

definition text_response :: "string \<Rightarrow> response res" where
  "text_response s = Inr (Response OK TEXT_PLAIN s)"

definition HelloResource :: "nat \<Rightarrow> resource" where
  "HelloResource a = (Resource a ''/'')\<lparr>get_method :=
     \<lparr>signature = [], body = (\<lambda>_. text_response (''Hello, World'' @ newline))\<rparr>\<rparr>"

definition HelloParam_get :: "arg list \<Rightarrow> response res" where
  "HelloParam_get args =
     (case args of [AString param] \<Rightarrow> text_response (''Hello, '' @ param @ newline) | _ \<Rightarrow> Inl Undef)"

definition HelloParamResource :: "nat \<Rightarrow> resource" where
  "HelloParamResource a = (Resource a ''/{user}'')\<lparr>get_method :=
     \<lparr>signature = [TString], body = HelloParam_get\<rparr>\<rparr>"

definition HelloDoubleParam_get :: "arg list \<Rightarrow> response res" where
  "HelloDoubleParam_get args =
     (case args of
        [AString user, AString message] \<Rightarrow>
          text_response (''Hello, '' @ user @ '', '' @ message @ newline)
      | _ \<Rightarrow> Inl Undef)"

definition HelloDoubleParam_put :: "arg list \<Rightarrow> response res" where
  "HelloDoubleParam_put args =
     (case args of
        [AString user, AString message, AEntity ent] \<Rightarrow>
          text_response (''PUT Hello, '' @ user @ '', '' @ message @ '': '' @ Entity_toString ent @ newline)
      | _ \<Rightarrow> Inl Undef)"

definition HelloDoubleParamResource :: "nat \<Rightarrow> resource" where
  "HelloDoubleParamResource a = (Resource a ''/{user}/{message}'')
     \<lparr>get_method := \<lparr>signature = [TString, TString], body = HelloDoubleParam_get\<rparr>,
      put_method := \<lparr>signature = [TString, TString, TEntity], body = HelloDoubleParam_put\<rparr>\<rparr>"

text \<open>\<open>val.front()\<close> when there is a value, the empty string otherwise.\<close>

definition front_or_empty :: "string list \<Rightarrow> string" where
  "front_or_empty val = (if val \<noteq> [] then hd val else '''')"

definition HelloQueryParam_get :: "arg list \<Rightarrow> response res" where
  "HelloQueryParam_get args =
     (case args of
        [AString user, AQuery params] \<Rightarrow>
          text_response (''Hello, '' @ user @ '', query: '' @
            front_or_empty (QueryParamsImpl_get params ''query'') @ newline)
      | _ \<Rightarrow> Inl Undef)"

definition HelloQueryParamResource :: "nat \<Rightarrow> resource" where
  "HelloQueryParamResource a = (Resource a ''/{user}/details/get'')\<lparr>get_method :=
     \<lparr>signature = [TString, TQuery], body = HelloQueryParam_get\<rparr>\<rparr>"

definition HelloPostParam_post :: "arg list \<Rightarrow> response res" where
  "HelloPostParam_post args =
     (case args of
        [AString user, APost params] \<Rightarrow>
          text_response (''Hello, '' @ user @ '', post[query]: '' @
            front_or_empty (PostParamsImpl_get params ''query'') @ newline)
      | _ \<Rightarrow> Inl Undef)"

definition HelloPostParamResource :: "nat \<Rightarrow> resource" where
  "HelloPostParamResource a = (Resource a ''/{user}/details/post'')\<lparr>post_method :=
     \<lparr>signature = [TString, TPost], body = HelloPostParam_post\<rparr>\<rparr>"

text \<open>The objects of \<open>main\<close>, in the order in which it registers them.\<close>

definition hello_resources :: "resource list" where
  "hello_resources =
     [HelloResource 1, HelloParamResource 2, HelloDoubleParamResource 3,
      HelloQueryParamResource 4, HelloPostParamResource 5]"

lemmas hello_defs = hello_resources_def HelloResource_def HelloParamResource_def
  HelloDoubleParamResource_def HelloQueryParamResource_def HelloPostParamResource_def
  Resource_def

section \<open>Registering them\<close>

lemma hello_paths:
  "map path hello_resources =
     [''/'', ''/{user}'', ''/{user}/{message}'', ''/{user}/details/get'', ''/{user}/details/post'']"
  by (simp add: hello_defs)

lemma hello_path_templates:
  "map template [''/'', ''/{user}'', ''/{user}/{message}'', ''/{user}/details/get'',
       ''/{user}/details/post''] =
     [[Lit ''''], [Lit '''', Var], [Lit '''', Var, Var],
      [Lit '''', Var, Lit ''details'', Lit ''get''],
      [Lit '''', Var, Lit ''details'', Lit ''post'']]"
  by code_simp

lemma hello_templates:
  "map (\<lambda>r. template (path r)) hello_resources =
     [[Lit ''''], [Lit '''', Var], [Lit '''', Var, Var],
      [Lit '''', Var, Lit ''details'', Lit ''get''],
      [Lit '''', Var, Lit ''details'', Lit ''post'']]"
  using hello_path_templates unfolding hello_paths [symmetric] by (simp only: list.map_comp comp_def)

lemma hello_template:
  "template (path (HelloResource a)) = [Lit '''']"
  "template (path (HelloParamResource a)) = [Lit '''', Var]"
  "template (path (HelloDoubleParamResource a)) = [Lit '''', Var, Var]"
  "template (path (HelloQueryParamResource a)) = [Lit '''', Var, Lit ''details'', Lit ''get'']"
  "template (path (HelloPostParamResource a)) = [Lit '''', Var, Lit ''details'', Lit ''post'']"
  using hello_path_templates unfolding list.map list.inject by (simp_all add: hello_defs)

definition hello_matcher :: matcher where
  "hello_matcher = snd (projr (trie_table.add_all ResourceMatcher (bound hello_resources)))"

lemma hello_registered:
  "trie_table.add_all ResourceMatcher (bound hello_resources) = Inr (None, hello_matcher)"
  "wf_matcher hello_matcher"
  "routes hello_matcher = routes_of hello_resources"
proof -
  have "distinct (map (\<lambda>r. template (path r)) hello_resources)"
    unfolding hello_templates by simp
  from register_distinct [OF this]
  show "trie_table.add_all ResourceMatcher (bound hello_resources) = Inr (None, hello_matcher)"
    "wf_matcher hello_matcher"
    "routes hello_matcher = routes_of hello_resources"
    by (auto simp: hello_matcher_def)
qed

lemma hello_routes:
  "routes hello_matcher ts = Some (r, f) \<Longrightarrow>
     r \<in> set hello_resources \<and> ts = template (path r) \<and> f = Some (bindMethods r)"
  unfolding hello_registered(3) routes_of_def by (auto dest: map_of_SomeD)

lemma hello_domain:
  "routes hello_matcher ts \<noteq> None \<longleftrightarrow> ts \<in> set (map (\<lambda>r. template (path r)) hello_resources)"
  unfolding hello_registered(3) routes_of_def by (simp add: map_of_eq_None_iff comp_def image_image)

lemma hello_candidate:
  "candidate hello_matcher cs ts \<longleftrightarrow>
     template_matches ts cs \<and> ts \<in> set (map (\<lambda>r. template (path r)) hello_resources)"
proof -
  have "ts \<noteq> []" if "ts \<in> set (map (\<lambda>r. template (path r)) hello_resources)" for ts
    using that unfolding hello_templates by auto
  then show ?thesis
    using template_matches_length [of ts cs] by (auto simp: candidate_def hello_domain simp del: not_None_eq)
qed

text \<open>The methods keep to the parameters of their routes.\<close>

lemma default_ok: "handler_ok n default_method"
  by (simp add: handler_ok_def default_method_def)

lemma hello_handlers:
  "handler_ok 0 (get_method (HelloResource a))"
  "handler_ok 1 (get_method (HelloParamResource a))"
  "handler_ok 2 (get_method (HelloDoubleParamResource a))"
  "handler_ok 2 (put_method (HelloDoubleParamResource a))"
  "handler_ok 1 (get_method (HelloQueryParamResource a))"
  "handler_ok 1 (post_method (HelloPostParamResource a))"
proof -
  have noundef: "text_response s \<noteq> Inl Undef" for s by (simp add: text_response_def)
  have types: "has_type x TString \<longleftrightarrow> (\<exists>s. x = AString s)" "has_type x TQuery \<longleftrightarrow> (\<exists>q. x = AQuery q)"
    "has_type x TPost \<longleftrightarrow> (\<exists>q. x = APost q)" "has_type x TEntity \<longleftrightarrow> (\<exists>e. x = AEntity e)" for x
    by (cases x; simp)+
  show "handler_ok 0 (get_method (HelloResource a))"
    by (simp add: handler_ok_def HelloResource_def noundef)
  show "handler_ok 1 (get_method (HelloParamResource a))"
    by (auto simp: handler_ok_def HelloParamResource_def HelloParam_get_def takes_path_param_def
        list_all2_Cons2 types noundef)
  show "handler_ok 2 (get_method (HelloDoubleParamResource a))"
    by (auto simp: handler_ok_def HelloDoubleParamResource_def HelloDoubleParam_get_def takes_path_param_def
        list_all2_Cons2 types noundef)
  show "handler_ok 2 (put_method (HelloDoubleParamResource a))"
    by (auto simp: handler_ok_def HelloDoubleParamResource_def HelloDoubleParam_put_def takes_path_param_def
        list_all2_Cons2 types noundef)
  show "handler_ok 1 (get_method (HelloQueryParamResource a))"
    by (auto simp: handler_ok_def HelloQueryParamResource_def HelloQueryParam_get_def takes_path_param_def
        list_all2_Cons2 types noundef)
  show "handler_ok 1 (post_method (HelloPostParamResource a))"
    by (auto simp: handler_ok_def HelloPostParamResource_def HelloPostParam_post_def takes_path_param_def
        list_all2_Cons2 types noundef)
qed

text \<open>A number of path parameters that suffices suffices with more.\<close>

lemma handler_ok_mono: "handler_ok k h \<Longrightarrow> k \<le> n \<Longrightarrow> handler_ok n h"
  by (auto simp: handler_ok_def)

lemma hello_variables:
  "map (\<lambda>r. length (filter (\<lambda>s. s = Var) (template (path r)))) hello_resources = [0, 1, 2, 1, 1]"
proof -
  have "map (\<lambda>t. length (filter (\<lambda>s. s = Var) t)) (map (\<lambda>r. template (path r)) hello_resources) =
      [0, 1, 2, 1, 1]"
    unfolding hello_templates by simp
  then show ?thesis by (simp only: list.map_comp comp_def)
qed

lemma hello_methods:
  "put_method (HelloResource a) = default_method" "post_method (HelloResource a) = default_method"
  "del_method (HelloResource a) = default_method" "put_method (HelloParamResource a) = default_method"
  "post_method (HelloParamResource a) = default_method" "del_method (HelloParamResource a) = default_method"
  "post_method (HelloDoubleParamResource a) = default_method"
  "del_method (HelloDoubleParamResource a) = default_method"
  "put_method (HelloQueryParamResource a) = default_method"
  "post_method (HelloQueryParamResource a) = default_method"
  "del_method (HelloQueryParamResource a) = default_method"
  "get_method (HelloPostParamResource a) = default_method"
  "put_method (HelloPostParamResource a) = default_method"
  "del_method (HelloPostParamResource a) = default_method"
  by (simp_all add: hello_defs)

lemma hello_resources_ok: "r \<in> set hello_resources \<Longrightarrow> resource_ok r"
proof -
  have vars: "length (filter (\<lambda>s. s = Var) (template (path (HelloResource 1)))) = 0"
    "length (filter (\<lambda>s. s = Var) (template (path (HelloParamResource 2)))) = 1"
    "length (filter (\<lambda>s. s = Var) (template (path (HelloDoubleParamResource 3)))) = 2"
    "length (filter (\<lambda>s. s = Var) (template (path (HelloQueryParamResource 4)))) = 1"
    "length (filter (\<lambda>s. s = Var) (template (path (HelloPostParamResource 5)))) = 1"
    using hello_variables unfolding hello_resources_def list.map list.inject by blast+
  assume "r \<in> set hello_resources"
  then consider "r = HelloResource 1" | "r = HelloParamResource 2" | "r = HelloDoubleParamResource 3"
    | "r = HelloQueryParamResource 4" | "r = HelloPostParamResource 5"
    unfolding hello_resources_def by auto
  then show ?thesis
    by cases (simp_all add: resource_ok_def vars [unfolded One_nat_def] hello_methods default_ok hello_handlers [unfolded One_nat_def])
qed

lemma hello_routes_ok: "routes_ok hello_matcher"
  unfolding routes_ok_def using hello_routes hello_resources_ok by blast

section \<open>A platform\<close>

text \<open>One concrete choice of everything outside the repository: new elements of a multimap go behind
  the others, a URL is split at its first question mark, the set is the red-black tree.\<close>

definition split_url :: url_parser where
  "split_url u =
     (let k = length (takeWhile (\<lambda>c. c \<noteq> CHR ''?'') u) in
      if u = [] then None
      else Some \<lparr>path_field = Some (0, k),
                 query_field = (if k < length u then Some (Suc k, length u - Suc k) else None)\<rparr>)"

definition tree_platform :: platform where
  "tree_platform = \<lparr>mm_ins = insert_back, url_parse = split_url, set_first = set_begin_rb\<rparr>"

lemma split_url_within: "url_fields_within split_url"
proof -
  have "length (takeWhile (\<lambda>c. c \<noteq> CHR ''?'') u) \<le> length u" for u
    by (rule length_takeWhile_le)
  then show ?thesis
    by (auto simp: url_fields_within_def split_url_def Let_def)
qed

text \<open>A request for the path \<open>/user\<close> reaches the resource of one parameter.\<close>

lemma user_path:
  assumes "u \<noteq> []" "CHR ''/'' \<notin> set u"
  shows "path_components (CHR ''/'' # u) = ['''', u]"
  using assms pieces_append_sep [of "[]" is_slash "CHR ''/''" u] pieces_no_seps [of u is_slash]
  by (auto simp: path_components_def)

lemma hello_user_candidate:
  "candidate hello_matcher ['''', u] ts \<longleftrightarrow> ts = [Lit '''', Var]"
  unfolding hello_candidate hello_templates by (auto simp: template_matches_def)

lemma hello_user_route:
  "routes hello_matcher [Lit '''', Var] = Some (HelloParamResource 2, Some (bindMethods (HelloParamResource 2)))"
  unfolding hello_registered(3) routes_of_def hello_resources_def
  by (simp only: list.map map_of.simps hello_template) simp

section \<open>The greeting\<close>

text \<open>A matcher with the routes of the example, however it came about.\<close>

definition serves_hello :: "matcher \<Rightarrow> bool" where
  "serves_hello m \<longleftrightarrow> wf_matcher m \<and> routes m = routes hello_matcher"

lemma serves_hello_candidate: "serves_hello m \<Longrightarrow> candidate m cs ts \<longleftrightarrow> candidate hello_matcher cs ts"
  by (simp add: serves_hello_def candidate_def)

lemma serves_hello_ok: "serves_hello m \<Longrightarrow> routes_ok m"
  using hello_routes_ok by (simp add: serves_hello_def routes_ok_def)

lemma user_greeted:
  assumes m: "serves_hello m" and set: "matcher_set (set_first pf)"
    and req: "build (mm_ins pf) (url_parse pf) b 1 = Inr req" "rpath req = CHR ''/'' # u"
    and u: "u \<noteq> []" "CHR ''/'' \<notin> set u"
  shows "get_response pf m b 1 = Inr (Response OK TEXT_PLAIN (''Hello, '' @ u @ newline))"
proof -
  let ?m = "match_of m ['''', u] [Lit '''', Var]"
  have wf: "wf_matcher m" and r: "routes m = routes hello_matcher" using m by (simp_all add: serves_hello_def)
  have "matcher_match (set_first pf) m (rpath req) = Inr (Some ?m)"
    using matcher_set.match_single [OF set wf, of "rpath req" "[Lit '''', Var]"]
    unfolding req(2) user_path [OF u] serves_hello_candidate [OF m] hello_user_candidate by blast
  from get_response_cases [OF req(1) this]
  have resp: "get_response pf m b 1 =
    (case dispatch req ?m of
       Inl (Throw e) \<Rightarrow> Inr (Response INTERNAL_ERROR TEXT_PLAIN (what e)) | r \<Rightarrow> r)" by simp
  have "rmethod req = GET"
    using req(1) by (auto simp: build_def bind_res_Inr_iff Request_def convertMethod_def split: option.splits)
  then have "dispatch req ?m = dispatch_handler (get_method (HelloParamResource 2)) [u] (uriInfo req)"
    by (simp add: dispatch_def match_of_def r hello_user_route bindMethods_def)
  also have "\<dots> = Inr (Response OK TEXT_PLAIN (''Hello, '' @ u @ newline))"
    by (simp add: dispatch_handler_eq HelloParamResource_def Extractor_def vector_at_def
        StringParam_parse_eq HelloParam_get_def text_response_def)
  finally show ?thesis using resp by simp
qed

end
