(* ===== verification/Search_Order.thy ===== *)
theory Search_Order
  imports Matcher_Correct
begin

text \<open>
  The search of \<open>ResourceMatcher::match\<close> (\<open>src/resource_matcher.cc\<close>) finds templates in an order
  that does not depend on the trie. Two things follow. First, on a trie that another thread extends
  meanwhile, where each round of the search may see another trie, the candidates are those of the
  old or of the new routes. Second, what is matched depends on the routes only, not on how the
  trie came about, provided that the set does nothing but compare (locale \<open>matcher_comparing_set\<close>).
\<close>

section \<open>The search, round by round\<close>

text \<open>Round \<open>i\<close> of the search sees the trie at the time \<open>w i\<close>, and the methods of the chosen node are
  copied at the time \<open>w n\<close> when the path has \<open>n\<close> components. \<open>at t\<close> is the trie at the time \<open>t\<close>.\<close>

definition round_during ::
    "(nat \<Rightarrow> matcher res) \<Rightarrow> (nat \<Rightarrow> nat) \<Rightarrow> search_state list \<times> nat \<Rightarrow> string \<Rightarrow> (search_state list \<times> nat) res" where
  "round_during at w si component =
     (let (states, i) = si in
      bind_res (at (w i)) (\<lambda>m.
      bind_res (search_round m states component) (\<lambda>states'. Inr (states', Suc i))))"

definition match_during ::
    "((search_state \<Rightarrow> search_state \<Rightarrow> bool) \<Rightarrow> search_state list \<Rightarrow> search_state res) \<Rightarrow>
     (nat \<Rightarrow> matcher res) \<Rightarrow> (nat \<Rightarrow> nat) \<Rightarrow> string \<Rightarrow> route_match option res" where
  "match_during first at w p =
     bind_res (PathComponents_for p (PathComponents_begin p) (round_during at w) ([initial_state], 0))
       (\<lambda>(states, i).
          let candidates = candidates_of states in
          if candidates = [] then Inr None
          else bind_res (first compare candidates) (\<lambda>ret. bind_res (at (w i)) (\<lambda>m. make_match m ret)))"

text \<open>Without a registration it is \<open>match\<close>.\<close>

lemma rounds_fixed:
  "fold_res (round_during (\<lambda>_. Inr m) w) (sts, i) cs =
     bind_res (fold_res (search_round m) sts cs) (\<lambda>sts'. Inr (sts', i + length cs))"
proof (induction cs arbitrary: sts i)
  case (Cons c cs)
  then show ?case by (cases "search_round m sts c") (simp_all add: round_during_def)
qed simp

lemma match_during_fixed: "match_during first (\<lambda>_. Inr m) w p = matcher_match first m p"
  by (simp add: match_during_def matcher_match_def PathComponents_for_eq rounds_fixed bind_res_assoc cong: if_cong)

section \<open>The templates a search has found\<close>

definition walkable :: "matcher \<Rightarrow> seg list \<Rightarrow> bool" where
  "walkable m ts \<longleftrightarrow> walk m head_addr ts \<noteq> None"

text \<open>The templates of the states that are alive after a round, in order.\<close>

definition found :: "matcher \<Rightarrow> seg list list \<Rightarrow> string \<Rightarrow> seg list list" where
  "found m tss c = filter (walkable m) (map (\<lambda>ts. ts @ [Lit c]) tss @ map (\<lambda>ts. ts @ [Var]) tss)"

definition alive :: "search_state list \<Rightarrow> search_state list" where
  "alive sts = filter (\<lambda>st. \<not> terminated st) sts"

lemma alive_simps [simp]:
  "alive [] = []" "terminated st \<Longrightarrow> alive (st # sts) = alive sts"
  "\<not> terminated st \<Longrightarrow> alive (st # sts) = st # alive sts" "alive (sts @ sts') = alive sts @ alive sts'"
  by (simp_all add: alive_def)

lemma alive_concat_map:
  "(\<And>x. x \<in> set xs \<Longrightarrow> terminated x \<Longrightarrow> alive (g x) = []) \<Longrightarrow>
     alive (concat (map g xs)) = concat (map (\<lambda>x. alive (g x)) (alive xs))"
proof (induction xs)
  case (Cons x xs)
  then show ?case by (cases "terminated x") simp_all
qed simp

lemma list_all2_concat_map:
  assumes "list_all2 P xs ys" "\<And>x y. x \<in> set xs \<Longrightarrow> y \<in> set ys \<Longrightarrow> P x y \<Longrightarrow> list_all2 Q (f x) (g y)"
  shows "list_all2 Q (concat (map f xs)) (concat (map g ys))"
  using assms
proof (induction xs ys rule: list_all2_induct)
  case (Cons x xs y ys)
  then show ?case by (simp add: list_all2_appendI)
qed simp

definition found_states :: "matcher \<Rightarrow> string list \<Rightarrow> seg list list \<Rightarrow> search_state list \<Rightarrow> bool" where
  "found_states m cs tss sts \<longleftrightarrow>
     list_all2 (state_at m cs) tss (alive sts) \<and> (\<forall>st\<in>set sts. terminated st \<longrightarrow> matched st = None)"

lemma explore_found:
  assumes wf: "wf_matcher m" and p: "position_at m cs ts st"
  shows "\<exists>st' add. explore m c st = Inr (st', add) \<and> (terminated st' \<longrightarrow> matched st' = None) \<and>
    (\<forall>s\<in>set add. \<not> terminated s) \<and>
    list_all2 (state_at m (cs @ [c])) (filter (walkable m) [ts @ [Lit c]]) (alive [st']) \<and>
    list_all2 (state_at m (cs @ [c])) (filter (walkable m) [ts @ [Var]]) (alive add)"
proof -
  have w: "walkable m (ts @ [s]) \<longleftrightarrow> child m (cur st) s \<noteq> None" for s
    using p by (simp add: walkable_def walk_snoc position_at_def)
  from explore_position [OF wf p, of c] show ?thesis
    by (cases "child m (cur st) Var"; cases "child m (cur st) (Lit c)")
      (auto simp: w dead_state_def state_at_def)
qed

lemma found_concat:
  "found m tss c = concat (map (\<lambda>ts. filter (walkable m) [ts @ [Lit c]]) tss) @
     concat (map (\<lambda>ts. filter (walkable m) [ts @ [Var]]) tss)"
proof -
  have "filter P (map g xs) = concat (map (\<lambda>x. filter P [g x]) xs)" for P and g :: "seg list \<Rightarrow> seg list" and xs
    by (induction xs) simp_all
  then show ?thesis unfolding found_def filter_append by (intro arg_cong2 [where f = "(@)"]) blast+
qed

lemma round_found:
  assumes wf: "wf_matcher m" and a: "list_all2 (position_at m cs) tss (alive sts)"
    and dead: "\<forall>st\<in>set sts. terminated st \<longrightarrow> matched st = None"
  shows "\<exists>sts'. search_round m sts c = Inr sts' \<and> found_states m (cs @ [c]) (found m tss c) sts'"
proof -
  let ?f = "\<lambda>st. projr (explore m c st)"
  let ?sts' = "map (\<lambda>st. fst (?f st)) sts @ concat (map (\<lambda>st. snd (?f st)) sts)"
  have ended: "explore m c st = Inr (st, [])" if "terminated st" for st
    using that by (simp add: explore_def)
  note step = explore_found [OF wf, of cs _ _ c]
  have pos: "\<exists>ts. position_at m cs ts st" if "st \<in> set sts" "\<not> terminated st" for st
  proof -
    from that have "st \<in> set (alive sts)" by (simp add: alive_def)
    with a show ?thesis by (metis in_set_conv_nth list_all2_conv_all_nth)
  qed
  have 1: "search_round m sts c = Inr ?sts'"
    using ended step pos by (intro search_round_eq) blast
  have "alive ?sts' = alive (concat (map (\<lambda>st. [fst (?f st)]) sts)) @ alive (concat (map (\<lambda>st. snd (?f st)) sts))"
    by simp
  also have "\<dots> = concat (map (\<lambda>st. alive [fst (?f st)]) (alive sts)) @
      concat (map (\<lambda>st. alive (snd (?f st))) (alive sts))"
    using ended by (intro arg_cong2 [where f = "(@)"] alive_concat_map) simp_all
  finally have al: "alive ?sts' = concat (map (\<lambda>st. alive [fst (?f st)]) (alive sts)) @
      concat (map (\<lambda>st. alive (snd (?f st))) (alive sts))" .
  have "list_all2 (state_at m (cs @ [c])) (found m tss c) (alive ?sts')"
    unfolding al found_concat using step
    by (intro list_all2_appendI list_all2_concat_map [OF a]) fastforce+
  moreover have "matched x = None" if "x \<in> set ?sts'" "terminated x" for x
  proof -
    from that obtain st where st: "st \<in> set sts" "x = fst (?f st) \<or> x \<in> set (snd (?f st))" by auto
    show ?thesis
    proof (cases "terminated st")
      case True
      with ended [OF True] st dead show ?thesis by auto
    next
      case False
      with pos [OF st(1)] step st(2) that(2) show ?thesis by fastforce
    qed
  qed
  ultimately show ?thesis using 1 by (auto simp: found_states_def)
qed

section \<open>Searching a trie that grows\<close>

definition subtrie :: "matcher \<Rightarrow> matcher \<Rightarrow> bool" where
  "subtrie m m' \<longleftrightarrow> (\<forall>a s b. child m a s = Some b \<longrightarrow> child m' a s = Some b)"

lemma subtrie_refl [simp]: "subtrie m m"
  by (simp add: subtrie_def)

lemma subtrie_trans: "subtrie m m' \<Longrightarrow> subtrie m' m'' \<Longrightarrow> subtrie m m''"
  by (simp add: subtrie_def)

lemma extends_subtrie: "extends m m' \<Longrightarrow> subtrie m m'"
  by (simp add: extends_def subtrie_def)

lemma subtrie_walk: "subtrie m m' \<Longrightarrow> walk m a t = Some b \<Longrightarrow> walk m' a t = Some b"
proof (induction t arbitrary: a)
  case (Cons s t)
  then show ?case by (auto simp: subtrie_def split: option.splits)
qed simp

lemma subtrie_walkable: "subtrie m m' \<Longrightarrow> walkable m t \<Longrightarrow> walkable m' t"
  using subtrie_walk by (fastforce simp: walkable_def)

lemma walkable_snoc: "walkable m (ts @ [s]) \<Longrightarrow> walkable m ts"
  by (auto simp: walkable_def walk_snoc split: option.splits)

text \<open>The templates found in \<open>n\<close> rounds, when round \<open>i\<close> sees the trie \<open>tr i\<close>.\<close>

primrec found_in :: "(nat \<Rightarrow> matcher) \<Rightarrow> string list \<Rightarrow> nat \<Rightarrow> seg list list" where
  "found_in tr cs 0 = [[]]"
| "found_in tr cs (Suc n) = found (tr n) (found_in tr cs n) (cs ! n)"

lemma rounds_found:
  assumes at: "\<And>i. \<exists>m. at (w i) = Inr m \<and> search_round m = search_round (tr i)"
    and wf: "\<And>i. wf_matcher (tr i)" and grow: "\<And>i. subtrie (tr i) (tr (Suc i))"
  shows "n \<le> length cs \<Longrightarrow>
    \<exists>sts. fold_res (round_during at w) ([initial_state], 0) (take n cs) = Inr (sts, n) \<and>
      found_states (tr (n - 1)) (take n cs) (found_in tr cs n) sts"
proof (induction n)
  case 0
  show ?case
    by (auto simp: found_states_def state_at_def initial_state_def template_matches_def)
next
  case (Suc n)
  then obtain sts where 1: "fold_res (round_during at w) ([initial_state], 0) (take n cs) = Inr (sts, n)"
    "found_states (tr (n - 1)) (take n cs) (found_in tr cs n) sts" by auto
  obtain m where m: "at (w n) = Inr m" "search_round m = search_round (tr n)" using at by blast
  have "subtrie (tr (n - 1)) (tr n)" using grow [of "n - 1"] by (cases n) simp_all
  then have "list_all2 (position_at (tr n) (take n cs)) (found_in tr cs n) (alive sts)"
    using 1(2) subtrie_walk unfolding found_states_def
    by (auto elim!: list_all2_mono simp: state_at_def position_at_def)
  from round_found [OF wf this, of "cs ! n"] 1(2) obtain sts' where
    2: "search_round (tr n) sts (cs ! n) = Inr sts'"
    "found_states (tr n) (take n cs @ [cs ! n]) (found_in tr cs (Suc n)) sts'"
    by (auto simp: found_states_def)
  have "round_during at w (sts, n) (cs ! n) = Inr (sts', Suc n)" by (simp add: round_during_def m 2(1))
  with 1(1) 2(2) Suc.prems show ?case
    by (simp add: take_Suc_conv_app_nth fold_res_append)
qed

text \<open>The candidates are the states of the registered templates among these.\<close>

definition candidate_state :: "matcher \<Rightarrow> string list \<Rightarrow> seg list \<Rightarrow> search_state" where
  "candidate_state m cs ts =
     \<lparr>cur = the (walk m head_addr ts), variables = bindings ts cs, matched = map_option fst (routes m ts),
      smethods = walk m head_addr ts, terminated = False, literals = literal_text ts cs\<rparr>"

definition routed :: "matcher \<Rightarrow> seg list \<Rightarrow> bool" where
  "routed m ts \<longleftrightarrow> routes m ts \<noteq> None"

lemma found_states_candidates:
  assumes f: "found_states m cs tss sts" and cs: "cs \<noteq> []"
  shows "candidates_of sts = map (candidate_state m cs) (filter (routed m) tss)"
proof -
  have "candidates_of sts = filter (\<lambda>st. matched st \<noteq> None) (alive sts)"
    using f unfolding candidates_of_def alive_def found_states_def by (auto intro!: filter_cong)
  moreover have "list_all2 (state_at m cs) tss sts' \<Longrightarrow>
      filter (\<lambda>st. matched st \<noteq> None) sts' = map (candidate_state m cs) (filter (routed m) tss)" for sts'
  proof (induction tss sts' rule: list_all2_induct)
    case (Cons ts tss st sts')
    from Cons(1) cs have "matched st \<noteq> None \<longleftrightarrow> routed m ts"
      by (simp add: state_at_def routed_def routes_def)
    moreover have "st = candidate_state m cs ts" if "matched st \<noteq> None"
      using Cons(1) cs that by (intro search_state.equality) (simp_all add: state_at_def candidate_state_def routes_def)
    ultimately show ?case using Cons(3) by simp
  qed simp
  ultimately show ?thesis using f by (simp add: found_states_def)
qed

lemma found_states_Nil: "found_states m [] tss sts \<Longrightarrow> candidates_of sts = []"
proof -
  assume f: "found_states m [] tss sts"
  have "matched st = None" if "st \<in> set sts" for st
  proof (cases "terminated st")
    case False
    with that have "st \<in> set (alive sts)" by (simp add: alive_def)
    then obtain ts where "state_at m [] ts st"
      using f unfolding found_states_def by (metis in_set_conv_nth list_all2_conv_all_nth)
    then show ?thesis by (simp add: state_at_def)
  qed (use f that in \<open>auto simp: found_states_def\<close>)
  then show "candidates_of sts = []" by (simp add: candidates_of_def)
qed

text \<open>All templates that match a path, in the order in which they are found where the trie has them.\<close>

primrec shapes :: "string list \<Rightarrow> nat \<Rightarrow> seg list list" where
  "shapes cs 0 = [[]]"
| "shapes cs (Suc n) =
     map (\<lambda>ts. ts @ [Lit (cs ! n)]) (shapes cs n) @ map (\<lambda>ts. ts @ [Var]) (shapes cs n)"

lemma found_filter:
  "found m (filter P tss) c = filter (\<lambda>ts. P (butlast ts) \<and> walkable m ts)
     (map (\<lambda>ts. ts @ [Lit c]) tss @ map (\<lambda>ts. ts @ [Var]) tss)"
  by (simp add: found_def filter_map comp_def)

lemma found_in_filter:
  assumes le: "\<And>i. subtrie m (tr i)"
  shows "\<exists>P. found_in tr cs n = filter P (shapes cs n) \<and> (\<forall>ts. walkable m ts \<longrightarrow> P ts)"
proof (induction n)
  case 0
  show ?case by (intro exI [of _ "\<lambda>_. True"]) simp
next
  case (Suc n)
  then obtain P where P: "found_in tr cs n = filter P (shapes cs n)" "\<forall>ts. walkable m ts \<longrightarrow> P ts"
    by blast
  have "walkable m (butlast ts)" if "walkable m ts" for ts
    using that walkable_snoc [of m "butlast ts" "last ts"] by (cases "ts = []") simp_all
  with P(2) subtrie_walkable [OF le] show ?case
    by (intro exI [of _ "\<lambda>ts. P (butlast ts) \<and> walkable (tr n) ts"]) (simp add: P(1) found_filter)
qed

text \<open>The candidates of a search of \<open>m\<close>.\<close>

definition candidates_in :: "matcher \<Rightarrow> string list \<Rightarrow> search_state list" where
  "candidates_in m cs =
     (if cs = [] then [] else map (candidate_state m cs) (filter (routed m) (shapes cs (length cs))))"

lemma routed_walkable: "routed m ts \<Longrightarrow> walkable m ts"
  by (auto simp: routed_def walkable_def routes_def split: option.splits)

lemma candidate_state_subtrie:
  assumes "subtrie m m'" "routed m ts" "routes m' ts = routes m ts"
  shows "candidate_state m' cs ts = candidate_state m cs ts"
proof -
  from routed_walkable [OF assms(2)] obtain a where "walk m head_addr ts = Some a"
    by (auto simp: walkable_def)
  with subtrie_walk [OF assms(1) this] assms(3) show ?thesis by (simp add: candidate_state_def)
qed

lemma routed_filter:
  "\<forall>ts. walkable m ts \<longrightarrow> P ts \<Longrightarrow> filter (routed m) (filter P tss) = filter (routed m) tss"
  using routed_walkable by (auto intro!: filter_cong)

lemma fixed_candidates:
  assumes "found_states m cs (found_in (\<lambda>_. m) cs (length cs)) sts"
  shows "candidates_of sts = candidates_in m cs"
proof (cases "cs = []")
  case True
  with assms found_states_Nil show ?thesis by (auto simp: candidates_in_def)
next
  case False
  obtain P where P: "found_in (\<lambda>_. m) cs (length cs) = filter P (shapes cs (length cs))"
    "\<forall>ts. walkable m ts \<longrightarrow> P ts"
    using found_in_filter [of m "\<lambda>_. m" cs "length cs"] by auto
  with found_states_candidates [OF assms False] False routed_filter [OF P(2)] show ?thesis
    by (simp add: candidates_in_def)
qed

lemma search_candidates:
  assumes wf: "wf_matcher m"
  shows "\<exists>sts. fold_res (search_round m) [initial_state] cs = Inr sts \<and> candidates_of sts = candidates_in m cs"
  using rounds_found [of "\<lambda>_. Inr m" id "\<lambda>_. m" "length cs" cs] wf fixed_candidates
  by (auto simp: rounds_fixed bind_res_Inr_iff)

text \<open>Whichever of the tries the last round sees, the candidates are those of the old or the new routes.\<close>

lemma candidates_between:
  assumes le: "subtrie m x" "subtrie m m'" and P: "\<forall>ts. walkable m ts \<longrightarrow> P ts"
    and routes: "routes x = routes m \<or> x = m'" and new: "routes m' = (routes m)(t \<mapsto> v)" "routes m t = None"
    and cs: "cs \<noteq> []"
  shows "map (candidate_state x cs) (filter (routed x) (filter P (shapes cs (length cs))))
    \<in> {candidates_in m cs} \<union> (if x = m' then {candidates_in m' cs} else {})"
proof -
  let ?T = "shapes cs (length cs)"
  have before: "map (candidate_state x cs) (filter (routed m) ?T) = candidates_in m cs"
    if "subtrie m x" "\<And>ts. routed m ts \<Longrightarrow> routes x ts = routes m ts" for x
    using that candidate_state_subtrie [of m x] cs by (simp add: candidates_in_def)
  have in_m': "routed m' ts \<longleftrightarrow> ts = t \<or> routed m ts" for ts by (simp add: routed_def new(1))
  show ?thesis
  proof (cases "routes x = routes m")
    case True
    then have "routed x = routed m" by (simp add: routed_def fun_eq_iff)
    with routed_filter [OF P] before [OF le(1)] True show ?thesis by simp
  next
    case False
    with routes have x: "x = m'" by blast
    show ?thesis
    proof (cases "P t")
      case True
      have "filter (routed m') (filter P ?T) = filter (routed m') ?T"
        using True P routed_walkable [of m] in_m' by (auto intro!: filter_cong)
      with x cs show ?thesis by (simp add: candidates_in_def)
    next
      case False
      have "filter (routed m') (filter P ?T) = filter (routed m) ?T"
        using False P routed_walkable [of m] in_m' by (auto intro!: filter_cong)
      moreover have "routes m' ts = routes m ts" if "routed m ts" for ts
        using that new by (auto simp: routed_def)
      ultimately show ?thesis using x before [OF le(2)] by simp
    qed
  qed
qed

text \<open>Every search on the way from \<open>m\<close> to \<open>m'\<close> has the candidates of the one or the other.\<close>

lemma search_during:
  assumes at: "\<And>i. \<exists>m. at (w i) = Inr m \<and> search_round m = search_round (tr i)"
    and wf: "\<And>i. wf_matcher (tr i)" and grow: "\<And>i. subtrie (tr i) (tr (Suc i))"
    and le: "\<And>i. subtrie m (tr i)" "subtrie m m'"
    and routes: "\<And>i. routes (tr i) = routes m \<or> tr i = m'"
    and new: "routes m' = (routes m)(t \<mapsto> v)" "routes m t = None"
  shows "\<exists>sts. fold_res (round_during at w) ([initial_state], 0) cs = Inr (sts, length cs) \<and>
    (candidates_of sts = candidates_in m cs \<or>
     candidates_of sts = candidates_in m' cs \<and> tr (length cs - 1) = m') \<and>
    ((\<forall>i. tr i = m') \<longrightarrow> candidates_of sts = candidates_in m' cs)"
proof -
  let ?T = "shapes cs (length cs)" and ?last = "tr (length cs - 1)"
  obtain sts where sts: "fold_res (round_during at w) ([initial_state], 0) cs = Inr (sts, length cs)"
    "found_states ?last cs (found_in tr cs (length cs)) sts"
    using rounds_found [of at w tr "length cs" cs] at wf grow by auto
  obtain P where P: "found_in tr cs (length cs) = filter P ?T" "\<forall>ts. walkable m ts \<longrightarrow> P ts"
    using found_in_filter [of m tr cs "length cs"] le(1) by blast
  have "candidates_of sts = candidates_in m' cs" if all: "\<forall>i. tr i = m'"
  proof -
    from all have "tr = (\<lambda>_. m')" by auto
    with sts(2) fixed_candidates show ?thesis by simp
  qed
  moreover have "candidates_of sts = candidates_in m cs \<or> candidates_of sts = candidates_in m' cs \<and> ?last = m'"
  proof (cases "cs = []")
    case True
    with sts found_states_Nil show ?thesis by (auto simp: candidates_in_def)
  next
    case False
    have "candidates_of sts = map (candidate_state ?last cs) (filter (routed ?last) (filter P ?T))"
      using found_states_candidates [OF sts(2) False] by (simp only: P(1))
    with candidates_between [OF le P(2) routes new False, of "length cs - 1"] show ?thesis
      by (auto split: if_splits)
  qed
  ultimately show ?thesis using sts(1) by blast
qed

text \<open>The match made of a candidate.\<close>

lemma make_match_registered:
  assumes "ret \<in> set (candidates_in m cs)"
  obtains ts a r v where "routes m ts = Some (r, v)" "walk m head_addr ts = Some a" "registered_at m a = Some (r, v)"
    "\<And>x u. registered_at x a = Some (r, u) \<Longrightarrow>
      make_match x ret = Inr (Some \<lparr>mresource = Some r, mmethods = u, parameters = variables ret\<rparr>)"
proof -
  from assms obtain ts where ts: "ret = candidate_state m cs ts" "routed m ts"
    by (auto simp: candidates_in_def split: if_splits)
  then obtain a r v where a: "walk m head_addr ts = Some a" "registered_at m a = Some (r, v)"
    by (auto simp: routed_def routes_def split: option.splits)
  then have "routes m ts = Some (r, v)" by (simp add: routes_def)
  moreover have "make_match x ret = Inr (Some \<lparr>mresource = Some r, mmethods = u, parameters = variables ret\<rparr>)"
    if "registered_at x a = Some (r, u)" for x u
    using that a by (auto simp: ts(1) candidate_state_def make_match_def load_def registered_at_def routes_def
        split: option.splits)
  ultimately show thesis using a by (intro that) 
qed

section \<open>A resource without its methods\<close>

text \<open>The search does not look at the methods of a node.\<close>

definition forget_methods :: "node \<Rightarrow> node" where
  "forget_methods n = n\<lparr>nmethods := None\<rparr>"

lemma forget_methods_simps [simp]:
  "nresource (forget_methods n) = nresource n" "children (forget_methods n) = children n"
  "varChild (forget_methods n) = varChild n"
  by (simp_all add: forget_methods_def)

lemma bind_load_forget:
  assumes "map_option forget_methods (store m a) = map_option forget_methods (store m' a)"
    and "\<And>n. F (forget_methods n) = F n"
  shows "bind_res (load m a) F = bind_res (load m' a) F"
proof (cases "store m a")
  case None
  with assms(1) show ?thesis by (simp add: load_def)
next
  case (Some n)
  with assms(1) obtain n' where n': "store m' a = Some n'" "forget_methods n = forget_methods n'"
    by (cases "store m' a") auto
  have "F n = F (forget_methods n')" by (simp only: assms(2) n'(2) [symmetric])
  with Some n'(1) show ?thesis by (simp add: load_def assms(2))
qed

lemma explore_forget:
  assumes "\<And>a. map_option forget_methods (store m a) = map_option forget_methods (store m' a)"
  shows "explore m = explore m'"
proof (intro ext)
  fix c and st :: search_state
  let ?st = "st\<lparr>matched := None\<rparr>"
  define A where "A x v = bind_res (load x v) (\<lambda>vn.
      Inr [\<lparr>cur = v, variables = variables ?st @ [c], matched = nresource vn, smethods = Some v,
            terminated = False, literals = literals ?st @ ''.''\<rparr>])" for x v
  define B where "B x b add = bind_res (load x b) (\<lambda>bn.
      let state2 = ?st\<lparr>cur := b, literals := literals ?st @ c\<rparr> in
      Inr (if nresource bn \<noteq> None then state2\<lparr>matched := nresource bn, smethods := Some b\<rparr> else state2,
           add :: search_state list))" for x b add
  define C where "C x = (\<lambda>n :: node. bind_res (case varChild n of None \<Rightarrow> Inr [] | Some v \<Rightarrow> A x v)
      (\<lambda>add. case map_of (children n) c of None \<Rightarrow> Inr (?st\<lparr>terminated := True\<rparr>, add) | Some b \<Rightarrow> B x b add))" for x
  have e: "explore x c st = (if terminated st then Inr (st, []) else bind_res (load x (cur st)) (C x))" for x
    by (simp only: explore_def A_def B_def C_def Let_def)
  have "A m = A m'" unfolding A_def by (intro ext bind_load_forget assms) simp
  moreover have "B m = B m'" unfolding B_def Let_def by (intro ext bind_load_forget assms) simp
  ultimately have "C m = C m'" by (simp only: C_def)
  moreover have "bind_res (load m (cur st)) (C m') = bind_res (load m' (cur st)) (C m')"
    by (rule bind_load_forget [OF assms]) (simp add: C_def)
  ultimately show "explore m c st = explore m' c st" by (simp add: e)
qed

lemma search_forget:
  assumes "\<And>a. map_option forget_methods (store m a) = map_option forget_methods (store m' a)"
  shows "search_round m = search_round m'"
  by (simp add: explore_forget [OF assms] search_round_def fun_eq_iff)

section \<open>Matching depends on the routes only\<close>

lemma make_match_candidate:
  assumes "routes m ts = Some (r, v)"
  shows "make_match m (candidate_state m cs ts) =
    Inr (Some \<lparr>mresource = Some r, mmethods = v, parameters = bindings ts cs\<rparr>)"
  using assms by (auto simp: candidate_state_def make_match_def load_def registered_at_def routes_def
      split: option.splits)

text \<open>The nodes of one trie at the places of those of another, and search states moved along.\<close>

definition move_node :: "matcher \<Rightarrow> matcher \<Rightarrow> addr \<Rightarrow> addr" where
  "move_node m m' a = the (walk m' head_addr (THE ts. walk m head_addr ts = Some a))"

definition move_state :: "matcher \<Rightarrow> matcher \<Rightarrow> search_state \<Rightarrow> search_state" where
  "move_state m m' st =
     st\<lparr>cur := move_node m m' (cur st), smethods := map_option (move_node m m') (smethods st)\<rparr>"

lemma move_candidate:
  assumes wf: "wf_matcher m" and routes: "routes m = routes m'" and routed: "routed m ts"
  shows "move_state m m' (candidate_state m cs ts) = candidate_state m' cs ts"
proof -
  from routed_walkable [OF routed] obtain a where a: "walk m head_addr ts = Some a" by (auto simp: walkable_def)
  have "routed m' ts" using routed routes by (simp add: routed_def)
  from routed_walkable [OF this] obtain b where b: "walk m' head_addr ts = Some b" by (auto simp: walkable_def)
  have "(THE ts. walk m head_addr ts = Some a) = ts" using a walk_inj [OF wf _ a] by (rule the_equality)
  with a b routes show ?thesis by (simp add: move_state_def move_node_def candidate_state_def)
qed

lemma move_candidates:
  assumes "wf_matcher m" "routes m = routes m'"
  shows "candidates_in m' cs = map (move_state m m') (candidates_in m cs)"
proof -
  have "routed m' = routed m" using assms(2) by (simp add: routed_def fun_eq_iff)
  with move_candidate [OF assms] show ?thesis by (simp add: candidates_in_def)
qed

lemma compare_move: "compare (move_state m m' x) (move_state m m' y) = compare x y"
  by (simp add: compare_def move_state_def)

lemma make_match_move:
  assumes "wf_matcher m" "routes m = routes m'" and ret: "ret \<in> set (candidates_in m cs)"
  shows "make_match m' (move_state m m' ret) = make_match m ret"
proof -
  from ret obtain ts where ts: "ret = candidate_state m cs ts" "routed m ts"
    by (auto simp: candidates_in_def split: if_splits)
  then obtain r v where "routes m ts = Some (r, v)" by (auto simp: routed_def)
  with make_match_candidate [of m ts r v cs] make_match_candidate [of m' ts r v cs] assms(2)
  show ?thesis unfolding ts(1) move_candidate [OF assms(1,2) ts(2)] by simp
qed

context matcher_set
begin

lemma match_candidates:
  assumes "wf_matcher m"
  shows "matcher_match first m p =
    (let cands = candidates_in m (path_components p) in
     if cands = [] then Inr None else bind_res (first compare cands) (make_match m))"
  using search_candidates [OF assms, of "path_components p"]
  by (auto simp: matcher_match_def PathComponents_for_eq Let_def)

lemma bind_first_cong:
  "cands \<noteq> [] \<Longrightarrow> (\<And>ret. ret \<in> set cands \<Longrightarrow> F ret = G ret) \<Longrightarrow>
     bind_res (first compare cands) F = bind_res (first compare cands) G"
  using first_sound [of cands compare] by (intro bind_res_cong) auto

end

locale matcher_comparing_set = matcher_set first + comparing_set first
  for first :: "(search_state \<Rightarrow> search_state \<Rightarrow> bool) \<Rightarrow> search_state list \<Rightarrow> search_state res"
begin

lemma match_routes:
  assumes wf: "wf_matcher m" "wf_matcher m'" and routes: "routes m = routes m'"
  shows "matcher_match first m' p = matcher_match first m p"
proof (cases "candidates_in m (path_components p) = []")
  case True
  with move_candidates [OF wf(1) routes] show ?thesis
    by (simp add: match_candidates [OF wf(1)] match_candidates [OF wf(2)])
next
  case False
  let ?cs = "candidates_in m (path_components p)" and ?f = "move_state m m'"
  have "matcher_match first m' p = bind_res (first compare (map ?f ?cs)) (make_match m')"
    using False by (simp add: match_candidates [OF wf(2)] move_candidates [OF wf(1) routes])
  also have "\<dots> = bind_res (first compare ?cs) (\<lambda>ret. make_match m' (?f ret))"
    by (simp add: first_map compare_move bind_res_assoc)
  also have "\<dots> = bind_res (first compare ?cs) (make_match m)"
    by (intro bind_first_cong False make_match_move [OF wf(1) routes])
  finally show ?thesis using False by (simp add: match_candidates [OF wf(1)])
qed

end

interpretation match_std_comparing: matcher_comparing_set set_begin_std
  by unfold_locales

interpretation match_rb_comparing: matcher_comparing_set set_begin_rb
  by unfold_locales

end
