(* ===== verification/End_To_End.thy ===== *)
theory End_To_End
  imports Connection Hello_Server Search_Order
begin

text \<open>
  What an application observes of the library from end to end: the list of its resources and the
  requests it is sent determine the responses, without tries, search states and parsers. First the
  specification, a function on that list; then that \<open>get_response\<close> implements it, and the path of
  a request from the bytes of a connection to the bytes a client reads.
\<close>

section \<open>The specification\<close>

text \<open>The resources whose templates match a path, and those paths at which there is no choice.\<close>

definition matching :: "resource list \<Rightarrow> string \<Rightarrow> resource list" where
  "matching rs p =
     filter (\<lambda>r. path_components p \<noteq> [] \<and> template_matches (template (path r)) (path_components p)) rs"

definition unambiguous :: "resource list \<Rightarrow> string \<Rightarrow> bool" where
  "unambiguous rs p \<longleftrightarrow> length (matching rs p) \<le> 1"

definition failure :: "exn \<Rightarrow> response" where
  "failure e = Response INTERNAL_ERROR TEXT_PLAIN (what e)"

text \<open>A resource answers by its method for the request, called on the components the variables of its
  template stand for; an exception becomes an internal error.\<close>

definition answer_by :: "request \<Rightarrow> resource \<Rightarrow> response res" where
  "answer_by req r =
     (case dispatch_handler (method_handler r (rmethod req))
             (bindings (template (path r)) (path_components (rpath req))) (uriInfo req) of
        Inl (Throw e) \<Rightarrow> Inr (failure e)
      | resp \<Rightarrow> resp)"

definition answer :: "resource list \<Rightarrow> request \<Rightarrow> response res" where
  "answer rs req =
     (case matching rs (rpath req) of [] \<Rightarrow> Inr notFound | r # _ \<Rightarrow> answer_by req r)"

text \<open>Where there is a choice, a best resource is chosen if the templates agree on which are best,
  and any that matches if they do not.\<close>

definition agreeing :: "resource list \<Rightarrow> string \<Rightarrow> bool" where
  "agreeing rs p \<longleftrightarrow>
     (\<forall>r\<in>set (matching rs p). \<forall>r'\<in>set (matching rs p).
        \<not> conflict (path_components p) (template (path r)) (template (path r')))"

definition best :: "resource list \<Rightarrow> string \<Rightarrow> resource list" where
  "best rs p =
     filter (\<lambda>r. \<forall>r'\<in>set (matching rs p).
         dominates (path_components p) (template (path r)) (template (path r')))
       (matching rs p)"

definition answers :: "resource list \<Rightarrow> request \<Rightarrow> response res set" where
  "answers rs req =
     (if matching rs (rpath req) = [] then {Inr notFound}
      else answer_by req ` set (if agreeing rs (rpath req) then best rs (rpath req) else matching rs (rpath req)))"

text \<open>A message for which no request can be built is answered by an internal error, too.\<close>

definition answer_message :: "platform \<Rightarrow> resource list \<Rightarrow> builder \<Rightarrow> int \<Rightarrow> response res" where
  "answer_message pf rs b k =
     (case build (mm_ins pf) (url_parse pf) b k of
        Inl (Throw e) \<Rightarrow> Inr (failure e)
      | Inl Undef \<Rightarrow> Inl Undef
      | Inr req \<Rightarrow> answer rs req)"

definition answers_message :: "platform \<Rightarrow> resource list \<Rightarrow> builder \<Rightarrow> int \<Rightarrow> response res set" where
  "answers_message pf rs b k =
     (case build (mm_ins pf) (url_parse pf) b k of
        Inl (Throw e) \<Rightarrow> {Inr (failure e)}
      | Inl Undef \<Rightarrow> {Inl Undef}
      | Inr req \<Rightarrow> answers rs req)"

text \<open>Without a choice there is one answer.\<close>

lemma answers_unambiguous:
  assumes "unambiguous rs (rpath req)"
  shows "answers rs req = {answer rs req}"
proof (cases "matching rs (rpath req)")
  case (Cons r rs')
  with assms have "rs' = []" by (simp add: unambiguous_def)
  with Cons show ?thesis
    by (simp add: answers_def answer_def best_def dominates_def)
qed (simp add: answers_def answer_def)

section \<open>The implementation\<close>

lemma matching_Nil: "matching rs p = [] \<longleftrightarrow>
    (\<forall>r\<in>set rs. \<not> (path_components p \<noteq> [] \<and> template_matches (template (path r)) (path_components p)))"
  by (simp add: matching_def filter_empty_conv)

lemma matching_single:
  assumes "unambiguous rs p" "matching rs p = r # rs'"
  shows "r \<in> set rs" "path_components p \<noteq> []" "template_matches (template (path r)) (path_components p)"
    "\<forall>r'\<in>set rs. template_matches (template (path r')) (path_components p) \<longrightarrow> r' = r"
proof -
  have one: "matching rs p = [r]" using assms by (simp add: unambiguous_def)
  then have "set (matching rs p) = {r}" by simp
  then have r: "r' \<in> set rs \<and> path_components p \<noteq> [] \<and>
      template_matches (template (path r')) (path_components p) \<longleftrightarrow> r' = r" for r'
    by (auto simp: matching_def)
  from r [of r] show "r \<in> set rs" "path_components p \<noteq> []"
    "template_matches (template (path r)) (path_components p)" by simp_all
  with r show "\<forall>r'\<in>set rs. template_matches (template (path r')) (path_components p) \<longrightarrow> r' = r" by blast
qed

lemma dispatch_registered:
  "(case dispatch req \<lparr>mresource = Some r, mmethods = Some (bindMethods r),
        parameters = bindings (template (path r)) (path_components (rpath req))\<rparr> of
      Inl (Throw e) \<Rightarrow> Inr (Response INTERNAL_ERROR TEXT_PLAIN (what e)) | resp \<Rightarrow> resp) = answer_by req r"
  by (cases "rmethod req")
    (simp_all add: answer_by_def failure_def dispatch_def bindMethods_def split: sum.split fault.split)

lemma routes_of_permuted:
  assumes "distinct (map (\<lambda>r. template (path r)) rs)" "mset rs' = mset rs"
  shows "routes_of rs' = routes_of rs"
proof
  fix ts
  have d: "distinct (map (\<lambda>r. template (path r)) rs')"
    using assms by (metis mset_map mset_eq_imp_distinct_iff)
  have "set rs' = set rs" using assms(2) by (metis set_mset_mset)
  moreover have "routes_of xs ts = Some v \<longleftrightarrow> (\<exists>r\<in>set xs. ts = template (path r) \<and> v = (r, Some (bindMethods r)))"
    if "distinct (map (\<lambda>r. template (path r)) xs)" for xs v
    using that unfolding routes_of_def by (subst map_of_eq_Some_iff) (auto simp: comp_def)
  ultimately have "routes_of rs' ts = Some v \<longleftrightarrow> routes_of rs ts = Some v" for v
    by (simp only: assms(1) d)
  then show "routes_of rs' ts = routes_of rs ts" by (metis not_None_eq)
qed

text \<open>The candidates of the search are the templates of the matching resources.\<close>

lemma candidate_matching:
  assumes "routes m = routes_of rs" "distinct (map (\<lambda>r. template (path r)) rs)"
  shows "candidate m (path_components p) ts \<longleftrightarrow> (\<exists>r\<in>set (matching rs p). ts = template (path r))"
  using routes_of_Some [of rs ts] routes_of_member [OF assms(2)]
  unfolding candidate_def matching_def assms(1) by fastforce

lemma match_of_registered:
  assumes "routes m = routes_of rs" "distinct (map (\<lambda>r. template (path r)) rs)" "r \<in> set (matching rs p)"
  shows "match_of m (path_components p) (template (path r)) = \<lparr>mresource = Some r,
    mmethods = Some (bindMethods r), parameters = bindings (template (path r)) (path_components p)\<rparr>"
  using routes_of_member [OF assms(2), of r] assms(1,3) by (simp add: match_of_def matching_def)

context matcher_set
begin

lemma unmatched_path:
  assumes "wf_matcher m" "routes m = routes_of rs" "matching rs p = []"
  shows "matcher_match first m p = Inr None"
proof (cases "path_components p = []")
  case True
  then show ?thesis unfolding match_none_iff [OF assms(1)] by (simp add: candidate_def)
next
  case False
  with assms(3) show ?thesis by (intro match_unregistered [OF assms(1,2)]) (simp add: matching_Nil)
qed

lemma response_answers:
  assumes wf: "wf_matcher m" and routes: "routes m = routes_of rs"
    and d: "distinct (map (\<lambda>r. template (path r)) rs)" and first: "set_first pf = first"
    and one: "\<And>req. build (mm_ins pf) (url_parse pf) b k = Inr req \<Longrightarrow> unambiguous rs (rpath req)"
  shows "get_response pf m b k = answer_message pf rs b k"
proof (cases "build (mm_ins pf) (url_parse pf) b k")
  case (Inl e)
  then show ?thesis by (cases e) (simp_all add: get_response_def answer_message_def failure_def)
next
  case (Inr req)
  have ans: "answer_message pf rs b k = answer rs req" by (simp add: answer_message_def Inr)
  show ?thesis
  proof (cases "matching rs (rpath req)")
    case Nil
    from get_response_cases [OF Inr, of m None] unmatched_path [OF wf routes Nil] Nil show ?thesis
      by (simp add: ans answer_def first)
  next
    case (Cons r rs')
    let ?cs = "path_components (rpath req)"
    from match_registered [OF wf routes d matching_single [OF one [OF Inr] Cons]]
    have "matcher_match (set_first pf) m (rpath req) = Inr (Some \<lparr>mresource = Some r,
        mmethods = Some (bindMethods r), parameters = bindings (template (path r)) ?cs\<rparr>)"
      unfolding first .
    from get_response_cases [OF Inr this] Cons show ?thesis
      by (simp add: ans answer_def dispatch_registered)
  qed
qed

end

context matcher_total_set
begin

text \<open>Whatever the path, a matching resource is found, and a best one when the templates agree.\<close>

lemma match_chooses:
  assumes wf: "wf_matcher m" and routes: "routes m = routes_of rs"
    and d: "distinct (map (\<lambda>r. template (path r)) rs)" and some: "matching rs p \<noteq> []"
  shows "\<exists>r\<in>set (if agreeing rs p then best rs p else matching rs p).
    matcher_match first m p = Inr (Some \<lparr>mresource = Some r, mmethods = Some (bindMethods r),
      parameters = bindings (template (path r)) (path_components p)\<rparr>)"
proof -
  note cand = candidate_matching [OF routes d, of p]
  from some have c: "candidate m (path_components p) (template (path (hd (matching rs p))))"
    unfolding cand by auto
  show ?thesis
  proof (cases "agreeing rs p")
    case True
    then have "consistent m (path_components p)"
      unfolding consistent_def cand by (auto simp: agreeing_def)
    from match_consistent [OF wf c this] obtain r where r: "r \<in> set (matching rs p)"
      "matcher_match first m p = Inr (Some (match_of m (path_components p) (template (path r))))"
      "\<forall>r'\<in>set (matching rs p). dominates (path_components p) (template (path r)) (template (path r'))"
      unfolding cand by blast
    then have "r \<in> set (best rs p)" by (simp add: best_def)
    with r(2) True show ?thesis unfolding match_of_registered [OF routes d r(1)] by auto
  next
    case False
    from match_total [OF wf c] obtain r where r: "r \<in> set (matching rs p)"
      "matcher_match first m p = Inr (Some (match_of m (path_components p) (template (path r))))"
      unfolding cand by blast
    with False show ?thesis unfolding match_of_registered [OF routes d r(1)] by auto
  qed
qed

lemma response_permitted:
  assumes wf: "wf_matcher m" and routes: "routes m = routes_of rs"
    and d: "distinct (map (\<lambda>r. template (path r)) rs)" and first: "set_first pf = first"
  shows "get_response pf m b k \<in> answers_message pf rs b k"
proof (cases "build (mm_ins pf) (url_parse pf) b k")
  case (Inl e)
  then show ?thesis by (cases e) (simp_all add: get_response_def answers_message_def failure_def)
next
  case (Inr req)
  have ans: "answers_message pf rs b k = answers rs req" by (simp add: answers_message_def Inr)
  show ?thesis
  proof (cases "matching rs (rpath req) = []")
    case True
    from get_response_cases [OF Inr, of m None] unmatched_path [OF wf routes True] True show ?thesis
      by (simp add: ans answers_def first)
  next
    case False
    from match_chooses [OF wf routes d False] obtain r where
      r: "r \<in> set (if agreeing rs (rpath req) then best rs (rpath req) else matching rs (rpath req))"
      "matcher_match (set_first pf) m (rpath req) = Inr (Some \<lparr>mresource = Some r,
        mmethods = Some (bindMethods r),
        parameters = bindings (template (path r)) (path_components (rpath req))\<rparr>)"
      unfolding first by blast
    from get_response_cases [OF Inr r(2)] have "get_response pf m b k = answer_by req r"
      by (simp add: dispatch_registered)
    with r(1) False show ?thesis by (simp add: ans answers_def)
  qed
qed

end

section \<open>The example server, asked for a user\<close>

lemma hello_matching_user: "matching hello_resources ''/bob'' = [HelloParamResource 2]"
proof -
  have cs: "path_components ''/bob'' = ['''', ''bob'']" by code_simp
  show ?thesis unfolding matching_def hello_resources_def cs
    by (simp add: hello_template template_matches_def)
qed

definition bob_request :: request where
  "bob_request = Request ''/bob'' '''' GET [] [] []"

lemma bob_build:
  "build (mm_ins tree_platform) (url_parse tree_platform) (RequestBuilder\<lparr>url := ''/bob''\<rparr>) 1 = Inr bob_request"
proof -
  have "split_url ''/bob'' = Some \<lparr>path_field = Some (0, 4), query_field = None\<rparr>" by code_simp
  then show ?thesis
    by (simp add: tree_platform_def build_def convertMethod_def string_slice_def bob_request_def RequestBuilder_def)
qed

lemma bob_answer:
  "unambiguous hello_resources (rpath bob_request)"
  "answer hello_resources bob_request = Inr (Response OK TEXT_PLAIN (''Hello, bob'' @ newline))"
proof -
  have r: "rpath bob_request = ''/bob''" "rmethod bob_request = GET"
    by (simp_all add: bob_request_def Request_def)
  show "unambiguous hello_resources (rpath bob_request)"
    by (simp add: unambiguous_def r hello_matching_user)
  have "path_components ''/bob'' = ['''', ''bob'']" by code_simp
  with hello_template(2) [of 2] show "answer hello_resources bob_request = Inr (Response OK TEXT_PLAIN (''Hello, bob'' @ newline))"
    by (simp add: answer_def answer_by_def r hello_matching_user dispatch_handler_eq HelloParamResource_def Extractor_def
        vector_at_def StringParam_parse_eq HelloParam_get_def text_response_def)
qed

text \<open>A resource that is preferred to another.\<close>

definition greeter :: resource where
  "greeter = (Resource 2 ''/foo/{p}'')\<lparr>get_method := \<lparr>signature = [TString], body = HelloParam_get\<rparr>\<rparr>"

lemma greeter_templates:
  "template ''/{p}/fo'' = [Lit '''', Var, Lit ''fo'']" "template ''/foo/{p}'' = [Lit '''', Lit ''foo'', Var]"
  by code_simp+

lemma greeter_beats:
  fixes cs a b
  defines "cs \<equiv> ['''', ''foo'', ''fo'']" and "a \<equiv> [Lit '''', Var, Lit ''fo'']" and "b \<equiv> [Lit '''', Lit ''foo'', Var]"
  shows "\<not> conflict cs a a" "\<not> conflict cs a b" "\<not> conflict cs b a" "\<not> conflict cs b b"
    "\<not> dominates cs a b" "dominates cs b a" "dominates cs b b"
  unfolding cs_def a_def b_def by code_simp+

section \<open>Properties\<close>

text \<open>C5: Tries, search and dispatch implement the specification on the list of resources: with resources of
  pairwise distinct templates registered in any order and a set that always delivers an element,
  every message is answered as the specification permits, errors included: with an internal error
  when no request can be built, with the not-found response when nothing matches, and otherwise by
  a matching resource, which is a best one when the matching templates agree on which are best.\<close>

theorem responses_permitted:
  assumes "matcher_total_set (set_first pf)" and "distinct (map (\<lambda>r. template (path r)) rs)"
  shows "\<exists>m. trie_table.add_all ResourceMatcher (bound rs) = Inr (None, m) \<and>
    get_response pf m b k \<in> answers_message pf rs b k"
proof -
  obtain m where "trie_table.add_all ResourceMatcher (bound rs) = Inr (None, m)" "wf_matcher m" "routes m = routes_of rs"
    using register_distinct [OF assms(2)] by blast
  with matcher_total_set.response_permitted [OF assms(1) _ _ assms(2) refl] show ?thesis by blast
qed

text \<open>Two resources match the path; the one with the greater literal text answers.\<close>

theorem responses_permitted_witness:
  "\<exists>m. trie_table.add_all ResourceMatcher (bound [Resource 3 ''/{p}/fo'', greeter]) = Inr (None, m) \<and>
     get_response tree_platform m (RequestBuilder\<lparr>url := ''/foo/fo''\<rparr>) 1 =
       Inr (Response OK TEXT_PLAIN (''Hello, fo'' @ newline))"
proof -
  let ?r = "Resource 3 ''/{p}/fo''" and ?b = "RequestBuilder\<lparr>url := ''/foo/fo''\<rparr>" and ?cs = "['''', ''foo'', ''fo'']"
  let ?req = "Request ''/foo/fo'' '''' GET [] [] []"
  have t: "template (path ?r) = [Lit '''', Var, Lit ''fo'']"
    "template (path greeter) = [Lit '''', Lit ''foo'', Var]"
    by (simp_all add: Resource_def greeter_def greeter_templates)
  have cs: "path_components ''/foo/fo'' = ?cs" by code_simp
  have d: "distinct (map (\<lambda>r. template (path r)) [?r, greeter])" by (simp add: t)
  have m: "matching [?r, greeter] ''/foo/fo'' = [?r, greeter]"
    by (simp add: matching_def cs t template_matches_def)
  have "\<not> conflict ?cs (template (path r)) (template (path r'))"
    if "r \<in> {?r, greeter}" "r' \<in> {?r, greeter}" for r r'
    using that t greeter_beats(1-4) by auto
  then have a: "agreeing [?r, greeter] ''/foo/fo''" by (auto simp: agreeing_def m cs)
  have "best [?r, greeter] ''/foo/fo'' = [greeter]"
    using greeter_beats(5-7) by (simp add: best_def m cs t)
  moreover have p: "rpath ?req = ''/foo/fo''" "rmethod ?req = GET" by (simp_all add: Request_def)
  ultimately have "answers [?r, greeter] ?req = {answer_by ?req greeter}"
    using a by (simp add: answers_def m)
  moreover have "answer_by ?req greeter = Inr (Response OK TEXT_PLAIN (''Hello, fo'' @ newline))"
    unfolding answer_by_def p cs t
    by (simp add: greeter_def dispatch_handler_eq Extractor_def vector_at_def StringParam_parse_eq
        HelloParam_get_def text_response_def)
  moreover have "split_url ''/foo/fo'' = Some \<lparr>path_field = Some (0, 7), query_field = None\<rparr>" by code_simp
  then have "build (mm_ins tree_platform) (url_parse tree_platform) ?b 1 = Inr ?req"
    by (simp add: tree_platform_def build_def convertMethod_def string_slice_def RequestBuilder_def)
  ultimately have "answers_message tree_platform [?r, greeter] ?b 1 =
      {Inr (Response OK TEXT_PLAIN (''Hello, fo'' @ newline))}"
    by (simp add: answers_message_def)
  moreover have "matcher_total_set (set_first tree_platform)"
    using match_rb.matcher_total_set_axioms by (simp add: tree_platform_def)
  ultimately show ?thesis using responses_permitted [OF _ d, of tree_platform ?b 1] by simp
qed

text \<open>Where there is no choice, any conforming set will do.\<close>

theorem responses_refine_resources:
  assumes "matcher_set (set_first pf)" and "distinct (map (\<lambda>r. template (path r)) rs)"
    and "\<And>req. build (mm_ins pf) (url_parse pf) b k = Inr req \<Longrightarrow> unambiguous rs (rpath req)"
  shows "\<exists>m. trie_table.add_all ResourceMatcher (bound rs) = Inr (None, m) \<and>
    get_response pf m b k = answer_message pf rs b k"
proof -
  from register_distinct [OF assms(2)] obtain m where
    "trie_table.add_all ResourceMatcher (bound rs) = Inr (None, m)" "wf_matcher m" "routes m = routes_of rs"
    by blast
  with matcher_set.response_answers [OF assms(1) _ _ assms(2) refl assms(3)] show ?thesis by blast
qed

theorem responses_refine_resources_witness:
  "get_response tree_platform hello_matcher (RequestBuilder\<lparr>url := ''/bob''\<rparr>) 1 =
     Inr (Response OK TEXT_PLAIN (''Hello, bob'' @ newline))"
proof -
  let ?b = "RequestBuilder\<lparr>url := ''/bob''\<rparr>"
  have "distinct (map (\<lambda>r. template (path r)) hello_resources)" unfolding hello_templates by simp
  moreover have "unambiguous hello_resources (rpath req)"
    if "build (mm_ins tree_platform) (url_parse tree_platform) ?b 1 = Inr req" for req
    using that bob_answer(1) unfolding bob_build by simp
  ultimately have "get_response tree_platform hello_matcher ?b 1 = answer_message tree_platform hello_resources ?b 1"
    using responses_refine_resources [of tree_platform hello_resources ?b 1] match_rb.matcher_set_axioms
      hello_registered(1) by (simp add: tree_platform_def)
  then show ?thesis by (simp add: answer_message_def bob_build bob_answer(2))
qed

text \<open>C29: It does not matter in which order resources are registered: with a set that only compares its
  elements, tries built from the same resources in any two orders answer every message the same,
  also where several templates match and the comparator is no strict weak ordering.\<close>

theorem registration_order_irrelevant:
  assumes "matcher_comparing_set (set_first pf)" and "distinct (map (\<lambda>r. template (path r)) rs)"
    and "mset rs' = mset rs"
  shows "\<exists>m m'. trie_table.add_all ResourceMatcher (bound rs) = Inr (None, m) \<and>
    trie_table.add_all ResourceMatcher (bound rs') = Inr (None, m') \<and>
    get_response pf m' b k = get_response pf m b k"
proof -
  have d: "distinct (map (\<lambda>r. template (path r)) rs')"
    using assms(2,3) by (metis mset_map mset_eq_imp_distinct_iff)
  have "routes_of rs' = routes_of rs" by (rule routes_of_permuted [OF assms(2,3)])
  with register_distinct [OF assms(2)] register_distinct [OF d] obtain m m' where
    "trie_table.add_all ResourceMatcher (bound rs) = Inr (None, m)" "wf_matcher m"
    "trie_table.add_all ResourceMatcher (bound rs') = Inr (None, m')" "wf_matcher m'" "routes m = routes m'" by metis
  with matcher_comparing_set.match_routes [OF assms(1), of m m'] show ?thesis
    by (auto simp: get_response_def)
qed

theorem registration_order_irrelevant_witness:
  "\<exists>m m'. trie_table.add_all ResourceMatcher (bound [Resource 1 ''/foo/{p1}'', Resource 2 ''/{p1}/{p2}'']) = Inr (None, m) \<and>
     trie_table.add_all ResourceMatcher (bound [Resource 2 ''/{p1}/{p2}'', Resource 1 ''/foo/{p1}'']) = Inr (None, m') \<and>
     get_response tree_platform m' (RequestBuilder\<lparr>url := ''/foo/bar''\<rparr>) 1 =
       get_response tree_platform m (RequestBuilder\<lparr>url := ''/foo/bar''\<rparr>) 1"
proof -
  let ?rs = "[Resource 1 ''/foo/{p1}'', Resource 2 ''/{p1}/{p2}'']"
  have "template ''/foo/{p1}'' = [Lit '''', Lit ''foo'', Var]" "template ''/{p1}/{p2}'' = [Lit '''', Var, Var]"
    by code_simp+
  then have "distinct (map (\<lambda>r. template (path r)) ?rs)" by (simp add: Resource_def)
  moreover have "matcher_comparing_set (set_first tree_platform)"
    using match_rb_comparing.matcher_comparing_set_axioms by (simp add: tree_platform_def)
  ultimately show ?thesis
    using registration_order_irrelevant [of tree_platform ?rs "[Resource 2 ''/{p1}/{p2}'', Resource 1 ''/foo/{p1}'']"]
    by (simp add: add_mset_commute)
qed

text \<open>From the bytes of a connection to the bytes a client reads: when the parser accepts what arrives,
  in whatever extents, and reports one message, of which the builder makes a request for a path
  that at most one resource matches, then everything is drained from the buffer, one text is
  written, in which a client reads the status, the headers and the content of the response the
  specification gives for that request, and the completion of the write ends the connection.\<close>

theorem request_over_the_wire:
  assumes "streaming execute" and "matcher_set (set_first pf)"
    and "wf_matcher m" and "routes m = routes_of rs" and "distinct (map (\<lambda>r. template (path r)) rs)"
    and "xs \<noteq> []" and "[] \<notin> set xs" and "accepts execute p (concat xs)"
    and "merge_events (events (execute p (concat xs))) =
           merge_events (map Piece cs @ [MessageComplete k])"
    and "run_callbacks RequestBuilder cs = (0, b)"
    and "build (mm_ins pf) (url_parse pf) b k = Inr req" and "unambiguous rs (rpath req)"
    and "answer rs req = Inr resp" and "int (length (rcontent resp)) \<le> llong_max"
  shows "\<exists>c txt. available execute pf m (Some (RequestContext p)) xs = Inr (Some c, length (concat xs)) \<and>
    written c = [txt] \<and>
    read_response txt = Some (status_line (rcode resp), header_lines resp, rcontent resp) \<and>
    write_complete (Some c) = Inr None"
proof -
  have "get_response pf m b k = answer_message pf rs b k"
    using matcher_set.response_answers [OF assms(2-5) refl, of b k] assms(11,12) by simp
  then have "get_response pf m b k = Inr resp" by (simp add: answer_message_def assms(11,13))
  from read_request [OF assms(1,6-10) this] read_to_string [OF assms(14)] show ?thesis by auto
qed

theorem request_over_the_wire_witness:
  "\<exists>c txt. available line_parser tree_platform hello_matcher (Some (RequestContext ()))
       [''/b'', ''ob'' @ [CHR 0x0A]] = Inr (Some c, 5) \<and>
     written c = [txt] \<and>
     read_response txt = Some (''HTTP/1.1 200 OK'',
       [''Content-Length: 11'', ''Connection: close'', ''Content-Type: text/plain''],
       ''Hello, bob'' @ newline)"
proof -
  let ?xs = "[''/b'', ''ob'' @ [CHR 0x0A]]" and ?r = "Response OK TEXT_PLAIN (''Hello, bob'' @ newline)"
  have e: "merge_events (events (line_parser () (concat ?xs))) =
      merge_events (map Piece [Url ''/bob''] @ [MessageComplete 1])" by code_simp
  have a: "accepts line_parser () (concat ?xs)" by (simp add: accepts_def line_parser_def)
  have b: "run_callbacks RequestBuilder [Url ''/bob''] = (0, RequestBuilder\<lparr>url := ''/bob''\<rparr>)"
    by (simp add: RequestBuilder_def on_url_def)
  have d: "distinct (map (\<lambda>r. template (path r)) hello_resources)" unfolding hello_templates by simp
  have set: "matcher_set (set_first tree_platform)"
    using match_rb.matcher_set_axioms by (simp add: tree_platform_def)
  have l: "int (length (rcontent ?r)) \<le> llong_max" by (simp add: Response_def newline_def llong_max_def)
  have h: "header_lines ?r = [''Content-Length: 11'', ''Connection: close'', ''Content-Type: text/plain'']"
    by code_simp
  have r: "rcode ?r = OK" "rcontent ?r = ''Hello, bob'' @ newline" by (simp_all add: Response_def)
  have n: "length (concat ?xs) = 5" "?xs \<noteq> []" "[] \<notin> set ?xs" by simp_all
  show ?thesis
    using request_over_the_wire [OF streaming_line_parser set hello_registered(2,3) d n(2,3) a e b bob_build
        bob_answer l] unfolding n(1) r h status_lines by blast
qed

end
