(* ===== verification/Live_Registration.thy ===== *)
theory Live_Registration
  imports End_To_End Search_Order
begin

text \<open>
  Registration on a running server (\<open>include/server.h\<close> promises that the server begins to serve the
  resource at once): \<open>ResourceMatcher::addResource\<close> statement by statement, and what workers answer
  meanwhile. Nothing in the code keeps the two apart, so each round of the search in
  \<open>ResourceMatcher::match\<close> may see another intermediate trie. A round of the search and a statement
  of the registration are single steps here; to the standard, threads that do this without
  synchronisation have no defined behaviour at all.
\<close>

section \<open>The statements of addResource\<close>

text \<open>Where the registering thread is: in its loop, at the node of the template, behind the store of the
  resource pointer, behind that of the methods, at the end, or behind a \<open>throw\<close>.\<close>

datatype add_stage =
    In_components addr "string list"
  | At_terminal addr
  | Resource_stored addr
  | Methods_stored
  | Added
  | Refused exn

fun add_statement :: "resource \<Rightarrow> methods \<Rightarrow> matcher \<times> add_stage \<Rightarrow> (matcher \<times> add_stage) res" where
  "add_statement res meths (m, In_components addr []) = Inr (m, At_terminal addr)"
| "add_statement res meths (m, In_components addr (component # components)) =
     bind_res (add_component (m, addr) component) (\<lambda>(m', next). Inr (m', In_components next components))"
| "add_statement res meths (m, At_terminal addr) =
     bind_res (load m addr) (\<lambda>n.
       if nresource n \<noteq> None
       then Inr (m, Refused (Runtime_error ''Resource registration collision''))
       else bind_res (modify m addr (\<lambda>n. n\<lparr>nresource := Some res\<rparr>)) (\<lambda>m'. Inr (m', Resource_stored addr)))"
| "add_statement res meths (m, Resource_stored addr) =
     bind_res (modify m addr (\<lambda>n. n\<lparr>nmethods := Some meths\<rparr>)) (\<lambda>m'. Inr (m', Methods_stored))"
| "add_statement res meths (m, Methods_stored) = Inr (m\<lparr>resources := resources m @ [res]\<rparr>, Added)"
| "add_statement res meths (m, Added) = Inr (m, Added)"
| "add_statement res meths (m, Refused e) = Inr (m, Refused e)"

primrec add_statements :: "resource \<Rightarrow> methods \<Rightarrow> nat \<Rightarrow> matcher \<times> add_stage \<Rightarrow> (matcher \<times> add_stage) res" where
  "add_statements res meths 0 x = Inr x"
| "add_statements res meths (Suc n) x =
     bind_res (add_statement res meths x) (\<lambda>y. add_statements res meths n y)"

definition begin_add :: "matcher \<Rightarrow> resource \<Rightarrow> matcher \<times> add_stage" where
  "begin_add m res = (m, In_components head_addr (path_components (path res)))"

lemma add_statements_Added: "add_statements r f n (m, Added) = Inr (m, Added)"
  by (induction n) simp_all

lemma add_statements_add:
  "add_statements r f (n + k) x = bind_res (add_statements r f n x) (add_statements r f k)"
  by (induction n arbitrary: x) (simp_all add: bind_res_assoc)

text \<open>The loop, up to its \<open>n\<close>-th round.\<close>

lemma add_statements_loop:
  "n \<le> length cs \<Longrightarrow> add_statements r f n (m, In_components addr cs) =
     bind_res (fold_res add_component (m, addr) (take n cs))
       (\<lambda>(m', addr'). Inr (m', In_components addr' (drop n cs)))"
proof (induction n arbitrary: m addr cs)
  case (Suc n)
  then obtain c cs' where cs: "cs = c # cs'" by (cases cs) auto
  show ?case
  proof (cases "add_component (m, addr) c")
    case (Inr p)
    then show ?thesis using Suc cs by (cases p) simp
  qed (simp add: cs)
qed simp

section \<open>Matching meanwhile\<close>

text \<open>The times of the search are numbers of statements.\<close>

definition matcher_after :: "resource \<Rightarrow> methods \<Rightarrow> matcher \<Rightarrow> nat \<Rightarrow> matcher res" where
  "matcher_after res meths m k =
     bind_res (add_statements res meths k (begin_add m res)) (\<lambda>(m', stage). Inr m')"

definition get_response_during ::
    "platform \<Rightarrow> (nat \<Rightarrow> matcher res) \<Rightarrow> (nat \<Rightarrow> nat) \<Rightarrow> builder \<Rightarrow> int \<Rightarrow> response res" where
  "get_response_during pf at w b method =
     (case bind_res (build (mm_ins pf) (url_parse pf) b method) (\<lambda>req.
             bind_res (match_during (set_first pf) at w (rpath req)) (\<lambda>mt.
               case mt of Some h \<Rightarrow> dispatch req h | None \<Rightarrow> Inr notFound)) of
        Inl (Throw e) \<Rightarrow> Inr (Response INTERNAL_ERROR TEXT_PLAIN (what e))
      | r \<Rightarrow> r)"

section \<open>Methods only with resources\<close>

definition no_stale_methods :: "matcher \<Rightarrow> bool" where
  "no_stale_methods m \<longleftrightarrow> (\<forall>a n. store m a = Some n \<longrightarrow> nresource n = None \<longrightarrow> nmethods n = None)"

lemma stale_ResourceMatcher: "no_stale_methods ResourceMatcher"
  by (simp add: no_stale_methods_def ResourceMatcher_def new_Node_def)

lemma stale_modify:
  assumes "no_stale_methods m" "modify m a f = Inr m'"
    and "\<And>n. nresource (f n) = nresource n \<and> nmethods (f n) = nmethods n"
  shows "no_stale_methods m'"
  using assms(1,2) assms(3) [THEN conjunct1] assms(3) [THEN conjunct2]
  by (auto simp: no_stale_methods_def modify_def load_def bind_res_Inr_iff split: option.splits if_splits)

lemma stale_alloc: "no_stale_methods m \<Longrightarrow> alloc m = (a, m') \<Longrightarrow> no_stale_methods m'"
  by (auto simp: no_stale_methods_def alloc_def new_Node_def split: if_splits)

lemma stale_add_component:
  assumes "no_stale_methods m" "add_component (m, a) c = Inr (m', b)"
  shows "no_stale_methods m'"
proof -
  obtain d m1 where al: "alloc m = (d, m1)" by fastforce
  have "no_stale_methods m1" by (rule stale_alloc [OF assms(1) al])
  with assms show ?thesis
    by (auto simp: add_component_def Let_def al bind_res_Inr_iff split: if_splits option.splits
        intro: stale_modify)
qed

lemma stale_components:
  assumes "no_stale_methods m" "fold_res add_component (m, a) cs = Inr (m', b)"
  shows "no_stale_methods m'"
  using fold_res_invariant [OF assms(2), of "\<lambda>p. no_stale_methods (fst p)"] assms(1) stale_add_component
  by (metis fst_conv surj_pair)

lemma stale_addResource:
  assumes "no_stale_methods m" "addResource m r f = Inr (e, m')"
  shows "no_stale_methods m'"
proof -
  from assms(2) obtain m1 a n where
    1: "fold_res add_component (m, head_addr) (path_components (path r)) = Inr (m1, a)" "load m1 a = Inr n"
    by (auto simp: addResource_unfold bind_res_Inr_iff)
  have "no_stale_methods m1" by (rule stale_components [OF assms(1) 1(1)])
  with assms(2) 1 show ?thesis
    by (auto simp: addResource_unfold modify_def no_stale_methods_def split: if_splits)
qed

lemma stale_add_all: "no_stale_methods m \<Longrightarrow> trie_table.add_all m rs = Inr (e, m') \<Longrightarrow> no_stale_methods m'"
proof (induction m rs rule: trie_table.add_all.induct)
  case (2 m r f rs)
  then obtain e1 m1 where 1: "addResource m r f = Inr (e1, m1)" by (auto simp: bind_res_Inr_iff)
  from 2 1 stale_addResource [OF "2.prems"(1) 1] show ?case by (cases e1) auto
qed simp

section \<open>The stages of a registration\<close>

abbreviation path_length :: "resource \<Rightarrow> nat" where
  "path_length r \<equiv> length (path_components (path r))"

text \<open>The tries after the single statements: up to the store of the resource each extends the ones before,
  and after it only the node \<open>a\<close> of the template changes.\<close>

definition stages :: "matcher \<Rightarrow> resource \<Rightarrow> methods \<Rightarrow> (nat \<Rightarrow> matcher) \<Rightarrow> addr \<Rightarrow> node \<Rightarrow> bool" where
  "stages m r f M a n \<longleftrightarrow>
     (let l = path_length r; m1 = M (Suc l) in
      (\<forall>k. \<exists>st. add_statements r f k (begin_add m r) = Inr (M k, st)) \<and>
      (\<forall>k\<le>Suc l. wf_matcher (M k) \<and> extends m (M k)) \<and>
      (\<forall>j k. j \<le> k \<longrightarrow> k \<le> Suc l \<longrightarrow> extends (M j) (M k)) \<and>
      store m1 a = Some n \<and> walk m1 head_addr (template (path r)) = Some a \<and>
      nresource n = None \<and> nmethods n = None \<and>
      store (M (l + 2)) = (store m1)(a \<mapsto> n\<lparr>nresource := Some r\<rparr>) \<and>
      (\<forall>k\<ge>l + 3. store (M k) = (store m1)(a \<mapsto> n\<lparr>nresource := Some r, nmethods := Some f\<rparr>)) \<and>
      (\<forall>k\<ge>l + 4. add_statements r f k (begin_add m r) = Inr (register_at m1 a n r f, Added)) \<and>
      addResource m r f = Inr (None, register_at m1 a n r f))"

lemma stagesD:
  assumes "stages m r f M a n"
  shows "\<exists>st. add_statements r f k (begin_add m r) = Inr (M k, st)"
    "k \<le> Suc (path_length r) \<Longrightarrow> wf_matcher (M k) \<and> extends m (M k)"
    "j \<le> k \<Longrightarrow> k \<le> Suc (path_length r) \<Longrightarrow> extends (M j) (M k)"
    "store (M (Suc (path_length r))) a = Some n"
    "walk (M (Suc (path_length r))) head_addr (template (path r)) = Some a"
    "nresource n = None" "nmethods n = None"
    "store (M (path_length r + 2)) = (store (M (Suc (path_length r))))(a \<mapsto> n\<lparr>nresource := Some r\<rparr>)"
    "path_length r + 3 \<le> k \<Longrightarrow> store (M k) =
       (store (M (Suc (path_length r))))(a \<mapsto> n\<lparr>nresource := Some r, nmethods := Some f\<rparr>)"
    "path_length r + 4 \<le> k \<Longrightarrow> add_statements r f k (begin_add m r) =
       Inr (register_at (M (Suc (path_length r))) a n r f, Added)"
    "addResource m r f = Inr (None, register_at (M (Suc (path_length r))) a n r f)"
  using assms by (simp_all add: stages_def Let_def)

text \<open>The loop: the tries after its rounds extend one another.\<close>

lemma loop_tries:
  assumes wf: "wf_matcher m"
  shows "\<exists>Q. (\<forall>k. fold_res add_component (m, head_addr) (take k cs) = Inr (Q k) \<and> wf_matcher (fst (Q k)) \<and>
      extends m (fst (Q k)) \<and> store (fst (Q k)) (snd (Q k)) \<noteq> None \<and>
      walk (fst (Q k)) head_addr (map seg_of (take k cs)) = Some (snd (Q k))) \<and>
    (\<forall>j k. j \<le> k \<longrightarrow> extends (fst (Q j)) (fst (Q k)))"
proof -
  define Q where "Q k = projr (fold_res add_component (m, head_addr) (take k cs))" for k
  have loop: "fold_res add_component (m, head_addr) (take k cs) = Inr (Q k) \<and> wf_matcher (fst (Q k)) \<and>
      extends m (fst (Q k)) \<and> store (fst (Q k)) (snd (Q k)) \<noteq> None \<and>
      walk (fst (Q k)) head_addr (map seg_of (take k cs)) = Some (snd (Q k))" for k
    using add_components_correct [OF wf wf_matcher_head [OF wf], of "take k cs"] by (auto simp: Q_def)
  have "extends (fst (Q j)) (fst (Q k))" if "j \<le> k" for j k
  proof -
    have "take k cs = take j cs @ take (k - j) (drop j cs)"
      using that take_add [of j "k - j" cs] by simp
    then have "fold_res add_component (fst (Q j), snd (Q j)) (take (k - j) (drop j cs)) = Inr (fst (Q k), snd (Q k))"
      using loop [of j] loop [of k] by (simp add: fold_res_append)
    with add_components_correct [of "fst (Q j)" "snd (Q j)" "take (k - j) (drop j cs)"] loop [of j]
    show ?thesis by auto
  qed
  with loop show ?thesis by blast
qed

text \<open>What follows the loop.\<close>

lemma after_loop:
  assumes loop: "fold_res add_component (m, head_addr) (path_components (path r)) = Inr (m1, a)"
    and n: "store m1 a = Some n" "nresource n = None"
  shows "add_statements r f (path_length r + 1) (begin_add m r) = Inr (m1, At_terminal a)"
    "add_statements r f (path_length r + 2) (begin_add m r) =
       Inr (m1\<lparr>store := (store m1)(a \<mapsto> n\<lparr>nresource := Some r\<rparr>)\<rparr>, Resource_stored a)"
    "add_statements r f (path_length r + 3) (begin_add m r) =
       Inr (m1\<lparr>store := (store m1)(a \<mapsto> n\<lparr>nresource := Some r, nmethods := Some f\<rparr>)\<rparr>, Methods_stored)"
    "path_length r + 4 \<le> k \<Longrightarrow> add_statements r f k (begin_add m r) = Inr (register_at m1 a n r f, Added)"
    "addResource m r f = Inr (None, register_at m1 a n r f)"
proof -
  let ?l = "path_length r"
  have later: "add_statements r f (?l + k) (begin_add m r) = add_statements r f k (m1, In_components a [])" for k
    using add_statements_loop [of ?l "path_components (path r)" r f m head_addr] loop
    by (simp add: add_statements_add begin_add_def)
  show "add_statements r f (?l + 1) (begin_add m r) = Inr (m1, At_terminal a)"
    "add_statements r f (?l + 2) (begin_add m r) =
       Inr (m1\<lparr>store := (store m1)(a \<mapsto> n\<lparr>nresource := Some r\<rparr>)\<rparr>, Resource_stored a)"
    "add_statements r f (?l + 3) (begin_add m r) =
       Inr (m1\<lparr>store := (store m1)(a \<mapsto> n\<lparr>nresource := Some r, nmethods := Some f\<rparr>)\<rparr>, Methods_stored)"
    using n unfolding later by (simp_all add: numeral_eq_Suc load_def modify_def)
  have four: "add_statements r f (?l + 4) (begin_add m r) = Inr (register_at m1 a n r f, Added)"
    using n unfolding later by (simp add: numeral_eq_Suc load_def modify_def register_at_def)
  show "add_statements r f k (begin_add m r) = Inr (register_at m1 a n r f, Added)" if "?l + 4 \<le> k"
    using that four add_statements_add [of r f "?l + 4" "k - (?l + 4)"] by (simp add: add_statements_Added)
  show "addResource m r f = Inr (None, register_at m1 a n r f)"
    using loop n by (simp add: addResource_unfold load_def modify_def register_at_def)
qed

lemma registration_stages:
  assumes wf: "wf_matcher m" and free: "routes m (template (path r)) = None" and stale: "no_stale_methods m"
  shows "\<exists>M a n. stages m r f M a n"
proof -
  let ?cs = "path_components (path r)" and ?l = "path_length r"
  obtain Q where loop: "\<And>k. fold_res add_component (m, head_addr) (take k ?cs) = Inr (Q k) \<and> wf_matcher (fst (Q k)) \<and>
      extends m (fst (Q k)) \<and> store (fst (Q k)) (snd (Q k)) \<noteq> None \<and>
      walk (fst (Q k)) head_addr (map seg_of (take k ?cs)) = Some (snd (Q k))"
    and chain: "\<And>j k. j \<le> k \<Longrightarrow> extends (fst (Q j)) (fst (Q k))"
    using loop_tries [OF wf, of ?cs] by metis
  define m1 where "m1 = fst (Q (Suc ?l))"
  define a where "a = snd (Q (Suc ?l))"
  have m1: "fold_res add_component (m, head_addr) ?cs = Inr (m1, a)" "wf_matcher m1" "extends m m1"
    "walk m1 head_addr (template (path r)) = Some a"
    using loop [of "Suc ?l"] by (simp_all add: m1_def a_def template_def)
  obtain n where n: "store m1 a = Some n" using loop [of "Suc ?l"] by (auto simp: m1_def a_def)
  have "routes m1 (template (path r)) = None"
    using free extends_routes [OF wf m1(2,3)] by simp
  then have n0: "nresource n = None"
    using m1(4) n by (simp add: routes_def registered_at_def)
  with stale_components [OF stale m1(1)] n have n1: "nmethods n = None" by (simp add: no_stale_methods_def)
  note rest = after_loop [OF m1(1) n n0, where f = f]
  define M where "M k = (if k \<le> Suc ?l then fst (Q k) else fst (projr (add_statements r f k (begin_add m r))))" for k
  have "\<exists>st. add_statements r f k (begin_add m r) = Inr (M k, st)" for k
  proof -
    consider "k \<le> ?l" | "k = ?l + 1" | "k = ?l + 2" | "k = ?l + 3" | "?l + 4 \<le> k" by linarith
    then show ?thesis
    proof cases
      case 1
      with loop [of k] add_statements_loop [of k ?cs r f m head_addr] show ?thesis
        by (cases "Q k") (simp add: begin_add_def M_def)
    qed (use rest in \<open>simp_all add: M_def m1_def\<close>)
  qed
  moreover have "store (M k) = (store m1)(a \<mapsto> n\<lparr>nresource := Some r, nmethods := Some f\<rparr>)" if "?l + 3 \<le> k" for k
    using that rest(3) rest(4) [of k] by (cases "k = ?l + 3") (simp_all add: M_def register_at_def)
  moreover have "store (M (?l + 2)) = (store m1)(a \<mapsto> n\<lparr>nresource := Some r\<rparr>)" using rest(2) by (simp add: M_def)
  moreover have "M (Suc ?l) = m1" by (simp add: M_def m1_def)
  ultimately have "stages m r f M a n"
    unfolding stages_def Let_def using loop chain n n0 n1 m1(4) rest(4,5) by (simp add: M_def)
  then show ?thesis by blast
qed

text \<open>The whole trie at the end, and the trie a search sees after \<open>k\<close> statements, with the methods in
  place.\<close>

definition last_trie :: "resource \<Rightarrow> methods \<Rightarrow> (nat \<Rightarrow> matcher) \<Rightarrow> addr \<Rightarrow> node \<Rightarrow> matcher" where
  "last_trie r f M a n = register_at (M (Suc (path_length r))) a n r f"

definition trie_at :: "resource \<Rightarrow> methods \<Rightarrow> (nat \<Rightarrow> matcher) \<Rightarrow> addr \<Rightarrow> node \<Rightarrow> nat \<Rightarrow> matcher" where
  "trie_at r f M a n k = (if k \<le> Suc (path_length r) then M k else last_trie r f M a n)"

lemma store_last_trie:
  "store (last_trie r f M a n) =
     (store (M (Suc (path_length r))))(a \<mapsto> n\<lparr>nresource := Some r, nmethods := Some f\<rparr>)"
  by (simp add: last_trie_def register_at_def)

lemma stages_after: "stages m r f M a n \<Longrightarrow> matcher_after r f m k = Inr (M k)"
  using stagesD(1) [of m r f M a n k] by (auto simp: matcher_after_def)

lemma stages_last:
  assumes wf: "wf_matcher m" and st: "stages m r f M a n"
  shows "addResource m r f = Inr (None, last_trie r f M a n)"
    "path_length r + 4 \<le> k \<Longrightarrow> add_statements r f k (begin_add m r) = Inr (last_trie r f M a n, Added)"
    "wf_matcher (last_trie r f M a n)" "walk (last_trie r f M a n) head_addr (template (path r)) = Some a"
    "routes (last_trie r f M a n) = (routes m)(template (path r) \<mapsto> (r, Some f))"
proof -
  note s = stagesD [OF st]
  have m1: "wf_matcher (M (Suc (path_length r)))" "extends m (M (Suc (path_length r)))" using s(2) by simp_all
  show "addResource m r f = Inr (None, last_trie r f M a n)"
    "path_length r + 4 \<le> k \<Longrightarrow> add_statements r f k (begin_add m r) = Inr (last_trie r f M a n, Added)"
    "wf_matcher (last_trie r f M a n)" "walk (last_trie r f M a n) head_addr (template (path r)) = Some a"
    "routes (last_trie r f M a n) = (routes m)(template (path r) \<mapsto> (r, Some f))"
    using s(4,5,10,11) m1 wf_register_at [OF m1(1) s(4)] routes_register_at [OF m1(1) s(4,5)] extends_routes [OF wf m1]
    by (simp_all add: last_trie_def walk_register_at)
qed

text \<open>The methods of the node make no difference to the search.\<close>

lemma stages_search:
  assumes st: "stages m r f M a n"
  shows "search_round (M k) = search_round (trie_at r f M a n k)"
proof (cases "k \<le> Suc (path_length r)")
  case False
  note s = stagesD [OF st]
  have "n\<lparr>nresource := Some r, nmethods := None\<rparr> = n\<lparr>nresource := Some r\<rparr>"
    using s(7) by (intro node.equality) simp_all
  then have forget: "forget_methods (n\<lparr>nresource := Some r\<rparr>) = forget_methods (n\<lparr>nresource := Some r, nmethods := Some f\<rparr>)"
    by (simp add: forget_methods_def)
  from False consider "k = path_length r + 2" | "path_length r + 3 \<le> k" by linarith
  then have "map_option forget_methods (store (M k) b) = map_option forget_methods (store (last_trie r f M a n) b)" for b
    by cases (simp_all add: s(8) [simplified] s(9) store_last_trie forget)
  then have "search_round (M k) = search_round (last_trie r f M a n)" by (rule search_forget)
  with False show ?thesis by (simp add: trie_at_def)
qed (simp add: trie_at_def)

text \<open>The tries the search sees grow from the old to the new one.\<close>

lemma stages_tries:
  assumes wf: "wf_matcher m" and st: "stages m r f M a n"
  shows "wf_matcher (trie_at r f M a n k)" "subtrie m (trie_at r f M a n k)"
    "subtrie (trie_at r f M a n k) (last_trie r f M a n)"
    "j \<le> k \<Longrightarrow> subtrie (trie_at r f M a n j) (trie_at r f M a n k)"
    "k \<le> Suc (path_length r) \<Longrightarrow> routes (trie_at r f M a n k) = routes m"
proof -
  note s = stagesD [OF st]
  let ?m' = "last_trie r f M a n" and ?m1 = "M (Suc (path_length r))"
  have last: "subtrie ?m1 ?m'" by (simp add: last_trie_def subtrie_def child_register_at s(4))
  show "wf_matcher (trie_at r f M a n k)" using s(2) stages_last(3) [OF wf st] by (simp add: trie_at_def)
  have up: "subtrie (trie_at r f M a n j) ?m'" for j
    using extends_subtrie [OF s(3) [of j "Suc (path_length r)"]] last subtrie_trans by (auto simp: trie_at_def)
  then show "subtrie (trie_at r f M a n k) ?m'" .
  show "subtrie m (trie_at r f M a n k)"
    using extends_subtrie [of m "M k"] s(2) [of k] s(2) [of "Suc (path_length r)"]
      subtrie_trans [OF extends_subtrie [of m ?m1] last] by (auto simp: trie_at_def)
  show "subtrie (trie_at r f M a n j) (trie_at r f M a n k)" if "j \<le> k"
    using up [of j] extends_subtrie [OF s(3) [OF that]] that by (auto simp: trie_at_def)
  show "routes (trie_at r f M a n k) = routes m" if "k \<le> Suc (path_length r)"
    using extends_routes [OF wf] s(2) [OF that] that by (simp add: trie_at_def)
qed

text \<open>What is registered at the nodes: the old routes all the time, and the new one with its methods or
  still without them.\<close>

lemma stages_registered:
  assumes st: "stages m r f M a n"
  shows "registered_at m b \<noteq> None \<Longrightarrow> registered_at (M k) b = registered_at m b"
    "path_length r + 2 \<le> k \<Longrightarrow> registered_at (M k) b =
       (if k = path_length r + 2 \<and> b = a then Some (r, None) else registered_at (last_trie r f M a n) b)"
proof -
  note s = stagesD [OF st]
  let ?m1 = "M (Suc (path_length r))"
  have m1: "registered_at ?m1 b = registered_at m b" "registered_at ?m1 a = registered_at m a"
    using s(2) [of "Suc (path_length r)"] by (simp_all add: extends_def)
  have "registered_at ?m1 a = None" by (simp add: registered_at_def s(4,6))
  show "registered_at (M k) b = registered_at m b" if reg: "registered_at m b \<noteq> None"
  proof (cases "k \<le> Suc (path_length r)")
    case True
    with s(2) show ?thesis by (simp add: extends_def)
  next
    case False
    from reg m1(2) \<open>registered_at ?m1 a = None\<close> have "b \<noteq> a" by auto
    with False have "store (M k) b = store ?m1 b" using s(8) s(9) [of k] by (cases "k = path_length r + 2") simp_all
    with m1(1) show ?thesis by (simp add: registered_at_def)
  qed
  show "registered_at (M k) b =
      (if k = path_length r + 2 \<and> b = a then Some (r, None) else registered_at (last_trie r f M a n) b)"
    if "path_length r + 2 \<le> k"
    using that s(7,8) s(9) [of k] by (cases "k = path_length r + 2") (simp_all add: registered_at_def store_last_trie)
qed

section \<open>What is matched meanwhile\<close>

definition without_methods :: "resource \<Rightarrow> route_match \<Rightarrow> route_match" where
  "without_methods r h = (if mresource h = Some r then h\<lparr>mmethods := None\<rparr> else h)"

text \<open>The match made of a candidate of the old routes, and of one of the new routes.\<close>

lemma make_match_before:
  assumes "stages m r f M a n" "ret \<in> set (candidates_in m cs)"
  shows "make_match (M k) ret = make_match m ret"
proof -
  from make_match_registered [OF assms(2)] obtain b r' v where
    b: "registered_at m b = Some (r', v)"
    "\<And>x u. registered_at x b = Some (r', u) \<Longrightarrow>
      make_match x ret = Inr (Some \<lparr>mresource = Some r', mmethods = u, parameters = variables ret\<rparr>)" by metis
  with stages_registered(1) [OF assms(1), of b k] show ?thesis by simp
qed

lemma make_match_after:
  assumes wf: "wf_matcher m" and absent: "\<And>ts v. routes m ts \<noteq> Some (r, v)" and st: "stages m r f M a n"
    and ret: "ret \<in> set (candidates_in (last_trie r f M a n) cs)" and k: "path_length r + 2 \<le> k"
  shows "make_match (M k) ret = bind_res (make_match (last_trie r f M a n) ret)
    (\<lambda>mt. Inr (if k = path_length r + 2 then map_option (without_methods r) mt else mt))"
proof -
  let ?m' = "last_trie r f M a n" and ?t = "template (path r)"
  note last = stages_last [OF wf st]
  from make_match_registered [OF ret] obtain ts b r' v where
    b: "routes ?m' ts = Some (r', v)" "walk ?m' head_addr ts = Some b" "registered_at ?m' b = Some (r', v)"
    "\<And>x u. registered_at x b = Some (r', u) \<Longrightarrow>
      make_match x ret = Inr (Some \<lparr>mresource = Some r', mmethods = u, parameters = variables ret\<rparr>)" by metis
  have "ts = ?t" if "b = a" using walk_inj [OF last(3) b(2), of ?t] last(4) that by simp
  moreover have "b = a" if "ts = ?t" using last(4) b(2) that by simp
  moreover have "ts = ?t \<longleftrightarrow> r' = r" using b(1) absent [of ts] last(5) by (auto split: if_splits)
  ultimately have ba: "b = a \<longleftrightarrow> r' = r" by blast
  have "registered_at (M k) b = Some (r', if k = path_length r + 2 \<and> r' = r then None else v)"
    unfolding stages_registered(2) [OF st k] ba b(3) by simp
  from b(4) [OF this] b(4) [OF b(3)] show ?thesis by (simp add: without_methods_def)
qed

text \<open>The candidates of the search.\<close>

lemma search_meanwhile:
  assumes wf: "wf_matcher m" and free: "routes m (template (path r)) = None" and st: "stages m r f M a n"
    and w: "mono w"
  defines "m' \<equiv> last_trie r f M a n"
  shows "\<exists>sts. fold_res (round_during (matcher_after r f m) w) ([initial_state], 0) cs = Inr (sts, length cs) \<and>
    (candidates_of sts = candidates_in m cs \<or>
     candidates_of sts = candidates_in m' cs \<and> path_length r + 2 \<le> w (length cs) \<and>
       (\<exists>i. path_length r + 2 \<le> w i)) \<and>
    ((\<forall>i. path_length r + 2 \<le> w i) \<longrightarrow> candidates_of sts = candidates_in m' cs)"
proof -
  let ?tr = "\<lambda>i. trie_at r f M a n (w i)"
  note tries = stages_tries [OF wf st, folded m'_def] and last = stages_last [OF wf st, folded m'_def]
  have ro: "routes (?tr i) = routes m \<or> ?tr i = m'" for i
    using tries(5) [of "w i"] by (cases "w i \<le> Suc (path_length r)") (simp_all add: trie_at_def m'_def)
  obtain sts where sts:
    "fold_res (round_during (matcher_after r f m) w) ([initial_state], 0) cs = Inr (sts, length cs)"
    "candidates_of sts = candidates_in m cs \<or>
     candidates_of sts = candidates_in m' cs \<and> ?tr (length cs - 1) = m'"
    "(\<forall>i. ?tr i = m') \<longrightarrow> candidates_of sts = candidates_in m' cs"
    using search_during [of "matcher_after r f m" w ?tr m m' "template (path r)" "(r, Some f)" cs]
      stages_after [OF st] stages_search [OF st] tries(1,2,4) subtrie_trans [OF tries(2,3)] monoD [OF w] ro last(5) free
    by force
  have late: "path_length r + 2 \<le> w i" if "?tr i = m'" for i
  proof (rule ccontr)
    assume "\<not> path_length r + 2 \<le> w i"
    with tries(5) [of "w i"] that have "routes m' = routes m" by simp
    with last(5) free show False by (metis fun_upd_same option.distinct(1))
  qed
  have "path_length r + 2 \<le> w (length cs)" if "?tr (length cs - 1) = m'"
    using late [OF that] monoD [OF w, of "length cs - 1" "length cs"] by simp
  moreover have "?tr i = m'" if "path_length r + 2 \<le> w i" for i using that by (simp add: trie_at_def m'_def)
  ultimately show ?thesis using sts by blast
qed

context matcher_set
begin

lemma match_meanwhile:
  fixes p :: string
  assumes wf: "wf_matcher m" and free: "routes m (template (path r)) = None"
    and absent: "\<And>ts v. routes m ts \<noteq> Some (r, v)"
    and st: "stages m r f M a n" and w: "mono w"
  defines "m' \<equiv> last_trie r f M a n" and "during \<equiv> match_during first (matcher_after r f m) w p"
  shows "during = matcher_match first m p \<or> during = matcher_match first m' p \<or>
      w (length (path_components p)) = path_length r + 2 \<and>
      during = bind_res (matcher_match first m' p) (\<lambda>mt. Inr (map_option (without_methods r) mt))"
    and "\<forall>i. w i < path_length r + 2 \<Longrightarrow> during = matcher_match first m p"
    and "\<forall>i. path_length r + 2 < w i \<Longrightarrow> during = matcher_match first m' p"
proof -
  let ?cs = "path_components p"
  let ?k = "w (length ?cs)"
  obtain sts where sts: "fold_res (round_during (matcher_after r f m) w) ([initial_state], 0) ?cs = Inr (sts, length ?cs)"
    "candidates_of sts = candidates_in m ?cs \<or>
     candidates_of sts = candidates_in m' ?cs \<and> path_length r + 2 \<le> ?k \<and> (\<exists>i. path_length r + 2 \<le> w i)"
    "(\<forall>i. path_length r + 2 \<le> w i) \<longrightarrow> candidates_of sts = candidates_in m' ?cs"
    using search_meanwhile [OF wf free st w, of ?cs, folded m'_def] by blast
  let ?c = "candidates_of sts"
  have during: "during = (if ?c = [] then Inr None else bind_res (first compare ?c) (make_match (M ?k)))"
    by (simp add: during_def match_during_def PathComponents_for_eq sts(1) stages_after [OF st] Let_def)
  note unfold_m = match_candidates [OF wf, of p, unfolded Let_def]
    and unfold_m' = match_candidates [OF stages_last(3) [OF wf st, folded m'_def], of p, unfolded Let_def]
  have before: "during = matcher_match first m p" if c: "?c = candidates_in m ?cs"
    unfolding during unfold_m c
    using bind_first_cong [of "candidates_in m ?cs" "make_match (M ?k)" "make_match m"] make_match_before [OF st]
    by (simp cong: if_cong)
  have after: "during = bind_res (matcher_match first m' p)
      (\<lambda>mt. Inr (if ?k = path_length r + 2 then map_option (without_methods r) mt else mt))"
    if c: "?c = candidates_in m' ?cs" and k: "path_length r + 2 \<le> ?k"
  proof (cases "?c = []")
    case True
    with c show ?thesis unfolding during unfold_m' by simp
  next
    case False
    with bind_first_cong [OF False, of "make_match (M ?k)"] make_match_after [OF wf absent st _ k, folded m'_def] c
    show ?thesis unfolding during unfold_m' by (simp only: if_False bind_res_assoc)
  qed
  show "during = matcher_match first m p \<or> during = matcher_match first m' p \<or>
      ?k = path_length r + 2 \<and> during = bind_res (matcher_match first m' p) (\<lambda>mt. Inr (map_option (without_methods r) mt))"
    using sts(2) before after by (cases "?k = path_length r + 2") auto
  show "during = matcher_match first m p" if "\<forall>i. w i < path_length r + 2"
    using that sts(2) before by (meson not_le)
  show "during = matcher_match first m' p" if all: "\<forall>i. path_length r + 2 < w i"
    using after sts(3) all [rule_format, of "length ?cs"] all by (simp add: less_imp_le)
qed

end

section \<open>Properties\<close>

lemma built_facts:
  assumes "trie_table.add_all ResourceMatcher (bound rs) = Inr (None, m)"
    and "distinct (map (\<lambda>r. template (path r)) (r # rs))"
  shows "wf_matcher m" "routes m (template (path r)) = None" "routes m ts \<noteq> Some (r, v)" "no_stale_methods m"
proof -
  have "distinct (map (\<lambda>r. template (path r)) rs)" using assms(2) by simp
  from register_distinct [OF this] assms(1) have m: "wf_matcher m" "routes m = routes_of rs" by auto
  show "wf_matcher m" by (rule m)
  show "no_stale_methods m" by (rule stale_add_all [OF stale_ResourceMatcher assms(1)])
  show "routes m (template (path r)) = None"
    using assms(2) routes_of_Some [of rs "template (path r)"] unfolding m(2)
    by (cases "routes_of rs (template (path r))") auto
  show "routes m ts \<noteq> Some (r, v)"
  proof
    assume "routes m ts = Some (r, v)"
    then have "r \<in> set rs" unfolding m(2) routes_of_def by (auto dest: map_of_SomeD)
    with assms(2) show False by auto
  qed
qed

text \<open>The response follows from the match.\<close>

lemma get_response_during_cases:
  assumes "\<And>req. build (mm_ins pf) (url_parse pf) b k = Inr req \<Longrightarrow>
    match_during (set_first pf) at w (rpath req) = matcher_match (set_first pf) m (rpath req)"
  shows "get_response_during pf at w b k = get_response pf m b k"
  using assms by (cases "build (mm_ins pf) (url_parse pf) b k") (simp_all add: get_response_during_def get_response_def)

lemma get_response_during_gap:
  assumes "build (mm_ins pf) (url_parse pf) b k = Inr req"
    and "match_during (set_first pf) at w (rpath req) =
      bind_res (matcher_match (set_first pf) m (rpath req)) (\<lambda>mt. Inr (map_option (without_methods r) mt))"
  shows "get_response_during pf at w b k \<in> {get_response pf m b k, Inr (failure Bad_function_call)}"
proof (cases "matcher_match (set_first pf) m (rpath req)")
  case (Inr mt)
  with assms show ?thesis
    by (cases mt) (auto simp: get_response_during_def get_response_def without_methods_def dispatch_def failure_def)
qed (simp add: assms get_response_during_def get_response_def)

lemma response_meanwhile:
  fixes b :: builder and k :: int
  assumes set: "matcher_set (set_first pf)" and wf: "wf_matcher m"
    and free: "routes m (template (path r)) = None" and absent: "\<And>ts v. routes m ts \<noteq> Some (r, v)"
    and st: "stages m r f M a n" and w: "mono w"
  defines "l \<equiv> path_length r" and "m' \<equiv> last_trie r f M a n"
    and "resp \<equiv> get_response_during pf (matcher_after r f m) w b k"
  shows "resp \<in> {get_response pf m b k, get_response pf m' b k, Inr (failure Bad_function_call)} \<and>
    ((\<forall>i. w i \<noteq> l + 2) \<longrightarrow> resp \<in> {get_response pf m b k, get_response pf m' b k}) \<and>
    ((\<forall>i. w i < l + 2) \<longrightarrow> resp = get_response pf m b k) \<and>
    ((\<forall>i. l + 2 < w i) \<longrightarrow> resp = get_response pf m' b k)"
proof -
  note match = matcher_set.match_meanwhile [OF set wf free absent st w, folded l_def m'_def]
  note eq = get_response_during_cases [of pf b k "matcher_after r f m" w, folded resp_def]
  show ?thesis
  proof (cases "build (mm_ins pf) (url_parse pf) b k")
    case (Inl e)
    then have "resp = get_response pf m b k" "resp = get_response pf m' b k"
      using eq [of m] eq [of m'] by simp_all
    then show ?thesis by simp
  next
    case (Inr req)
    have "resp = get_response pf m b k \<or> resp = get_response pf m' b k \<or>
        w (length (path_components (rpath req))) = l + 2 \<and> resp \<in> {get_response pf m' b k, Inr (failure Bad_function_call)}"
      using match(1) [of "rpath req"] eq [of m] eq [of m'] get_response_during_gap [OF Inr, of "matcher_after r f m" w m' r]
      unfolding resp_def Inr by blast
    moreover have "resp = get_response pf m b k" if "\<forall>i. w i < l + 2"
      using match(2) [OF that] eq [of m] by simp
    moreover have "resp = get_response pf m' b k" if "\<forall>i. l + 2 < w i"
      using match(3) [OF that] eq [of m'] by simp
    ultimately show ?thesis by blast
  qed
qed



text \<open>That internal error does occur.\<close>

lemma gap_answer:
  "get_response_during tree_platform
     (matcher_after (HelloParamResource 2) (bindMethods (HelloParamResource 2)) ResourceMatcher) (\<lambda>_. 4)
     (RequestBuilder\<lparr>url := ''/bob''\<rparr>) 1 = Inr (failure Bad_function_call)"
  by code_simp

end
