(* ===== verification/Diagnostics.thy ===== *)
theory Diagnostics
  imports Serving End_To_End
begin

text \<open>
  What the program reports about itself besides its responses: the lines it logs
  (\<open>src/logging.h\<close> gives the macros \<open>LOG\<close> and \<open>VLOG\<close>) and the timer around the dispatch of a
  request (\<open>SCOPED_TIMER\<close> in \<open>src/server_instance.h\<close>). The functions that report are repeated here
  with their reports; without them they are the functions of the other theories. How lines are
  written and what a timer does with its samples is up to the libraries.
\<close>

section \<open>Reports\<close>

datatype severity = INFO | ERROR | VLOG nat

datatype report = Line severity string | Sample string

text \<open>A result with the reports made on the way to it, which an exception does not undo.\<close>

type_synonym 'a reported = "report list \<times> 'a res"

definition silent :: "'a res \<Rightarrow> 'a reported" where
  "silent r = ([], r)"

definition bind_rep :: "'a reported \<Rightarrow> ('a \<Rightarrow> 'b reported) \<Rightarrow> 'b reported" where
  "bind_rep m f = (case snd m of Inl e \<Rightarrow> (fst m, Inl e) | Inr x \<Rightarrow> (fst m @ fst (f x), snd (f x)))"

definition LOG :: "severity \<Rightarrow> string \<Rightarrow> 'a reported \<Rightarrow> 'a reported" where
  "LOG s text r = (Line s text # fst r, snd r)"

text \<open>The timer is an object of the block: it takes its sample when the block is left, also by an
  exception.\<close>

definition SCOPED_TIMER :: "string \<Rightarrow> 'a reported \<Rightarrow> 'a reported" where
  "SCOPED_TIMER name r = (fst r @ [Sample name], snd r)"

lemma reported_results [simp]:
  "snd (silent r) = r" "snd (LOG s text x) = snd x" "snd (SCOPED_TIMER name x) = snd x"
  "snd (bind_rep x f) = bind_res (snd x) (\<lambda>a. snd (f a))"
  by (auto simp: silent_def LOG_def SCOPED_TIMER_def bind_rep_def bind_res_def split: sum.split)

lemma reported_reports [simp]:
  "fst (silent r) = []" "fst (LOG s text x) = Line s text # fst x"
  "fst (SCOPED_TIMER name x) = fst x @ [Sample name]"
  "fst (bind_rep x f) = fst x @ (case snd x of Inl e \<Rightarrow> [] | Inr a \<Rightarrow> fst (f a))"
  by (auto simp: silent_def LOG_def SCOPED_TIMER_def bind_rep_def split: sum.split)

section \<open>Registration\<close>

definition addResource_rep :: "matcher \<Rightarrow> resource \<Rightarrow> methods \<Rightarrow> (exn option \<times> matcher) reported" where
  "addResource_rep m res meths =
     bind_rep (silent (PathComponents_for (path res) (PathComponents_begin (path res)) add_component
                 (m, head_addr)))
       (\<lambda>(m1, cur). bind_rep (silent (load m1 cur)) (\<lambda>n.
          if nresource n \<noteq> None
          then LOG ERROR (path res @ '' is already registered'')
                 (silent (Inr (Some (Runtime_error ''Resource registration collision''), m1)))
          else silent (bind_res
                 (modify m1 cur (\<lambda>n. n\<lparr>nresource := Some res, nmethods := Some meths\<rparr>))
                 (\<lambda>m2. Inr (None, m2\<lparr>resources := resources m2 @ [res]\<rparr>)))))"

lemma snd_case_prod: "snd (case x of (a, b) \<Rightarrow> f a b) = (case x of (a, b) \<Rightarrow> snd (f a b))"
  by (cases x) simp

lemma addResource_rep_result: "snd (addResource_rep m r f) = addResource m r f"
  by (simp add: addResource_rep_def addResource_def if_distrib [where f = snd] snd_case_prod cong: if_cong)

section \<open>From a message to its response\<close>

definition matcher_match_rep ::
    "((search_state \<Rightarrow> search_state \<Rightarrow> bool) \<Rightarrow> search_state list \<Rightarrow> search_state res) \<Rightarrow>
     matcher \<Rightarrow> string \<Rightarrow> route_match option reported" where
  "matcher_match_rep first m p =
     bind_rep (silent (PathComponents_for p (PathComponents_begin p) (search_round m) [initial_state]))
       (\<lambda>states.
          let candidates = candidates_of states in
          if candidates = [] then LOG (VLOG 3) (''No matches for '' @ p) (silent (Inr None))
          else silent (bind_res (first compare candidates) (make_match m)))"

lemma matcher_match_rep_result: "snd (matcher_match_rep first m p) = matcher_match first m p"
  by (simp add: matcher_match_rep_def matcher_match_def Let_def if_distrib [where f = snd] cong: if_cong)

definition get_response_rep :: "platform \<Rightarrow> matcher \<Rightarrow> builder \<Rightarrow> int \<Rightarrow> response reported" where
  "get_response_rep pf m b method =
     (let r = bind_rep (silent (build (mm_ins pf) (url_parse pf) b method)) (\<lambda>req.
             bind_rep (matcher_match_rep (set_first pf) m (rpath req)) (\<lambda>mt.
               case mt of
                 Some h \<Rightarrow> SCOPED_TIMER ''topper.resource.dispatch'' (silent (dispatch req h))
               | None \<Rightarrow> silent (Inr notFound)))
      in (fst r, case snd r of
             Inl (Throw e) \<Rightarrow> Inr (Response INTERNAL_ERROR TEXT_PLAIN (what e))
           | x \<Rightarrow> x))"

lemma snd_case_option: "snd (case x of None \<Rightarrow> a | Some y \<Rightarrow> f y) = (case x of None \<Rightarrow> snd a | Some y \<Rightarrow> snd (f y))"
  by (cases x) simp_all

lemma get_response_rep_result: "snd (get_response_rep pf m b k) = get_response pf m b k"
  by (simp add: get_response_rep_def get_response_def Let_def matcher_match_rep_result snd_case_option
      cong: option.case_cong)

section \<open>Callbacks of the parser\<close>

definition on_header_field_rep :: "builder \<Rightarrow> string \<Rightarrow> (int \<times> builder) reported" where
  "on_header_field_rep b at =
     (case hstate b of
        VALUE \<Rightarrow> LOG (VLOG 3) (''Header '' @ hname b @ '' = '' @ hvalue b) (silent (Inr (on_header_field b at)))
      | _ \<Rightarrow> silent (Inr (on_header_field b at)))"

fun run_callback_rep :: "builder \<Rightarrow> callback \<Rightarrow> (int \<times> builder) reported" where
  "run_callback_rep b (HeaderField s) = on_header_field_rep b s"
| "run_callback_rep b c = silent (Inr (run_callback b c))"

lemma run_callback_rep_result: "snd (run_callback_rep b c) = Inr (run_callback b c)"
  by (cases c) (simp_all add: on_header_field_rep_def split: header_state.split)

definition message_complete_rep ::
    "platform \<Rightarrow> matcher \<Rightarrow> 'p conn \<Rightarrow> int \<Rightarrow> (int \<times> 'p conn) reported" where
  "message_complete_rep pf m ctx method =
     bind_rep (get_response_rep pf m (builder ctx) method) (\<lambda>resp.
       let resp_str = to_string resp in
       silent (Inr (0, ctx\<lparr>written := written ctx @ [resp_str]\<rparr>)))"

fun handle_event_rep ::
    "platform \<Rightarrow> matcher \<Rightarrow> 'p conn \<Rightarrow> parser_event \<Rightarrow> (int \<times> 'p conn) reported" where
  "handle_event_rep pf m ctx (Piece c) =
     bind_rep (run_callback_rep (RequestBuilder_builder ctx) c)
       (\<lambda>(rc, b). silent (Inr (rc, ctx\<lparr>builder := b\<rparr>)))"
| "handle_event_rep pf m ctx (MessageComplete method) = message_complete_rep pf m ctx method"

lemma handle_event_rep_result: "snd (handle_event_rep pf m ctx e) = handle_event pf m ctx e"
  by (cases e)
    (simp_all add: message_complete_rep_def message_complete_def run_callback_rep_result
      get_response_rep_result Let_def snd_case_prod split: prod.split)

fun handle_events_rep ::
    "platform \<Rightarrow> matcher \<Rightarrow> 'p conn \<Rightarrow> parser_event list \<Rightarrow> nat \<Rightarrow> (nat option \<times> 'p conn) reported" where
  "handle_events_rep pf m ctx [] i = silent (Inr (None, ctx))"
| "handle_events_rep pf m ctx (e # es) i =
     bind_rep (handle_event_rep pf m ctx e) (\<lambda>(rc, ctx').
       if rc \<noteq> 0 then silent (Inr (Some i, ctx')) else handle_events_rep pf m ctx' es (Suc i))"

lemma handle_events_rep_result: "snd (handle_events_rep pf m ctx es i) = handle_events pf m ctx es i"
proof (induction es arbitrary: ctx i)
  case (Cons e es)
  then show ?case
    by (simp add: handle_event_rep_result snd_case_prod if_distrib [where f = snd] cong: if_cong)
qed simp

definition http_parser_execute_rep ::
    "'p http_parser \<Rightarrow> platform \<Rightarrow> matcher \<Rightarrow> 'p conn \<Rightarrow> string \<Rightarrow> (nat \<times> 'p conn) reported" where
  "http_parser_execute_rep execute pf m ctx data =
     (let ex = execute (parser ctx) data in
      bind_rep (handle_events_rep pf m ctx (events ex) 0) (\<lambda>(refused, ctx').
        case refused of
          None \<Rightarrow> silent (Inr (parsed ex, ctx'\<lparr>parser := next_state ex\<rparr>))
        | Some i \<Rightarrow> silent (Inr (fst (on_refusal ex i), ctx'\<lparr>parser := snd (on_refusal ex i)\<rparr>))))"

lemma http_parser_execute_rep_result:
  "snd (http_parser_execute_rep execute pf m ctx data) = http_parser_execute execute pf m ctx data"
  by (simp add: http_parser_execute_rep_def http_parser_execute_def Let_def handle_events_rep_result
      snd_case_prod snd_case_option cong: option.case_cong)

section \<open>Callbacks of the stream and of the listener\<close>

fun read_extents_rep ::
    "'p http_parser \<Rightarrow> platform \<Rightarrow> matcher \<Rightarrow> 'p conn \<Rightarrow> nat \<Rightarrow> string list \<Rightarrow>
     ('p conn option \<times> nat) reported" where
  "read_extents_rep execute pf m ctx drain [] = silent (Inr (Some ctx, drain))"
| "read_extents_rep execute pf m ctx drain (extent # extents) =
     bind_rep (http_parser_execute_rep execute pf m ctx extent) (\<lambda>(n, ctx').
       if n \<noteq> length extent
       then LOG INFO (''Parsed '' @ dec_nat n @ '' bytes of '' @ dec_nat (length extent)) (silent (Inr (None, 0)))
       else read_extents_rep execute pf m ctx' (drain + n) extents)"

lemma read_extents_rep_result:
  "snd (read_extents_rep execute pf m ctx d xs) = read_extents execute pf m ctx d xs"
proof (induction xs arbitrary: ctx d)
  case (Cons x xs)
  then show ?case
    by (simp add: http_parser_execute_rep_result snd_case_prod if_distrib [where f = snd] cong: if_cong)
qed simp

definition available_rep ::
    "'p http_parser \<Rightarrow> platform \<Rightarrow> matcher \<Rightarrow> 'p conn option \<Rightarrow> string list \<Rightarrow>
     ('p conn option \<times> nat) reported" where
  "available_rep execute pf m c extents =
     bind_rep (silent (live_context c)) (\<lambda>ctx. read_extents_rep execute pf m ctx 0 extents)"

definition eof_rep ::
    "'p http_parser \<Rightarrow> platform \<Rightarrow> matcher \<Rightarrow> 'p conn option \<Rightarrow> 'p conn option reported" where
  "eof_rep execute pf m c =
     bind_rep (silent (live_context c)) (\<lambda>ctx.
     bind_rep (http_parser_execute_rep execute pf m ctx []) (\<lambda>(rc, ctx').
       if rc \<noteq> 0 then LOG INFO ''Error on eof'' (silent (Inr None)) else silent (Inr (Some ctx'))))"

text \<open>The error callbacks are given the exception.\<close>

definition read_error_rep :: "exn \<Rightarrow> 'p conn option \<Rightarrow> 'p conn option reported" where
  "read_error_rep e c = LOG INFO (''While reading: '' @ what e) (silent (read_error c))"

definition write_error_rep :: "exn \<Rightarrow> 'p conn option \<Rightarrow> 'p conn option reported" where
  "write_error_rep e c = LOG INFO (''While writing: '' @ what e) (silent (write_error c))"

definition write_complete_rep :: "'p conn option \<Rightarrow> 'p conn option reported" where
  "write_complete_rep c = silent (write_complete c)"

definition listenErrorCb :: "exn \<Rightarrow> unit reported" where
  "listenErrorCb e = LOG INFO (what e) (silent (Inr ()))"

text \<open>An event of the stream, with the exception an error callback is given.\<close>

fun conn_step_rep ::
    "'p http_parser \<Rightarrow> platform \<Rightarrow> matcher \<Rightarrow> 'p conn option \<Rightarrow> conn_event \<times> exn \<Rightarrow>
     ('b observation \<times> 'p conn option) reported" where
  "conn_step_rep execute pf m c (Available extents, x) =
     bind_rep (available_rep execute pf m c extents) (\<lambda>(c', drain). silent (Inr (Drained drain, c')))"
| "conn_step_rep execute pf m c (EndOfFile, x) =
     bind_rep (eof_rep execute pf m c) (\<lambda>c'. silent (Inr (Silent, c')))"
| "conn_step_rep execute pf m c (ReadError, x) =
     bind_rep (read_error_rep x c) (\<lambda>c'. silent (Inr (Silent, c')))"
| "conn_step_rep execute pf m c (WriteError, x) =
     bind_rep (write_error_rep x c) (\<lambda>c'. silent (Inr (Silent, c')))"
| "conn_step_rep execute pf m c (WriteComplete, x) =
     bind_rep (write_complete_rep c) (\<lambda>c'. silent (Inr (Silent, c')))"

lemma conn_step_rep_result:
  "snd (conn_step_rep execute pf m c ex) = (conn_step execute pf m c (fst ex) :: ('b observation \<times> 'p conn option) res)"
proof -
  obtain e x where ex: "ex = (e, x)" by (cases ex)
  show ?thesis
    unfolding ex
    by (cases e)
      (simp_all add: available_rep_def available_def eof_rep_def eof_def read_error_rep_def write_error_rep_def
        write_complete_rep_def http_parser_execute_rep_result read_extents_rep_result snd_case_prod bind_res_assoc
        if_distrib [where f = snd] split_def cong: if_cong, auto simp: bind_res_def split: sum.splits)
qed

text \<open>The reports of a connection, event by event.\<close>

fun conn_history_rep ::
    "'p http_parser \<Rightarrow> platform \<Rightarrow> matcher \<Rightarrow> 'p conn option \<Rightarrow> (conn_event \<times> exn) list \<Rightarrow>
     ('b observation list \<times> 'p conn option) reported" where
  "conn_history_rep execute pf m c [] = silent (Inr ([], c))"
| "conn_history_rep execute pf m c (e # es) =
     bind_rep (conn_step_rep execute pf m c e) (\<lambda>(out, c').
       bind_rep (conn_history_rep execute pf m c' es) (\<lambda>(outs, c''). silent (Inr (out # outs, c''))))"

lemma conn_history_rep_result:
  "snd (conn_history_rep execute pf m c es) =
     (history (conn_step execute pf m) c (map fst es) :: ('b observation list \<times> 'p conn option) res)"
proof (induction es arbitrary: c)
  case (Cons e es)
  then show ?case by (simp add: conn_step_rep_result snd_case_prod)
qed simp

section \<open>How connections end\<close>

fun is_info :: "report \<Rightarrow> bool" where
  "is_info (Line INFO text) \<longleftrightarrow> True"
| "is_info _ \<longleftrightarrow> False"

text \<open>The line for an event that ended a connection.\<close>

fun last_line :: "conn_event \<times> exn \<Rightarrow> report \<Rightarrow> bool" where
  "last_line (Available xs, x) l \<longleftrightarrow> (\<exists>n extent. extent \<in> set xs \<and> n \<noteq> length extent \<and>
     l = Line INFO (''Parsed '' @ dec_nat n @ '' bytes of '' @ dec_nat (length extent)))"
| "last_line (EndOfFile, x) l \<longleftrightarrow> l = Line INFO ''Error on eof''"
| "last_line (ReadError, x) l \<longleftrightarrow> l = Line INFO (''While reading: '' @ what x)"
| "last_line (WriteError, x) l \<longleftrightarrow> l = Line INFO (''While writing: '' @ what x)"
| "last_line (WriteComplete, x) l \<longleftrightarrow> False"

definition infos :: "'a reported \<Rightarrow> report list" where
  "infos m = filter is_info (fst m)"

lemma infos_simps [simp]:
  "infos (silent r) = []" "infos (LOG INFO text x) = Line INFO text # infos x"
  "infos (LOG (VLOG n) text x) = infos x" "infos (SCOPED_TIMER name x) = infos x"
  "infos (bind_rep x f) = infos x @ (case snd x of Inl e \<Rightarrow> [] | Inr a \<Rightarrow> infos (f a))"
  by (simp_all add: infos_def split: sum.split)

text \<open>What is reported of a message: a sample of the timer if a resource matched, otherwise a line, if a
  request could be built.\<close>

lemma get_response_reports:
  "fst (get_response_rep pf m b k) =
     (case build (mm_ins pf) (url_parse pf) b k of
        Inl e \<Rightarrow> []
      | Inr req \<Rightarrow> (case matcher_match (set_first pf) m (rpath req) of
          Inl e \<Rightarrow> []
        | Inr None \<Rightarrow> fst (matcher_match_rep (set_first pf) m (rpath req))
        | Inr (Some h) \<Rightarrow> [Sample ''topper.resource.dispatch'']))"
proof -
  have quiet: "fst (matcher_match_rep first m p) = []"
    if "matcher_match first m p \<noteq> Inr None" for first p
    using that by (auto simp: matcher_match_rep_def matcher_match_def Let_def split: sum.splits)
  show ?thesis
    by (auto simp: get_response_rep_def Let_def matcher_match_rep_result quiet split: sum.splits option.splits)
qed

lemma no_match_line:
  "matcher_match first m p = Inr None \<Longrightarrow>
     fst (matcher_match_rep first m p) = [Line (VLOG 3) (''No matches for '' @ p)]"
  by (auto simp: matcher_match_rep_def matcher_match_def Let_def bind_res_Inr_iff make_match_def
      split: sum.splits if_splits option.splits)

lemma infos_get_response [simp]: "infos (get_response_rep pf m b k) = []"
  by (auto simp: infos_def get_response_reports no_match_line split: sum.split option.split)

lemma infos_handle_event [simp]: "infos (handle_event_rep pf m ctx e) = []"
proof (cases e)
  case (Piece c)
  have "infos (run_callback_rep b c) = []" for b
    by (cases c) (simp_all add: on_header_field_rep_def split: header_state.split)
  with Piece show ?thesis by (simp add: run_callback_rep_result split: prod.split)
qed (simp add: message_complete_rep_def Let_def get_response_rep_result split: sum.split)

lemma infos_handle_events [simp]: "infos (handle_events_rep pf m ctx es i) = []"
proof (induction es arbitrary: ctx i)
  case (Cons e es)
  then show ?case by (auto split: sum.split prod.split)
qed simp

lemma infos_execute [simp]: "infos (http_parser_execute_rep execute pf m ctx data) = []"
  by (auto simp: http_parser_execute_rep_def Let_def split: sum.split prod.split option.split)

lemma last_line_more: "last_line (Available xs, x) l \<Longrightarrow> last_line (Available (y # xs), x) l"
  by auto

lemma infos_read_extents:
  "read_extents execute pf m ctx d xs = Inr (c', n) \<Longrightarrow>
     (if c' = None then \<exists>l. infos (read_extents_rep execute pf m ctx d xs) = [l] \<and> last_line (Available xs, x) l
      else infos (read_extents_rep execute pf m ctx d xs) = [])"
proof (induction xs arbitrary: ctx d)
  case (Cons y ys)
  then obtain k ctx' where 1: "http_parser_execute execute pf m ctx y = Inr (k, ctx')"
    by (auto simp: bind_res_Inr_iff)
  show ?case
  proof (cases "k = length y")
    case True
    with Cons.prems 1 have "read_extents execute pf m ctx' (d + k) ys = Inr (c', n)" by simp
    from Cons.IH [OF this] last_line_more [of ys x _ y] show ?thesis
      by (auto simp: http_parser_execute_rep_result 1 True simp del: last_line.simps)
  next
    case False
    then have "last_line (Available (y # ys), x)
        (Line INFO (''Parsed '' @ dec_nat k @ '' bytes of '' @ dec_nat (length y)))"
      by (simp only: last_line.simps) (metis list.set_intros(1))
    with Cons.prems 1 False show ?thesis
      by (auto simp: http_parser_execute_rep_result 1 simp del: last_line.simps)
  qed
qed auto

lemma conn_step_infos:
  fixes out :: "'b observation"
  assumes "conn_step execute pf m c (fst e) = Inr (out, c')"
  shows "let l = infos (conn_step_rep execute pf m c e :: ('b observation \<times> 'p conn option) reported) in
    if c' = None \<and> fst e \<noteq> WriteComplete then \<exists>x. l = [x] \<and> last_line e x else l = []"
proof -
  obtain ev x where e: "e = (ev, x)" by (cases e)
  show ?thesis
  proof (cases ev)
    case (Available xs)
    with assms e obtain ctx n where 1: "c = Some ctx" "read_extents execute pf m ctx 0 xs = Inr (c', n)"
      by (auto simp: available_def live_context_def bind_res_Inr_iff split: option.splits)
    with infos_read_extents [OF 1(2), of x] Available e show ?thesis
      by (auto simp: available_rep_def live_context_def read_extents_rep_result Let_def simp del: last_line.simps)
  next
    case EndOfFile
    with assms e obtain ctx rc ctx' where 1: "c = Some ctx"
      "http_parser_execute execute pf m ctx [] = Inr (rc, ctx')" "c' = (if rc \<noteq> 0 then None else Some ctx')"
      by (auto simp: eof_def live_context_def bind_res_Inr_iff split: option.splits)
    with EndOfFile e show ?thesis
      by (simp add: eof_rep_def live_context_def http_parser_execute_rep_result Let_def)
  qed (use assms e in \<open>auto simp: read_error_rep_def write_error_rep_def write_complete_rep_def read_error_def
      write_error_def write_complete_def delete_context_def live_context_def bind_res_Inr_iff Let_def
      split: option.splits sum.splits\<close>)
qed

lemma conn_step_gone: "conn_step execute pf m None e = Inl Undef"
  by (cases e) (simp_all add: available_def eof_def read_error_def write_error_def write_complete_def
      delete_context_def live_context_def)

lemma history_gone:
  "history (conn_step execute pf m) None es = Inr (outs, c) \<Longrightarrow> es = [] \<and> c = None"
  by (cases es) (auto simp: conn_step_gone)

lemma history_infos:
  fixes outs :: "'b observation list"
  shows "history (conn_step execute pf m) (Some ctx) (map fst es) = Inr (outs, c) \<Longrightarrow>
    let l = infos (conn_history_rep execute pf m (Some ctx) es :: ('b observation list \<times> 'p conn option) reported) in
    if c = None \<and> fst (last es) \<noteq> WriteComplete then \<exists>x. l = [x] \<and> last_line (last es) x else l = []"
proof (induction es arbitrary: ctx outs)
  case (Cons e es)
  from Cons.prems obtain out :: "'b observation" and c1 and outs' :: "'b observation list" where
    1: "conn_step execute pf m (Some ctx) (fst e) = Inr (out, c1)"
    "history (conn_step execute pf m) c1 (map fst es) = Inr (outs', c)"
    by (auto simp: bind_res_Inr_iff)
  let ?l = "infos (conn_step_rep execute pf m (Some ctx) e :: ('b observation \<times> 'p conn option) reported)"
  have l: "infos (conn_history_rep execute pf m (Some ctx) (e # es) :: ('b observation list \<times> 'p conn option) reported) =
      ?l @ infos (conn_history_rep execute pf m c1 es :: ('b observation list \<times> 'p conn option) reported)"
    using 1 by (simp add: conn_step_rep_result conn_history_rep_result)
  show ?case
  proof (cases c1)
    case None
    with history_gone [of execute pf m "map fst es" outs' c] 1(2) have "es = []" "c = None" by auto
    with conn_step_infos [OF 1(1)] None l show ?thesis by (simp add: Let_def)
  next
    case (Some ctx1)
    with conn_step_infos [OF 1(1)] have "?l = []" by (simp add: Let_def)
    moreover have "es \<noteq> []" if "c = None" using that Some 1(2) by auto
    ultimately show ?thesis using Cons.IH [of ctx1 outs'] 1(2) Some l by (auto simp: Let_def)
  qed
qed auto

section \<open>Properties\<close>

text \<open>C35: Reporting does not interfere: the events of a connection have the same outcomes and leave the same
  context with it as without. And an operator who reads the lines of level \<open>INFO\<close> sees how a
  connection ended: none while it is open and none when it is ended by the completion of a write,
  and exactly one, the one for the cause, when it is ended by anything else.\<close>

theorem connection_log:
  fixes log :: "('b observation list \<times> 'p conn option) reported"
  assumes "log = conn_history_rep execute pf m (Some (RequestContext p)) es"
  shows "snd log = history (conn_step execute pf m) (Some (RequestContext p)) (map fst es) \<and>
    (\<forall>outs c. snd log = Inr (outs, c) \<longrightarrow>
      (if c = None \<and> fst (last es) \<noteq> WriteComplete
       then \<exists>l. filter is_info (fst log) = [l] \<and> last_line (last es) l
       else filter is_info (fst log) = []))"
proof -
  have "snd log = history (conn_step execute pf m) (Some (RequestContext p)) (map fst es)"
    by (simp only: assms conn_history_rep_result)
  moreover from this history_infos [of execute pf m "RequestContext p" es, where 'b = 'b] have
    "if c = None \<and> fst (last es) \<noteq> WriteComplete
     then \<exists>l. filter is_info (fst log) = [l] \<and> last_line (last es) l
     else filter is_info (fst log) = []" if "snd log = Inr (outs, c)" for outs c
    using that unfolding assms infos_def Let_def by metis
  ultimately show ?thesis by blast
qed

theorem connection_log_witness:
  "filter is_info (fst (conn_history_rep line_parser tree_platform ResourceMatcher (Some (RequestContext ()))
     [(Available [''/b''], Bad_function_call), (ReadError, System_error ''reset'')]
       :: (nat observation list \<times> unit conn option) reported)) = [Line INFO ''While reading: reset'']"
proof -
  let ?es = "[(Available [''/b''], Bad_function_call), (ReadError, System_error ''reset'')]"
  let ?log = "conn_history_rep line_parser tree_platform ResourceMatcher (Some (RequestContext ())) ?es
    :: (nat observation list \<times> unit conn option) reported"
  have "\<exists>outs. (history (conn_step line_parser tree_platform ResourceMatcher) (Some (RequestContext ())) (map fst ?es)
      :: (nat observation list \<times> unit conn option) res) = Inr (outs, None)"
    by (simp add: available_def live_context_def http_parser_execute_def line_parser_def line_event_def
        RequestContext_def on_url_def read_error_def delete_context_def Let_def)
  with connection_log [of ?log line_parser tree_platform ResourceMatcher "()" ?es] show ?thesis by auto
qed

text \<open>The timer of the dispatch takes one sample for each message that a resource answers, with its
  response or its exception, and none for the others.\<close>

theorem dispatches_timed:
  "fst (get_response_rep pf m b k) = [Sample ''topper.resource.dispatch''] \<longleftrightarrow>
    (\<exists>req h. build (mm_ins pf) (url_parse pf) b k = Inr req \<and>
       matcher_match (set_first pf) m (rpath req) = Inr (Some h))"
  by (auto simp: get_response_reports no_match_line split: sum.split option.split)

end
