(* ===== verification/Streams.thy ===== *)
theory Streams
  imports System End_To_End
begin

text \<open>
  The streams of the connections of an instance: what \<open>acceptCb\<close> queues on the worker base, the
  constructor and the destructor of \<open>RequestContext\<close> with the calls they make on the stream
  (\<open>src/server_instance.h\<close>, \<open>src/server_instance.cc\<close>), and the descriptors of the sockets. \<open>Serving\<close>
  lets the streams report anything at any time; here a stream keeps the contract of its library
  (\<open>permitted\<close>), and under this contract no callback and no queued function ever meets a deleted
  context. The histories are those of \<open>Serving\<close> with more to be seen of each connection.
\<close>

section \<open>Contexts with their streams\<close>

text \<open>A context with the state of its stream: the descriptor, whether the read callback is
  installed, and whether the end of the input was reported.\<close>

record 'p stream_context =
  sock :: int
  reading :: bool
  at_eof :: bool
  request_ctx :: "'p conn option"

definition RequestContext_on :: "'p \<Rightarrow> int \<Rightarrow> 'p stream_context" where
  "RequestContext_on p0 fd =
     \<lparr>sock = fd, reading = False, at_eof = False, request_ctx = Some (RequestContext p0)\<rparr>"

text \<open>The instance with its contexts, each with its worker; the functions queued on the workers, all
  of which start the reading of a context; and the descriptors closed so far.\<close>

record ('p, 'b) hub =
  choices :: "32 word"
  held :: "('b \<times> 'p stream_context) list"
  queued :: "'b \<Rightarrow> nat list"
  released :: "int list"

definition new_hub :: "32 word \<Rightarrow> ('p, 'b) hub" where
  "new_hub iter = \<lparr>choices = iter, held = [], queued = (\<lambda>_. []), released = []\<rparr>"

definition set_held :: "nat \<Rightarrow> 'p stream_context \<Rightarrow> ('p, 'b) hub \<Rightarrow> ('p, 'b) hub" where
  "set_held i h s = s\<lparr>held := (held s)[i := (fst (held s ! i), h)]\<rparr>"

text \<open>\<open>acceptCb\<close>: a worker is chosen, a context created for the descriptor, and the start of its
  reading queued on the worker.\<close>

definition accept_fd ::
    "'p \<Rightarrow> 'b server_instance \<Rightarrow> int \<Rightarrow> ('p, 'b) hub \<Rightarrow> ('b observation \<times> ('p, 'b) hub) res" where
  "accept_fd p0 inst fd s =
     bind_res (chooseBase (choices s) inst) (\<lambda>(iter', base).
       Inr (Accepted base,
         s\<lparr>choices := iter', held := held s @ [(base, RequestContext_on p0 fd)],
           queued := (queued s)(base := queued s base @ [length (held s)])\<rparr>))"

text \<open>The queued function, and the worker taking the first one of its queue.\<close>

definition start_read :: "nat \<Rightarrow> ('p, 'b) hub \<Rightarrow> ('p, 'b) hub res" where
  "start_read i s =
     (case request_ctx (snd (held s ! i)) of
        None \<Rightarrow> Inl Undef
      | Some c \<Rightarrow> Inr (set_held i (snd (held s ! i)\<lparr>reading := True\<rparr>) s))"

definition run_worker :: "'b \<Rightarrow> ('p, 'b) hub \<Rightarrow> ('b observation \<times> ('p, 'b) hub) res" where
  "run_worker b s =
     (case queued s b of
        [] \<Rightarrow> Inr (Silent, s)
      | i # is \<Rightarrow> bind_res (start_read i (s\<lparr>queued := (queued s)(b := is)\<rparr>)) (\<lambda>s'. Inr (Silent, s')))"

text \<open>The destructor stops the reading, closes the descriptor and deletes the stream.\<close>

definition RequestContext_destroy :: "nat \<Rightarrow> ('p, 'b) hub \<Rightarrow> ('p, 'b) hub" where
  "RequestContext_destroy i s =
     (let h = snd (held s ! i) in
      set_held i (h\<lparr>reading := False, request_ctx := None\<rparr>) (s\<lparr>released := released s @ [sock h]\<rparr>))"

text \<open>A report of a stream: the callback runs, and when it deletes the context, so does the destructor.\<close>

definition stream_report ::
    "'p http_parser \<Rightarrow> platform \<Rightarrow> 'b server_instance \<Rightarrow> nat \<Rightarrow> conn_event \<Rightarrow> ('p, 'b) hub \<Rightarrow>
     ('b observation \<times> ('p, 'b) hub) res" where
  "stream_report execute pf inst i e s =
     (if i < length (held s)
      then let h = snd (held s ! i); h' = h\<lparr>at_eof := at_eof h \<or> e = EndOfFile\<rparr> in
        bind_res (conn_step execute pf (matcher inst) (request_ctx h) e) (\<lambda>(out, c).
          Inr (out, case c of
              None \<Rightarrow> RequestContext_destroy i (set_held i h' s)
            | Some c' \<Rightarrow> set_held i (h'\<lparr>request_ctx := Some c'\<rparr>) s))
      else Inl Undef)"

datatype 'b hub_event = Connect int | Run_worker 'b | Report nat conn_event

fun hub_step ::
    "'p http_parser \<Rightarrow> platform \<Rightarrow> 'p \<Rightarrow> 'b server_instance \<Rightarrow> ('p, 'b) hub \<Rightarrow> 'b hub_event \<Rightarrow>
     ('b observation \<times> ('p, 'b) hub) res" where
  "hub_step execute pf p0 inst s (Connect fd) = accept_fd p0 inst fd s"
| "hub_step execute pf p0 inst s (Run_worker b) = run_worker b s"
| "hub_step execute pf p0 inst s (Report i e) = stream_report execute pf inst i e s"

section \<open>The contract of the streams\<close>

text \<open>
  What the kernel and the event library promise: a new descriptor is not one that is open; a
  stream reports what it reads between \<open>startRead\<close> and \<open>stopRead\<close>, and nothing after the end of its
  input; it reports the completion or failure of a write only when something was written; and a
  deleted stream reports nothing.
\<close>

definition open_socks :: "('p, 'b) hub \<Rightarrow> int list" where
  "open_socks s = map (\<lambda>(b, h). sock h) (filter (\<lambda>(b, h). request_ctx h \<noteq> None) (held s))"

fun on_write :: "conn_event \<Rightarrow> bool" where
  "on_write WriteComplete = True"
| "on_write WriteError = True"
| "on_write e = False"

definition may_report :: "'p stream_context \<Rightarrow> conn_event \<Rightarrow> bool" where
  "may_report h e =
     (case request_ctx h of
        None \<Rightarrow> False
      | Some c \<Rightarrow> if on_write e then written c \<noteq> [] else reading h \<and> \<not> at_eof h)"

fun permitted :: "('p, 'b) hub \<Rightarrow> 'b hub_event \<Rightarrow> bool" where
  "permitted s (Connect fd) \<longleftrightarrow> fd \<notin> set (open_socks s)"
| "permitted s (Run_worker b) \<longleftrightarrow> True"
| "permitted s (Report i e) \<longleftrightarrow> i < length (held s) \<and> may_report (snd (held s ! i)) e"

text \<open>Every event of a history is permitted in the state it meets.\<close>

fun obeyed ::
    "'p http_parser \<Rightarrow> platform \<Rightarrow> 'p \<Rightarrow> 'b server_instance \<Rightarrow> ('p, 'b) hub \<Rightarrow> 'b hub_event list \<Rightarrow> bool" where
  "obeyed execute pf p0 inst s [] \<longleftrightarrow> True"
| "obeyed execute pf p0 inst s (e # es) \<longleftrightarrow>
     permitted s e \<and>
     (case hub_step execute pf p0 inst s e of
        Inl f \<Rightarrow> True
      | Inr (out, s') \<Rightarrow> obeyed execute pf p0 inst s' es)"

section \<open>The invariant\<close>

text \<open>A context waits for its queued function as long as it is not reading, and nothing has happened
  to it until then.\<close>

definition waiting_ctx :: "'p stream_context \<Rightarrow> bool" where
  "waiting_ctx h \<longleftrightarrow> request_ctx h \<noteq> None \<and> \<not> reading h"

definition untouched :: "'p stream_context \<Rightarrow> bool" where
  "untouched h \<longleftrightarrow> \<not> at_eof h \<and> (\<exists>c. request_ctx h = Some c \<and> written c = [])"

definition queue_inv :: "('p, 'b) hub \<Rightarrow> bool" where
  "queue_inv s \<longleftrightarrow>
     (\<forall>b. distinct (queued s b)) \<and>
     (\<forall>b i. i \<in> set (queued s b) \<longleftrightarrow>
        i < length (held s) \<and> fst (held s ! i) = b \<and> waiting_ctx (snd (held s ! i))) \<and>
     (\<forall>i<length (held s). waiting_ctx (snd (held s ! i)) \<longrightarrow> untouched (snd (held s ! i)))"

definition socks_inv :: "('p, 'b) hub \<Rightarrow> bool" where
  "socks_inv s \<longleftrightarrow>
     distinct (open_socks s) \<and>
     mset (released s) + mset (open_socks s) = mset (map (\<lambda>(b, h). sock h) (held s))"

lemma set_held_simps [simp]:
  "choices (set_held i h s) = choices s" "queued (set_held i h s) = queued s"
  "released (set_held i h s) = released s" "length (held (set_held i h s)) = length (held s)"
  "i < length (held s) \<Longrightarrow> held (set_held i h s) ! i = (fst (held s ! i), h)"
  "j \<noteq> i \<Longrightarrow> held (set_held i h s) ! j = held s ! j"
  by (simp_all add: set_held_def)

lemma destroy_simps [simp]:
  "choices (RequestContext_destroy i s) = choices s" "queued (RequestContext_destroy i s) = queued s"
  "released (RequestContext_destroy i s) = released s @ [sock (snd (held s ! i))]"
  "length (held (RequestContext_destroy i s)) = length (held s)"
  "i < length (held s) \<Longrightarrow> held (RequestContext_destroy i s) ! i =
     (fst (held s ! i), (snd (held s ! i))\<lparr>reading := False, request_ctx := None\<rparr>)"
  "j \<noteq> i \<Longrightarrow> held (RequestContext_destroy i s) ! j = held s ! j"
  by (simp_all add: RequestContext_destroy_def set_held_def Let_def)

lemma queue_inv_new: "queue_inv (new_hub iter)"
  by (simp add: queue_inv_def new_hub_def)

lemma waiting_new: "waiting_ctx (RequestContext_on p0 fd)" "untouched (RequestContext_on p0 fd)"
  by (simp_all add: waiting_ctx_def untouched_def RequestContext_on_def RequestContext_def)

lemma queue_inv_accept:
  assumes "queue_inv s" "accept_fd p0 inst fd s = Inr (out, s')"
  shows "queue_inv s'"
proof -
  from assms(2) obtain iter' base where s':
    "s' = s\<lparr>choices := iter', held := held s @ [(base, RequestContext_on p0 fd)],
       queued := (queued s)(base := queued s base @ [length (held s)])\<rparr>"
    by (auto simp: accept_fd_def bind_res_Inr_iff)
  have "length (held s) \<notin> set (queued s b)" for b
    using assms(1) by (auto simp: queue_inv_def)
  then show ?thesis
    using assms(1) unfolding queue_inv_def s'
    by (auto simp: nth_append less_Suc_eq waiting_new)
qed

text \<open>What is kept when the stream of one context changes.\<close>

lemma queue_inv_set:
  assumes inv: "queue_inv s" and i: "i < length (held s)"
    and s': "held s' = (held s)[i := (fst (held s ! i), h)]" "\<not> waiting_ctx h"
    and q: "\<And>b. distinct (queued s' b)" "\<And>b. set (queued s' b) = set (queued s b) - {i}"
  shows "queue_inv s'"
proof -
  have held: "held s' ! j = (if j = i then (fst (held s ! i), h) else held s ! j)" for j
    using i by (simp add: s'(1) nth_list_update)
  have "length (held s') = length (held s)" by (simp add: s'(1))
  with inv s'(2) q show ?thesis unfolding queue_inv_def by (simp add: held)
qed

lemma queue_inv_worker:
  assumes inv: "queue_inv s" and "run_worker b s = Inr (out, s')"
  shows "queue_inv s'"
proof (cases "queued s b")
  case Nil
  with assms show ?thesis by (simp add: run_worker_def)
next
  case (Cons i "is")
  then have i: "i < length (held s)" "fst (held s ! i) = b" "i \<notin> set is" "distinct is"
    using inv unfolding queue_inv_def by (metis distinct.simps(2) list.set_intros(1))+
  let ?h = "(snd (held s ! i))\<lparr>reading := True\<rparr>"
  have s': "s' = set_held i ?h (s\<lparr>queued := (queued s)(b := is)\<rparr>)"
    using assms(2) Cons
    by (auto simp: run_worker_def start_read_def set_held_def bind_res_Inr_iff split: option.splits)
  show ?thesis
  proof (rule queue_inv_set [OF inv i(1)])
    show "held s' = (held s)[i := (fst (held s ! i), ?h)]" by (simp add: s' set_held_def)
    show "\<not> waiting_ctx ?h" by (simp add: waiting_ctx_def)
    show "distinct (queued s' c)" for c using inv i(4) by (simp add: s' queue_inv_def)
    show "set (queued s' c) = set (queued s c) - {i}" for c
      using inv i Cons by (auto simp: s' queue_inv_def)
  qed
qed

text \<open>A report of a reading stream, or of one that wrote, leaves a context that does not wait.\<close>

lemma stream_report_cases:
  assumes "stream_report execute pf inst i e s = Inr (out, s')"
  obtains c where "i < length (held s)"
    "conn_step execute pf (matcher inst) (request_ctx (snd (held s ! i))) e = Inr (out, c)"
    "held s' = (held s)[i := (fst (held s ! i), (snd (held s ! i))\<lparr>
       reading := reading (snd (held s ! i)) \<and> c \<noteq> None,
       at_eof := at_eof (snd (held s ! i)) \<or> e = EndOfFile, request_ctx := c\<rparr>)]"
    "queued s' = queued s" "choices s' = choices s"
    "released s' = released s @ (if c = None then [sock (snd (held s ! i))] else [])"
proof -
  from assms obtain c where i: "i < length (held s)" and
    c: "conn_step execute pf (matcher inst) (request_ctx (snd (held s ! i))) e = Inr (out, c)" and
    s': "s' = (let h = snd (held s ! i); h' = h\<lparr>at_eof := at_eof h \<or> e = EndOfFile\<rparr> in
      case c of None \<Rightarrow> RequestContext_destroy i (set_held i h' s)
      | Some c' \<Rightarrow> set_held i (h'\<lparr>request_ctx := Some c'\<rparr>) s)"
    by (auto simp: stream_report_def bind_res_Inr_iff Let_def split: if_splits)
  show ?thesis
    by (rule that [OF i c])
       (use i in \<open>auto simp: s' Let_def set_held_def RequestContext_destroy_def
          intro!: arg_cong [where f = "list_update (held s) i"] split: option.splits\<close>)
qed

lemma permitted_reading:
  assumes "queue_inv s" "permitted s (Report i e)"
  shows "i < length (held s) \<and> reading (snd (held s ! i)) \<and> i \<notin> set (queued s b) \<and>
    (\<exists>c. request_ctx (snd (held s ! i)) = Some c)"
proof -
  have i: "i < length (held s)" "may_report (snd (held s ! i)) e" using assms(2) by simp_all
  then obtain c where c: "request_ctx (snd (held s ! i)) = Some c" "on_write e \<Longrightarrow> written c \<noteq> []"
    "\<not> on_write e \<Longrightarrow> reading (snd (held s ! i))"
    by (auto simp: may_report_def split: option.splits if_splits)
  have "waiting_ctx (snd (held s ! i)) \<Longrightarrow> untouched (snd (held s ! i))"
    using assms(1) i(1) by (simp add: queue_inv_def)
  with c have r: "reading (snd (held s ! i))" by (auto simp: waiting_ctx_def untouched_def)
  then have "\<not> waiting_ctx (snd (held s ! i))" by (simp add: waiting_ctx_def)
  with assms(1) have "i \<notin> set (queued s b)" by (simp add: queue_inv_def)
  with i c r show ?thesis by blast
qed

lemma queue_inv_report:
  assumes inv: "queue_inv s" and perm: "permitted s (Report i e)"
    and rep: "stream_report execute pf inst i e s = Inr (out, s')"
  shows "queue_inv s'"
proof -
  note r = permitted_reading [OF inv perm]
  from rep obtain c where s': "held s' = (held s)[i := (fst (held s ! i), (snd (held s ! i))\<lparr>
       reading := reading (snd (held s ! i)) \<and> c \<noteq> None,
       at_eof := at_eof (snd (held s ! i)) \<or> e = EndOfFile, request_ctx := c\<rparr>)]" "queued s' = queued s"
    by (rule stream_report_cases)
  show ?thesis
  proof (rule queue_inv_set [OF inv _ s'(1)])
    show "\<not> waiting_ctx ((snd (held s ! i))\<lparr>reading := reading (snd (held s ! i)) \<and> c \<noteq> None,
       at_eof := at_eof (snd (held s ! i)) \<or> e = EndOfFile, request_ctx := c\<rparr>)"
      using r by (auto simp: waiting_ctx_def)
    show "set (queued s' b) = set (queued s b) - {i}" for b using r s'(2) by auto
  qed (use r inv s'(2) in \<open>simp_all add: queue_inv_def\<close>)
qed

section \<open>The descriptors\<close>

lemma mset_map_filter_update:
  assumes "i < length xs"
  shows "mset (map f (filter P (xs[i := y]))) + (if P (xs ! i) then {#f (xs ! i)#} else {#}) =
    mset (map f (filter P xs)) + (if P y then {#f y#} else {#})"
proof -
  have "mset (xs[i := y]) + {#xs ! i#} = mset xs + {#y#}"
    using assms by (simp add: mset_update)
  then have "image_mset f (filter_mset P (mset (xs[i := y]) + {#xs ! i#})) =
      image_mset f (filter_mset P (mset xs + {#y#}))" by simp
  then show ?thesis by (simp add: mset_filter split: if_splits)
qed

lemma distinct_mset_subset:
  assumes "distinct ys" "mset xs \<subseteq># mset ys"
  shows "distinct xs"
  unfolding distinct_count_atmost_1
proof
  fix a
  have "count (mset xs) a \<le> count (mset ys) a" using assms(2) by (rule mset_subset_eq_count)
  also have "\<dots> \<le> 1" using assms(1) by (simp add: distinct_count_atmost_1)
  finally have "count (mset xs) a \<le> 1" .
  then show "count (mset xs) a = (if a \<in> set xs then 1 else 0)"
    by (metis One_nat_def count_eq_zero_iff le_Suc_eq le_zero_eq set_mset_mset)
qed

lemma same_socks:
  assumes "sock h = sock (snd (xs ! i))"
  shows "map (\<lambda>(b, h). sock h) (xs[i := (b, h)]) = map (\<lambda>(b, h). sock h) xs"
proof (rule nth_equalityI)
  fix j
  assume "j < length (map (\<lambda>(b, h). sock h) (xs[i := (b, h)]))"
  with assms show "map (\<lambda>(b, h). sock h) (xs[i := (b, h)]) ! j = map (\<lambda>(b, h). sock h) xs ! j"
    by (cases "j = i") (auto simp: split_beta)
qed simp

lemma socks_inv_set:
  assumes "socks_inv s" and i: "i < length (held s)"
    and "held s' = (held s)[i := (fst (held s ! i), h)]" "sock h = sock (snd (held s ! i))"
    and "request_ctx (snd (held s ! i)) \<noteq> None"
    and "released s' = released s @ (if request_ctx h = None then [sock h] else [])"
  shows "socks_inv s'"
proof -
  let ?h = "snd (held s ! i)"
  have "mset (open_socks s') + {#sock ?h#} =
      mset (open_socks s) + (if request_ctx h \<noteq> None then {#sock h#} else {#})"
    using mset_map_filter_update [OF i, of "\<lambda>(b, h). sock h" "\<lambda>(b, h). request_ctx h \<noteq> None" "(fst (held s ! i), h)"]
      assms(3,5) by (simp add: open_socks_def split_beta)
  then have o: "mset (open_socks s) = mset (open_socks s') + (if request_ctx h = None then {#sock h#} else {#})"
    using assms(4) by (auto split: if_splits)
  have "map (\<lambda>(b, h). sock h) (held s') = map (\<lambda>(b, h). sock h) (held s)"
    unfolding assms(3) by (rule same_socks [OF assms(4)])
  moreover have "distinct (open_socks s')"
    using assms(1) o unfolding socks_inv_def by (metis distinct_mset_subset mset_subset_eq_add_left)
  ultimately show ?thesis using assms(1,6) o unfolding socks_inv_def
    by (auto simp: union_assoc split: if_splits)
qed

section \<open>Histories that keep the contract\<close>

definition hub_inv :: "('p, 'b) hub \<Rightarrow> bool" where
  "hub_inv s \<longleftrightarrow> queue_inv s \<and> socks_inv s"

lemma hub_inv_new: "hub_inv (new_hub iter)"
  by (simp add: hub_inv_def queue_inv_new) (simp add: socks_inv_def open_socks_def new_hub_def)

lemma socks_inv_accept:
  assumes "socks_inv s" "permitted s (Connect fd)" "accept_fd p0 inst fd s = Inr (out, s')"
  shows "socks_inv s'"
proof -
  from assms(3) obtain iter' base where
    "held s' = held s @ [(base, RequestContext_on p0 fd)]" "released s' = released s"
    by (auto simp: accept_fd_def bind_res_Inr_iff)
  with assms(1,2) show ?thesis by (simp add: socks_inv_def open_socks_def RequestContext_on_def)
qed

lemma socks_inv_worker:
  assumes inv: "hub_inv s" and "run_worker b s = Inr (out, s')"
  shows "socks_inv s'"
proof (cases "queued s b")
  case Nil
  with assms show ?thesis by (simp add: run_worker_def hub_inv_def)
next
  case (Cons i "is")
  then have "i \<in> set (queued s b)" by simp
  with inv have i: "i < length (held s)" unfolding hub_inv_def queue_inv_def by blast
  from assms(2) Cons obtain c where c: "request_ctx (snd (held s ! i)) = Some c"
    "s' = set_held i ((snd (held s ! i))\<lparr>reading := True\<rparr>) (s\<lparr>queued := (queued s)(b := is)\<rparr>)"
    by (auto simp: run_worker_def start_read_def set_held_def bind_res_Inr_iff split: option.splits)
  show ?thesis
    by (rule socks_inv_set [OF _ i, where h = "(snd (held s ! i))\<lparr>reading := True\<rparr>"])
      (use inv c in \<open>simp_all add: hub_inv_def set_held_def\<close>)
qed

lemma socks_inv_report:
  assumes inv: "hub_inv s" and perm: "permitted s (Report i e)"
    and rep: "stream_report execute pf inst i e s = Inr (out, s')"
  shows "socks_inv s'"
proof -
  from inv have q: "queue_inv s" "socks_inv s" by (simp_all add: hub_inv_def)
  note r = permitted_reading [OF q(1) perm]
  from rep obtain c where s': "held s' = (held s)[i := (fst (held s ! i), (snd (held s ! i))\<lparr>
       reading := reading (snd (held s ! i)) \<and> c \<noteq> None,
       at_eof := at_eof (snd (held s ! i)) \<or> e = EndOfFile, request_ctx := c\<rparr>)]"
    "released s' = released s @ (if c = None then [sock (snd (held s ! i))] else [])"
    by (rule stream_report_cases)
  show ?thesis
    by (rule socks_inv_set [OF q(2) _ s'(1)]) (use r s'(2) in auto)
qed

lemma hub_inv_step:
  assumes "hub_inv s" "permitted s e" "hub_step execute pf p0 inst s e = Inr (out, s')"
  shows "hub_inv s'"
proof -
  have q: "queue_inv s" "socks_inv s" using assms(1) by (simp_all add: hub_inv_def)
  show ?thesis unfolding hub_inv_def
  proof (cases e)
    case (Connect fd)
    with assms q show "queue_inv s' \<and> socks_inv s'"
      using queue_inv_accept socks_inv_accept by fastforce
  next
    case (Run_worker b)
    with assms q show "queue_inv s' \<and> socks_inv s'"
      using queue_inv_worker socks_inv_worker by fastforce
  next
    case (Report i ev)
    with assms q show "queue_inv s' \<and> socks_inv s'"
      using queue_inv_report [OF q(1), of i ev] socks_inv_report [OF assms(1), of i ev] by simp
  qed
qed

lemma obeyed_append:
  assumes "history (hub_step execute pf p0 inst) s es = Inr (outs, s')"
  shows "obeyed execute pf p0 inst s (es @ fs) \<longleftrightarrow>
    obeyed execute pf p0 inst s es \<and> obeyed execute pf p0 inst s' fs"
  using assms
proof (induction es arbitrary: s outs)
  case (Cons e es)
  then obtain out s1 outs1 where 1: "hub_step execute pf p0 inst s e = Inr (out, s1)"
    "history (hub_step execute pf p0 inst) s1 es = Inr (outs1, s')"
    by (auto simp: bind_res_Inr_iff)
  with Cons.IH [OF 1(2)] show ?case by simp
qed simp

text \<open>What every permitted event keeps, a history that keeps the contract keeps.\<close>

lemma obeyed_invariant:
  assumes "history (hub_step execute pf p0 inst) s es = Inr (outs, s')" "obeyed execute pf p0 inst s es" "P s"
    and step: "\<And>s e out s'. P s \<Longrightarrow> permitted s e \<Longrightarrow>
      hub_step execute pf p0 inst s e = Inr (out, s') \<Longrightarrow> P s'"
  shows "P s'"
  using assms(1-3)
proof (induction es arbitrary: s outs)
  case (Cons e es)
  then obtain out s1 outs1 where 1: "hub_step execute pf p0 inst s e = Inr (out, s1)"
    "history (hub_step execute pf p0 inst) s1 es = Inr (outs1, s')" "permitted s e"
    "obeyed execute pf p0 inst s1 es"
    by (auto simp: bind_res_Inr_iff)
  show ?case by (rule Cons.IH [OF 1(2,4) step [OF Cons.prems(3) 1(3,1)]])
qed simp

lemma hub_inv_history:
  assumes "history (hub_step execute pf p0 inst) s es = Inr (outs, s')" "obeyed execute pf p0 inst s es" "hub_inv s"
  shows "hub_inv s'"
  by (rule obeyed_invariant [where P = hub_inv, OF assms]) (rule hub_inv_step)

text \<open>No permitted event fails when every message is answered.\<close>

lemma hub_step_total:
  fixes s :: "('p, 'b) hub"
  assumes "hub_inv s" "permitted s e" "bases inst \<noteq> []" "answers_all pf (matcher inst)"
  shows "\<exists>out s'. hub_step execute pf p0 inst s e = Inr (out, s')"
proof (cases e)
  case (Connect fd)
  with chooseBase_defined [OF assms(3), of "choices s"] show ?thesis by (auto simp: accept_fd_def)
next
  case (Run_worker b)
  show ?thesis
  proof (cases "queued s b")
    case (Cons i "is")
    then have "i \<in> set (queued s b)" by simp
    with assms(1) have "waiting_ctx (snd (held s ! i))" unfolding hub_inv_def queue_inv_def by blast
    then show ?thesis using Run_worker Cons by (auto simp: run_worker_def start_read_def waiting_ctx_def)
  qed (simp add: Run_worker run_worker_def)
next
  case (Report i ev)
  with permitted_reading [of s i ev] assms(1,2) obtain c where c:
    "i < length (held s)" "request_ctx (snd (held s ! i)) = Some c" by (auto simp: hub_inv_def)
  from conn_step_total [OF assms(4), of execute c ev] obtain out :: "'b observation" and c' where
    "conn_step execute pf (matcher inst) (Some c) ev = Inr (out, c')" by blast
  with c Report show ?thesis by (auto simp: stream_report_def Let_def)
qed

lemma obeyed_total:
  fixes s :: "('p, 'b) hub"
  assumes "bases inst \<noteq> []" "answers_all pf (matcher inst)"
  shows "hub_inv s \<Longrightarrow> obeyed execute pf p0 inst s es \<Longrightarrow>
    \<exists>outs s'. history (hub_step execute pf p0 inst) s es = Inr (outs, s')"
proof (induction es arbitrary: s)
  case (Cons e es)
  then have p: "permitted s e" by simp
  from hub_step_total [OF Cons.prems(1) p assms] obtain out s1 where
    1: "hub_step execute pf p0 inst s e = Inr (out, s1)" by blast
  with Cons.IH [OF hub_inv_step [OF Cons.prems(1) p 1]] Cons.prems(2) show ?case by auto
qed simp

section \<open>Connections and streams\<close>

text \<open>The history of \<open>Serving\<close> that a history with streams contains.\<close>

definition hub_abs :: "('p, 'b) hub \<Rightarrow> ('p, 'b) serving" where
  "hub_abs s = \<lparr>counter = choices s, connections = map (\<lambda>(b, h). (b, request_ctx h)) (held s)\<rparr>"

fun serving_events :: "'b hub_event list \<Rightarrow> serving_event list" where
  "serving_events [] = []"
| "serving_events (Connect fd # es) = Accept # serving_events es"
| "serving_events (Run_worker b # es) = serving_events es"
| "serving_events (Report i e # es) = On i e # serving_events es"

lemma hub_abs_set:
  "i < length (held s) \<Longrightarrow> held s' = (held s)[i := (fst (held s ! i), h)] \<Longrightarrow> choices s' = choices s \<Longrightarrow>
     hub_abs s' = (hub_abs s)\<lparr>connections := (connections (hub_abs s))[i := (fst (held s ! i), request_ctx h)]\<rparr>"
  by (simp add: hub_abs_def map_update)

lemma hub_abs_accept:
  assumes "accept_fd p0 inst fd s = Inr (out, s')"
  shows "serve execute pf p0 inst (hub_abs s) Accept = Inr (out, hub_abs s')"
  using assms by (auto simp: accept_fd_def acceptCb_def hub_abs_def bind_res_Inr_iff RequestContext_on_def)

lemma hub_abs_worker:
  assumes "run_worker b s = Inr (out, s')"
  shows "hub_abs s' = hub_abs s"
proof (cases "queued s b")
  case (Cons i "is")
  with assms obtain c where c: "request_ctx (snd (held s ! i)) = Some c"
    "s' = set_held i ((snd (held s ! i))\<lparr>reading := True\<rparr>) (s\<lparr>queued := (queued s)(b := is)\<rparr>)"
    by (auto simp: run_worker_def start_read_def set_held_def bind_res_Inr_iff split: option.splits)
  show ?thesis
  proof (cases "i < length (held s)")
    case True
    then have "(map (\<lambda>(b, h). (b, request_ctx h)) (held s))[i := (fst (held s ! i), Some c)] =
        map (\<lambda>(b, h). (b, request_ctx h)) (held s)"
      using c(1) by (simp add: list_update_same_conv split_beta)
    with c show ?thesis by (simp add: hub_abs_def set_held_def map_update)
  qed (use c in \<open>simp add: hub_abs_def set_held_def list_update_beyond\<close>)
qed (use assms in \<open>simp add: run_worker_def\<close>)

lemma hub_abs_report:
  assumes "stream_report execute pf inst i e s = Inr (out, s')"
  shows "serve execute pf p0 inst (hub_abs s) (On i e) = Inr (out, hub_abs s')"
proof -
  from assms obtain c h where c: "i < length (held s)"
    "conn_step execute pf (matcher inst) (request_ctx (snd (held s ! i))) e = Inr (out, c)"
    "held s' = (held s)[i := (fst (held s ! i), h)]" "request_ctx h = c" "choices s' = choices s"
    by (rule stream_report_cases) (rule that, simp_all)
  have "connections (hub_abs s) ! i = (fst (held s ! i), request_ctx (snd (held s ! i)))"
    "i < length (connections (hub_abs s))"
    using c(1) by (simp_all add: hub_abs_def split_beta)
  with c(2,4) hub_abs_set [OF c(1,3,5)] show ?thesis by simp
qed

text \<open>Whatever the streams do, the contexts go through a history of \<open>Serving\<close>.\<close>

lemma hub_history_serves:
  assumes "history (hub_step execute pf p0 inst) s es = Inr (outs, s')"
  shows "\<exists>outs'. history (serve execute pf p0 inst) (hub_abs s) (serving_events es) = Inr (outs', hub_abs s')"
  using assms
proof (induction es arbitrary: s outs)
  case (Cons e es)
  then obtain out s1 outs1 where 1: "hub_step execute pf p0 inst s e = Inr (out, s1)"
    "history (hub_step execute pf p0 inst) s1 es = Inr (outs1, s')"
    by (auto simp: bind_res_Inr_iff)
  from Cons.IH [OF 1(2)] obtain outs' where
    2: "history (serve execute pf p0 inst) (hub_abs s1) (serving_events es) = Inr (outs', hub_abs s')" by blast
  show ?case
  proof (cases e)
    case (Connect fd)
    with 1(1) hub_abs_accept [of p0 inst fd s out s1 execute pf] 2 show ?thesis by simp
  next
    case (Run_worker b)
    with 1(1) hub_abs_worker [of b s out s1] 2 show ?thesis by auto
  next
    case (Report i ev)
    with 1(1) hub_abs_report [of execute pf inst i ev s out s1 p0] 2 show ?thesis by simp
  qed
qed simp

text \<open>Reports only name accepted connections.\<close>

lemma hub_step_length:
  "hub_step execute pf p0 inst s e = Inr (out, s') \<Longrightarrow>
     length (held s') = length (held s) + (case e of Connect fd \<Rightarrow> 1 | _ \<Rightarrow> 0)"
  by (cases e)
    (auto simp: accept_fd_def run_worker_def start_read_def set_held_def bind_res_Inr_iff
      elim!: stream_report_cases split: list.splits option.splits)

lemma hub_history_ordered:
  assumes "history (hub_step execute pf p0 inst) s es = Inr (outs, s')"
  shows "ordered_from (length (held s)) (serving_events es) \<and>
    length (held s') = length (held s) + accepts_of (serving_events es)"
  using assms
proof (induction es arbitrary: s outs)
  case (Cons e es)
  then obtain out s1 outs1 where 1: "hub_step execute pf p0 inst s e = Inr (out, s1)"
    "history (hub_step execute pf p0 inst) s1 es = Inr (outs1, s')"
    by (auto simp: bind_res_Inr_iff)
  with Cons.IH [OF 1(2)] hub_step_length [OF 1(1)] show ?case
    by (cases e) (auto elim: stream_report_cases)
qed simp

text \<open>The context of a connection is the one its own reports lead to.\<close>

lemma hub_connection:
  fixes inst :: "'b server_instance" and execute :: "'p http_parser"
  assumes "history (hub_step execute pf p0 inst) (new_hub iter) es = Inr (outs, s)"
    and "bases inst \<noteq> []" and "i < length (held s)"
  shows "\<exists>outs :: 'b observation list.
    alone execute pf p0 (matcher inst) (own_events i (serving_events es)) = Inr (outs, request_ctx (snd (held s ! i)))"
proof -
  have "hub_abs (new_hub iter :: ('p, 'b) hub) = idle iter" by (simp add: hub_abs_def new_hub_def idle_def)
  with hub_history_serves [OF assms(1)] obtain outs' where
    "history (serve execute pf p0 inst) (idle iter) (serving_events es) = Inr (outs', hub_abs s)" by auto
  moreover have ord: "ordered_from 0 (serving_events es)" "length (held s) = accepts_of (serving_events es)"
    using hub_history_ordered [OF assms(1)] by (simp_all add: new_hub_def)
  ultimately have "as_alone execute pf p0 inst iter (serving_events es) (hub_abs s)"
    using serve_cases [OF assms(2) ord(1), of execute pf p0 iter] by simp
  with assms(3) ord(2) show ?thesis by (auto simp: as_alone_def hub_abs_def split_beta)
qed

end
