(* ===== verification/Stream_Life.thy ===== *)
theory Stream_Life
  imports Streams
begin

text \<open>
  What becomes of a connection: its reading starts when its worker gets to it, a complete request is
  answered and its descriptor closed, and a peer that ends its input early is kept for good. The
  descriptors of a whole history are accounted for.
\<close>

section \<open>Reading starts\<close>

text \<open>Turns of a worker work through its queue; what is queued later stays behind.\<close>

lemma run_worker_queue:
  "run_worker b s = Inr (out, s') \<Longrightarrow> queued s' c = (if c = b then tl (queued s c) else queued s c)"
  by (auto simp: run_worker_def start_read_def bind_res_Inr_iff split: list.splits option.splits)

lemma set_drop_snoc: "set (drop k (xs @ [x])) \<subseteq> set (drop k xs) \<union> {x}"
  by (cases "k - length xs") auto

lemma queue_shrinks:
  assumes "history (hub_step execute pf p0 inst) s es = Inr (outs, s')" "n \<le> length (held s)"
  shows "set (queued s' b) \<inter> {..<n} \<subseteq> set (drop (count_list es (Run_worker b)) (queued s b))"
  using assms
proof (induction es arbitrary: s outs)
  case (Cons e es)
  then obtain out s1 outs1 where 1: "hub_step execute pf p0 inst s e = Inr (out, s1)"
    "history (hub_step execute pf p0 inst) s1 es = Inr (outs1, s')"
    by (auto simp: bind_res_Inr_iff)
  let ?k = "count_list es (Run_worker b)"
  have n: "n \<le> length (held s1)" using hub_step_length [OF 1(1)] Cons.prems(2) by simp
  note IH = Cons.IH [OF 1(2) n]
  show ?case
  proof (cases e)
    case (Connect fd)
    then have "queued s1 b = queued s b \<or> queued s1 b = queued s b @ [length (held s)]"
      using 1(1) by (auto simp: accept_fd_def bind_res_Inr_iff)
    then have "set (drop ?k (queued s1 b)) \<subseteq> set (drop ?k (queued s b)) \<union> {length (held s)}"
      using set_drop_snoc [of ?k "queued s b" "length (held s)"] by (elim disjE) (simp, simp only:)
    with IH Cons.prems(2) Connect show ?thesis by fastforce
  next
    case (Run_worker c)
    with 1(1) have "queued s1 b = (if b = c then tl (queued s b) else queued s b)"
      by (simp add: run_worker_queue)
    with IH Run_worker show ?thesis by (auto simp: drop_Suc)
  next
    case (Report i ev)
    with 1(1) have "queued s1 b = queued s b" by (auto elim: stream_report_cases)
    with IH Report show ?thesis by simp
  qed
qed auto

section \<open>A silent peer\<close>

lemma silent_step:
  assumes "hub_inv t" "permitted t e" "hub_step execute pf p0 inst t e = Inr (out, t')"
    and "i < length (held t)" "held t ! i = (b, h)" "at_eof h" "request_ctx h = Some c" "written c = []"
  shows "i < length (held t') \<and> held t' ! i = (b, h)"
proof (cases e)
  case (Connect fd)
  with assms(3-5) show ?thesis by (auto simp: accept_fd_def bind_res_Inr_iff nth_append)
next
  case (Run_worker w)
  show ?thesis
  proof (cases "queued t w")
    case (Cons j js)
    then have "j \<in> set (queued t w)" by simp
    with assms(1) have "j < length (held t)" "untouched (snd (held t ! j))"
      unfolding hub_inv_def queue_inv_def by blast+
    with assms(5-7) have "j \<noteq> i" by (auto simp: untouched_def)
    with Run_worker Cons assms(3-5) show ?thesis
      by (auto simp: run_worker_def start_read_def set_held_def bind_res_Inr_iff split: option.splits)
  qed (use Run_worker assms(3-5) in \<open>simp add: run_worker_def\<close>)
next
  case (Report j ev)
  with assms have "j \<noteq> i" by (auto simp: may_report_def split: if_splits)
  with Report assms(3-5) show ?thesis by (auto elim!: stream_report_cases)
qed

section \<open>The descriptors of a history\<close>

fun connected :: "'b hub_event list \<Rightarrow> int list" where
  "connected [] = []"
| "connected (Connect fd # es) = fd # connected es"
| "connected (e # es) = connected es"

lemma hub_step_socks:
  "hub_step execute pf p0 inst s e = Inr (out, s') \<Longrightarrow>
     map (\<lambda>(b, h). sock h) (held s') = map (\<lambda>(b, h). sock h) (held s) @ connected [e]"
proof (cases e)
  case (Run_worker b)
  assume "hub_step execute pf p0 inst s e = Inr (out, s')"
  with Run_worker show ?thesis
    by (auto simp: run_worker_def start_read_def set_held_def bind_res_Inr_iff
        intro!: same_socks split: list.splits option.splits)
next
  case (Report i ev)
  assume "hub_step execute pf p0 inst s e = Inr (out, s')"
  with Report show ?thesis by (auto elim!: stream_report_cases intro!: same_socks)
qed (auto simp: accept_fd_def bind_res_Inr_iff RequestContext_on_def)

lemma hub_history_socks:
  assumes "history (hub_step execute pf p0 inst) s es = Inr (outs, s')"
  shows "map (\<lambda>(b, h). sock h) (held s') = map (\<lambda>(b, h). sock h) (held s) @ connected es"
  using assms
proof (induction es arbitrary: s outs)
  case (Cons e es)
  then obtain out s1 outs1 where 1: "hub_step execute pf p0 inst s e = Inr (out, s1)"
    "history (hub_step execute pf p0 inst) s1 es = Inr (outs1, s')"
    by (auto simp: bind_res_Inr_iff)
  from Cons.IH [OF 1(2)] hub_step_socks [OF 1(1)] show ?case by (cases e) simp_all
qed simp

text \<open>A descriptor that an event closes is not open after it.\<close>

lemma closed_not_open:
  assumes inv: "hub_inv s" and step: "permitted s (Report i e)"
    "hub_step execute pf p0 inst s (Report i e) = Inr (out, s')" and fd: "released s' = released s @ [fd]"
  shows "fd \<notin> set (open_socks s')"
proof -
  have s: "distinct (open_socks s)" "mset (released s) + mset (open_socks s) = mset (map (\<lambda>(b, h). sock h) (held s))"
    and s': "mset (released s') + mset (open_socks s') = mset (map (\<lambda>(b, h). sock h) (held s'))"
    using inv hub_inv_step [OF inv step] by (simp_all add: hub_inv_def socks_inv_def)
  have "mset (map (\<lambda>(b, h). sock h) (held s')) = mset (map (\<lambda>(b, h). sock h) (held s))"
    unfolding hub_step_socks [OF step(2)] by simp
  then have "mset (released s) + mset (open_socks s) = mset (released s) + add_mset fd (mset (open_socks s'))"
    unfolding s(2) s' [symmetric] fd by simp
  then have "mset (open_socks s) = mset (fd # open_socks s')" by simp
  with s(1) show ?thesis by (metis distinct.simps(2) mset_eq_imp_distinct_iff)
qed

section \<open>Properties\<close>

text \<open>A first connection on descriptor 7, and its worker's turn.\<close>

definition connected_hub :: "'p \<Rightarrow> ('p, nat) hub" where
  "connected_hub p0 = \<lparr>choices = 2, held = [(2, RequestContext_on p0 7)],
     queued = (\<lambda>_. [])(2 := [0]), released = []\<rparr>"

definition reading_hub :: "'p \<Rightarrow> ('p, nat) hub" where
  "reading_hub p0 = \<lparr>choices = 2, held = [(2, (RequestContext_on p0 7)\<lparr>reading := True\<rparr>)],
     queued = (\<lambda>_. []), released = []\<rparr>"

lemma first_connection:
  assumes "bases inst = [0, 1, 2, 3 :: nat]"
  shows "hub_step execute pf p0 inst (new_hub 1) (Connect 7) = Inr (Accepted 2, connected_hub p0)"
    and "hub_step execute pf p0 inst (connected_hub p0) (Run_worker 2) = Inr (Silent, reading_hub p0)"
    and "open_socks (new_hub iter) = []"
  using chooseBase_4 [of inst 1] assms
  by (simp_all add: accept_fd_def new_hub_def connected_hub_def open_socks_def run_worker_def start_read_def
      set_held_def reading_hub_def RequestContext_on_def fun_eq_iff)

lemma first_reading:
  assumes "bases inst = [0, 1, 2, 3 :: nat]"
  shows "history (hub_step execute pf p0 inst) (new_hub 1) [Connect 7, Run_worker 2] =
      Inr ([Accepted 2, Silent], reading_hub p0)"
    and "obeyed execute pf p0 inst (new_hub 1) ([Connect 7, Run_worker 2] @ es) \<longleftrightarrow>
      obeyed execute pf p0 inst (reading_hub p0) es"
  by (simp_all add: first_connection [OF assms] del: hub_step.simps)

text \<open>C6: The life of a request: when all that the stream of a connection has reported are the extents of one
  complete message, one response was written, which a client reads as that of the specification;
  the stream may then report the completion of this write, and when it does, the context is
  deleted and its descriptor closed and not open any more. All this holds whatever other
  connections, workers and streams did meanwhile.\<close>

theorem request_completed:
  fixes inst :: "'b server_instance"
  assumes "streaming execute" and "matcher_set (set_first pf)" and "bases inst \<noteq> []"
    and "wf_matcher (matcher inst)" and "routes (matcher inst) = routes_of rs"
    and "distinct (map (\<lambda>r. template (path r)) rs)"
    and "xs \<noteq> []" and "[] \<notin> set xs" and "accepts execute p (concat xs)"
    and "merge_events (events (execute p (concat xs))) =
           merge_events (map Piece cs @ [MessageComplete k])"
    and "run_callbacks RequestBuilder cs = (0, b)"
    and "build (mm_ins pf) (url_parse pf) b k = Inr req" and "unambiguous rs (rpath req)"
    and "answer rs req = Inr resp" and "int (length (rcontent resp)) \<le> llong_max"
    and "obeyed execute pf p inst (new_hub iter) es"
    and "history (hub_step execute pf p inst) (new_hub iter) es = Inr (outs, s)"
    and "i < length (held s)" and "own_events i (serving_events es) = [Available xs]"
  shows "\<exists>c txt s'. request_ctx (snd (held s ! i)) = Some c \<and> written c = [txt] \<and>
    read_response txt = Some (status_line (rcode resp), header_lines resp, rcontent resp) \<and>
    permitted s (Report i WriteComplete) \<and>
    hub_step execute pf p inst s (Report i WriteComplete) = Inr (Silent, s') \<and>
    request_ctx (snd (held s' ! i)) = None \<and> released s' = released s @ [sock (snd (held s ! i))] \<and>
    sock (snd (held s ! i)) \<notin> set (open_socks s')"
proof -
  from request_over_the_wire [OF assms(1,2,4-15)] obtain c t where
    c: "available execute pf (matcher inst) (Some (RequestContext p)) xs = Inr (Some c, length (concat xs))"
      "written c = [t]" "read_response t = Some (status_line (rcode resp), header_lines resp, rcontent resp)"
    by blast
  have ctx: "request_ctx (snd (held s ! i)) = Some c"
    using hub_connection [OF assms(17,3,18)] c(1) by (auto simp: assms(19) alone_def)
  then have perm: "permitted s (Report i WriteComplete)"
    using assms(18) c(2) by (simp add: may_report_def)
  obtain s' where s': "hub_step execute pf p inst s (Report i WriteComplete) = Inr (Silent, s')"
    "request_ctx (snd (held s' ! i)) = None" "released s' = released s @ [sock (snd (held s ! i))]"
    using ctx assms(18)
    by (simp add: stream_report_def write_complete_def delete_context_def live_context_def Let_def)
  have "hub_inv s" by (rule hub_inv_history [OF assms(17,16) hub_inv_new])
  from closed_not_open [OF this perm s'(1,3)] ctx c s' perm show ?thesis by blast
qed

text \<open>A connection to the example's resources on which two extents arrive.\<close>

definition bob_events :: "nat hub_event list" where
  "bob_events = [Connect 7, Run_worker 2, Report 0 (Available [''/b'', [CHR ''o'', CHR ''b'', CHR 0x0A]])]"

definition hello_instance :: "nat server_instance" where
  "hello_instance = four_workers\<lparr>matcher := hello_matcher\<rparr>"

lemma hello_instance [simp]: "bases hello_instance = [0, 1, 2, 3]" "matcher hello_instance = hello_matcher"
  by (simp_all add: hello_instance_def four_workers_def)

lemma bob_connection:
  assumes "available line_parser tree_platform hello_matcher (Some (RequestContext ()))
    [''/b'', [CHR ''o'', CHR ''b'', CHR 0x0A]] = Inr (Some c, n)"
  shows "obeyed line_parser tree_platform () hello_instance (new_hub 1) bob_events"
    and "\<exists>outs s. history (hub_step line_parser tree_platform () hello_instance) (new_hub 1) bob_events = Inr (outs, s) \<and>
      length (held s) = 1 \<and> released s = [] \<and> sock (snd (held s ! 0)) = 7"
proof -
  let ?step = "hub_step line_parser tree_platform () hello_instance"
  let ?rep = "Report 0 (Available [''/b'', [CHR ''o'', CHR ''b'', CHR 0x0A]])"
  have "\<exists>s. ?step (reading_hub ()) ?rep = Inr (Drained n, s) \<and> released s = [] \<and>
      length (held s) = 1 \<and> sock (snd (held s ! 0)) = 7"
    using assms by (simp add: stream_report_def reading_hub_def RequestContext_on_def set_held_def)
  then obtain s where s: "?step (reading_hub ()) ?rep = Inr (Drained n, s)" "released s = []"
    "length (held s) = 1" "sock (snd (held s ! 0)) = 7" by blast
  have "history ?step (new_hub 1) bob_events = Inr ([Accepted 2, Silent, Drained n], s)"
    by (simp add: bob_events_def first_connection(1,2) [OF hello_instance(1)] s(1) del: hub_step.simps)
  with s(2-4) show "\<exists>outs s. history ?step (new_hub 1) bob_events = Inr (outs, s) \<and>
      length (held s) = 1 \<and> released s = [] \<and> sock (snd (held s ! 0)) = 7" by blast
  have "permitted (reading_hub ()) ?rep"
    by (simp add: reading_hub_def RequestContext_on_def may_report_def)
  then have "obeyed line_parser tree_platform () hello_instance (reading_hub ()) [?rep]"
    by (simp del: hub_step.simps permitted.simps split: sum.splits)
  then have "obeyed line_parser tree_platform () hello_instance (new_hub 1) ([Connect 7, Run_worker 2] @ [?rep])"
    unfolding first_reading(2) [OF hello_instance(1)] .
  then show "obeyed line_parser tree_platform () hello_instance (new_hub 1) bob_events"
    by (simp only: append.simps bob_events_def)
qed

theorem request_completed_witness:
  "\<exists>outs s c t s'. history (hub_step line_parser tree_platform () hello_instance) (new_hub 1) bob_events = Inr (outs, s) \<and>
     request_ctx (snd (held s ! 0)) = Some c \<and> written c = [t] \<and>
     read_response t = Some (''HTTP/1.1 200 OK'',
       [''Content-Length: 11'', ''Connection: close'', ''Content-Type: text/plain''], ''Hello, bob'' @ newline) \<and>
     hub_step line_parser tree_platform () hello_instance s (Report 0 WriteComplete) = Inr (Silent, s') \<and> released s' = [7]"
proof -
  let ?step = "hub_step line_parser tree_platform () hello_instance"
  let ?xs = "[''/b'', [CHR ''o'', CHR ''b'', CHR 0x0A]]" and ?r = "Response OK TEXT_PLAIN (''Hello, bob'' @ newline)"
  have set: "matcher_set (set_first tree_platform)"
    using match_rb.matcher_set_axioms by (simp add: tree_platform_def)
  have d: "distinct (map (\<lambda>r. template (path r)) hello_resources)" unfolding hello_templates by simp
  have e: "merge_events (events (line_parser () (concat ?xs))) =
      merge_events (map Piece [Url ''/bob''] @ [MessageComplete 1])" by code_simp
  have a: "accepts line_parser () (concat ?xs)" by (simp add: accepts_def line_parser_def)
  have cb: "run_callbacks RequestBuilder [Url ''/bob''] = (0, RequestBuilder\<lparr>url := ''/bob''\<rparr>)"
    by (simp add: RequestBuilder_def on_url_def)
  have n: "?xs \<noteq> []" "[] \<notin> set ?xs" by simp_all
  have l: "int (length (rcontent ?r)) \<le> llong_max" by (simp add: Response_def newline_def llong_max_def)
  from request_over_the_wire [OF streaming_line_parser set hello_registered(2,3) d n a e cb bob_build bob_answer l]
  obtain c n' where "available line_parser tree_platform hello_matcher (Some (RequestContext ())) ?xs = Inr (Some c, n')"
    by blast
  note con = bob_connection [OF this]
  from con(2) obtain outs s where
    s: "history ?step (new_hub 1) bob_events = Inr (outs, s)" "length (held s) = 1" "released s = []" "sock (snd (held s ! 0)) = 7"
    by blast
  have own: "own_events 0 (serving_events bob_events) = [Available ?xs]" by (simp add: bob_events_def)
  have hl: "header_lines ?r = [''Content-Length: 11'', ''Connection: close'', ''Content-Type: text/plain'']"
    by code_simp
  have r: "rcode ?r = OK" "rcontent ?r = ''Hello, bob'' @ newline" by (simp_all add: Response_def)
  from request_completed [where inst = hello_instance, OF streaming_line_parser set _ _ _ d n a e cb bob_build bob_answer l
      con(1) s(1) _ own] hello_registered(2,3) s(2-4)
  show ?thesis using s(1) unfolding r hl status_lines by auto
qed



text \<open>C27: Reading starts on every connection: when its worker has taken as many turns as functions were
  queued on it, the connection is being read or is gone already, whatever else happened meanwhile.\<close>

theorem reading_starts:
  assumes "history (hub_step execute pf p0 inst) (new_hub iter) es = Inr (outs, s)"
    and "obeyed execute pf p0 inst (new_hub iter) (es @ fs)"
    and "history (hub_step execute pf p0 inst) s fs = Inr (outs', s')"
    and "i < length (held s)" and "fst (held s' ! i) = b"
    and "length (queued s b) \<le> count_list fs (Run_worker b)"
  shows "reading (snd (held s' ! i)) \<or> request_ctx (snd (held s' ! i)) = None"
proof -
  have o: "obeyed execute pf p0 inst (new_hub iter) es" "obeyed execute pf p0 inst s fs"
    using assms(2) obeyed_append [OF assms(1)] by simp_all
  have inv: "hub_inv s'" by (rule hub_inv_history [OF assms(3) o(2) hub_inv_history [OF assms(1) o(1) hub_inv_new]])
  have "i \<notin> set (queued s' b)"
    using queue_shrinks [OF assms(3) le_refl, of b] assms(4,6) by auto
  moreover have "i < length (held s')" using hub_history_ordered [OF assms(3)] assms(4) by simp
  ultimately have "\<not> waiting_ctx (snd (held s' ! i))"
    using inv assms(5) unfolding hub_inv_def queue_inv_def by blast
  then show ?thesis by (auto simp: waiting_ctx_def)
qed

theorem reading_starts_witness:
  "\<exists>s. hub_step line_parser plain_platform () four_workers (connected_hub ()) (Run_worker 2) = Inr (Silent, s) \<and>
     (reading (snd (held s ! 0)) \<or> request_ctx (snd (held s ! 0)) = None)"
proof -
  let ?h = "history (hub_step line_parser plain_platform () four_workers)"
  have b: "bases four_workers = [0, 1, 2, 3]" by (simp add: four_workers_def)
  note step = first_connection(1,2) [OF b]
  have 1: "?h (new_hub 1) [Connect 7] = Inr ([Accepted 2], connected_hub ())"
    and 2: "?h (connected_hub ()) [Run_worker 2] = Inr ([Silent], reading_hub ())"
    by (simp_all add: step del: hub_step.simps)
  have "obeyed line_parser plain_platform () four_workers (new_hub 1) ([Connect 7] @ [Run_worker 2])"
    using first_reading(2) [OF b, where es = "[]"] by simp
  then have "reading (snd (held (reading_hub ()) ! 0)) \<or> request_ctx (snd (held (reading_hub ()) ! 0)) = None"
    by (rule reading_starts [OF 1 _ 2, where i = 0 and b = 2]) (simp_all add: connected_hub_def reading_hub_def)
  then show ?thesis by (intro exI conjI) (rule step(2))
qed

text \<open>C28: A peer that ends its input before a complete message is never released: when the stream reports the
  end, nothing was written and the parser has nothing to report and no error, the context stays
  and the descriptor stays open, whatever happens afterwards.\<close>

theorem silent_peer_kept:
  assumes "history (hub_step execute pf p0 inst) (new_hub iter) es = Inr (outs, s)"
    and "obeyed execute pf p0 inst (new_hub iter) (es @ Report i EndOfFile # fs)"
    and "history (hub_step execute pf p0 inst) s (Report i EndOfFile # fs) = Inr (outs', s')"
    and "request_ctx (snd (held s ! i)) = Some c" and "written c = []"
    and "events (execute (parser c) []) = []" and "parsed (execute (parser c) []) = 0"
  shows "request_ctx (snd (held s' ! i)) = Some (c\<lparr>parser := next_state (execute (parser c) [])\<rparr>) \<and>
    sock (snd (held s ! i)) \<in> set (open_socks s')"
proof -
  let ?c = "c\<lparr>parser := next_state (execute (parser c) [])\<rparr>"
  from assms(3) obtain out s1 outs1 where 1: "stream_report execute pf inst i EndOfFile s = Inr (out, s1)"
    "history (hub_step execute pf p0 inst) s1 fs = Inr (outs1, s')"
    by (auto simp: bind_res_Inr_iff)
  have o: "obeyed execute pf p0 inst (new_hub iter) es" "permitted s (Report i EndOfFile)"
    "obeyed execute pf p0 inst s1 fs"
    using assms(2) obeyed_append [OF assms(1)] 1(1) by simp_all
  have inv: "hub_inv s1"
    using hub_inv_step [OF hub_inv_history [OF assms(1) o(1) hub_inv_new] o(2)] 1(1) by simp
  have "eof execute pf (matcher inst) (Some c) = Inr (Some ?c)"
    using assms(6,7) by (simp add: eof_def live_context_def http_parser_execute_def)
  with 1(1) assms(4) obtain b h where h: "i < length (held s1)" "held s1 ! i = (b, h)" "at_eof h"
    "request_ctx h = Some ?c" "sock h = sock (snd (held s ! i))"
    by (auto elim!: stream_report_cases)
  let ?P = "\<lambda>t. hub_inv t \<and> i < length (held t) \<and> held t ! i = (b, h)"
  have "?P s'"
  proof (rule obeyed_invariant [where P = ?P, OF 1(2) o(3)])
    show "?P s1" using inv h by simp
    show "?P t'" if "?P t" "permitted t e" "hub_step execute pf p0 inst t e = Inr (out, t')" for t e out t'
      using that hub_inv_step [OF _ that(2,3)] silent_step [OF _ that(2,3), of i b h ?c] assms(5) h by simp
  qed
  then have "(b, h) \<in> set (held s')" "held s' ! i = (b, h)" by (auto simp: in_set_conv_nth)
  with h(4,5) show ?thesis by (force simp: open_socks_def)
qed

theorem silent_peer_kept_witness:
  "\<exists>outs s. history (hub_step line_parser plain_platform () four_workers) (reading_hub ())
       [Report 0 EndOfFile, Connect 8] = Inr (outs, s) \<and> 7 \<in> set (open_socks s)"
proof -
  let ?step = "hub_step line_parser plain_platform () four_workers" and ?o = "obeyed line_parser plain_platform () four_workers"
  let ?c = "(RequestContext_on () 7)\<lparr>reading := True, at_eof := True\<rparr>"
  let ?s = "(reading_hub ())\<lparr>held := [(2, ?c)]\<rparr>"
  have b: "bases four_workers = [0, 1, 2, 3]" by (simp add: four_workers_def)
  have r: "?step (reading_hub ()) (Report 0 EndOfFile) = Inr (Silent, ?s)"
    by (simp add: stream_report_def reading_hub_def RequestContext_on_def RequestContext_def eof_def
        live_context_def http_parser_execute_def line_parser_def set_held_def Let_def)
  have "permitted (reading_hub ()) (Report 0 EndOfFile)" "permitted ?s (Connect 8)"
    by (simp_all add: reading_hub_def may_report_def RequestContext_on_def open_socks_def)
  with r have "?o (reading_hub ()) [Report 0 EndOfFile, Connect 8]"
    by (simp del: hub_step.simps permitted.simps split: sum.splits)
  then have o: "?o (new_hub 1) ([Connect 7, Run_worker 2] @ [Report 0 EndOfFile, Connect 8])"
    unfolding first_reading(2) [OF b] .
  have "chooseBase 2 four_workers = Inr (3, 3)" using chooseBase_4 [of four_workers 2] b by simp
  then have "\<exists>outs s. history ?step ?s [Connect 8] = Inr (outs, s)"
    by (simp add: reading_hub_def accept_fd_def)
  with r obtain outs s where s: "history ?step (reading_hub ()) [Report 0 EndOfFile, Connect 8] = Inr (outs, s)"
    by (auto simp del: hub_step.simps)
  from silent_peer_kept [OF first_reading(1) [OF b] o s] have "7 \<in> set (open_socks s)"
    by (simp add: reading_hub_def RequestContext_on_def RequestContext_def line_parser_def)
  with s show ?thesis by blast
qed

end
