(* ===== verification/Worker_Balance.thy ===== *)
theory Worker_Balance
  imports System
begin

text \<open>
  How the connections of a whole server are spread over its workers. The counter of \<open>chooseBase\<close>
  (\<open>src/server_instance.cc\<close>) is one static variable, so the application and the admin instance take
  turns on it; their lists of workers are the same, that of the server's four bases. (A second
  server in the same process would share the counter as well, but not the workers.)
\<close>

section \<open>The workers of an accepting instance\<close>

text \<open>A server that runs has the four bases of its only successful start, and every instance that
  accepts connections has them as its workers.\<close>

definition kept_workers :: "server_impl \<Rightarrow> bool" where
  "kept_workers s \<longleftrightarrow>
     (if \<not> started s then
        (listener (application s) = None \<longrightarrow> live_bases s = [] \<and> next_base s = 0) \<and>
        (\<forall>a. admin_server s = Some a \<longrightarrow> listener a = None)
      else \<not> shutdown s \<longrightarrow>
        live_bases s = [0, 1, 2, 3] \<and> bases (application s) = [0, 1, 2, 3] \<and>
        (\<forall>a. admin_server s = Some a \<longrightarrow> listener a = Some Accepting \<longrightarrow> bases a = [0, 1, 2, 3]))"

lemma kept_workers_new: "kept_workers (ServerImpl ip p)"
  by (simp add: kept_workers_def ServerImpl_def)

lemma kept_workers_started:
  assumes "kept_workers s" "\<not> started s" "listener (application s) = None"
  shows "kept_workers (after_start s)"
proof -
  have "live_bases ((add_base ^^ kBases) s) = [0, 1, 2, 3]"
    using assms by (simp add: kept_workers_def add_bases_live kBases_def upt_rec)
  then show ?thesis
    using assms by (auto simp: kept_workers_def after_start_def admin_started_def add_bases_frame Let_def)
qed

lemma kept_workers_event:
  assumes "kept_workers s" "server_inv s" "server_event serialize s e = Inr (out, s')"
  shows "kept_workers s'"
  using assms(2,3)
proof (cases rule: server_event_effect)
  case running
  with assms(1) show ?thesis by (simp add: kept_workers_started)
next
  case (failed app)
  with assms(1) show ?thesis by (auto simp: kept_workers_def add_bases_frame)
next
  case stopped
  then show ?thesis by (simp add: kept_workers_def after_stop_def)
qed (use assms(1) in \<open>auto simp: kept_workers_def split: if_splits\<close>)

lemma accepting_workers:
  assumes "kept_workers s" "server_inv s" "instance_of k s = Some i" "listener i = Some Accepting"
  shows "bases i = [0, 1, 2, 3]"
proof -
  have run: "started s \<and> \<not> shutdown s"
  proof (cases k)
    case Application
    with assms show ?thesis by (auto simp: server_inv_def phase_inv_def split: if_splits)
  next
    case Admin
    with assms(3) have a: "admin_server s = Some i" by simp
    with assms(1,4) have "started s" by (auto simp: kept_workers_def split: if_splits)
    moreover have "live_bases s \<noteq> []"
      using assms(2,4) a by (auto simp: server_inv_def admin_inv_def workers_alive_def)
    ultimately show ?thesis using assms(2) by (auto simp: server_inv_def phase_inv_def)
  qed
  with assms show ?thesis by (cases k) (auto simp: kept_workers_def)
qed

section \<open>Turns\<close>

text \<open>The workers of all connections, in the order in which they were accepted.\<close>

definition in_turn_from :: "32 word \<Rightarrow> 'p system \<Rightarrow> bool" where
  "in_turn_from iter y \<longleftrightarrow>
     accept_counter y = iter + of_nat (length (open_connections y)) \<and>
     map worker (open_connections y) =
       map (\<lambda>i. [0, 1, 2, 3] ! ((unat iter + 1 + i) mod 4)) [0..<length (open_connections y)]"

lemma in_turn_accept:
  assumes turn: "in_turn_from iter y" and i: "bases i = [0, 1, 2, 3]"
    and acc: "accept_connection p0 k i y = Inr y'"
  shows "in_turn_from iter y'"
proof -
  let ?n = "length (open_connections y)"
  have four: "length (bases i) = 4" using i by simp
  obtain b where b: "chooseBase (accept_counter y) i = Inr (accept_counter y + 1, b)"
    using chooseBase_4 [OF four] by blast
  then have y': "y' = y\<lparr>accept_counter := accept_counter y + 1, open_connections := open_connections y @
      [\<lparr>origin = k, worker = b, ctx = Some (RequestContext p0)\<rparr>]\<rparr>"
    using acc by (simp add: accept_connection_def acceptCb_def)
  have "choose_run iter i ?n = Inr (map worker (open_connections y))"
    using turn unfolding choose_run_4 [OF four] i by (simp add: in_turn_from_def)
  from choose_run_snoc [OF this, of "accept_counter y + 1" b] b turn
  have "choose_run iter i (Suc ?n) = Inr (map worker (open_connections y) @ [b])"
    by (simp add: in_turn_from_def)
  then have "map worker (open_connections y) @ [b] =
      map (\<lambda>i. [0, 1, 2, 3] ! ((unat iter + 1 + i) mod 4)) [0..<Suc ?n]"
    unfolding choose_run_4 [OF four] i by (simp only: sum.inject)
  with turn show ?thesis by (simp add: in_turn_from_def y')
qed

lemma in_turn_step:
  assumes "system_step execute pf p0 serialize y y'" "in_turn_from iter y" "system_inv y" "kept_workers (server y)"
  shows "in_turn_from iter y' \<and> kept_workers (server y')"
proof -
  have inv: "server_inv (server y)" using assms(3) by (simp add: system_inv_def)
  from assms(1) show ?thesis
  proof (rule system_stepE)
    fix e out s'
    assume "y' = y\<lparr>server := s'\<rparr>" "server_event serialize (server y) e = Inr (out, s')"
    with kept_workers_event [OF assms(4) inv] assms(2) show ?thesis by (simp add: in_turn_from_def)
  next
    fix k i
    assume i: "instance_of k (server y) = Some i" "listener i = Some Accepting"
      and acc: "accept_connection p0 k i y = Inr y'"
    have "server y' = server y" using acc by (auto simp: accept_connection_def bind_res_Inr_iff)
    with in_turn_accept [OF assms(2) accepting_workers [OF assms(4) inv i] acc] assms(4) show ?thesis by simp
  next
    fix j i e out
    assume j: "j < length (open_connections y)" "stream_event execute pf i j e y = Inr (out, y')"
    from stream_event_frame [OF j(2,1)] have f: "server y' = server y"
      "map worker (open_connections y') = map worker (open_connections y)" by simp_all
    moreover have "accept_counter y' = accept_counter y"
      using j(2) by (auto simp: stream_event_def bind_res_Inr_iff Let_def)
    moreover have "length (open_connections y') = length (open_connections y)"
      using f(2) by (metis length_map)
    ultimately show ?thesis using assms(2,4) by (simp add: in_turn_from_def)
  qed
qed

lemma in_turn_reachable:
  assumes "system_reachable execute pf p0 serialize y"
  shows "\<exists>iter. in_turn_from iter y \<and> kept_workers (server y)"
  using assms
proof (induction rule: system_reachable.induct)
  case (sys_new ip p iter)
  have "in_turn_from iter (system_new ip p iter)" by (simp add: in_turn_from_def system_new_def)
  then show ?case using kept_workers_new by (auto simp: system_new_def)
next
  case (sys_step y y')
  with in_turn_step [OF sys_step.hyps(2) _ system_inv_reachable [OF sys_step.hyps(1)]] show ?case by blast
qed

section \<open>Properties\<close>

text \<open>C26: The connections are spread evenly over the four workers of a server: in every reachable state, with
  any initial value of the counter and across its overflow, the numbers of connections that two
  workers were given differ by at most one, those of the application and of the admin server
  taken together.\<close>

theorem workers_balanced:
  assumes "system_reachable execute pf p0 serialize y" and "b < 4" and "b' < 4"
  shows "count (mset (map worker (open_connections y))) b \<le>
    Suc (count (mset (map worker (open_connections y))) b')"
proof -
  from in_turn_reachable [OF assms(1)] obtain iter where "in_turn_from iter y" by blast
  then have w: "map worker (open_connections y) =
      map (\<lambda>i. [0, 1, 2, 3] ! ((unat iter + 1 + i) mod length [0, 1, 2, 3 :: nat])) [0..<length (open_connections y)]"
    by (simp add: in_turn_from_def)
  have four: "c < 4 \<Longrightarrow> c \<in> set [0, 1, 2, 3 :: nat]" for c by auto
  have d: "distinct [0, 1, 2, 3 :: nat]" by simp
  from count_cycle [OF d four [OF assms(2)], of "unat iter + 1" "length (open_connections y)"]
    count_cycle [OF d four [OF assms(3)], of "unat iter + 1" "length (open_connections y)"]
  show ?thesis unfolding w by auto
qed

theorem workers_balanced_witness:
  "count (mset (map worker (open_connections one_connection))) 1 \<le>
     Suc (count (mset (map worker (open_connections one_connection))) 3)"
  using workers_balanced [OF one_connection_reachable, of 1 3] by simp

end
