(* ===== verification/Param_Types.thy ===== *)
theory Param_Types
  imports Dispatch
begin

text \<open>
  The types of handler parameters as C++ has them, with \<open>const\<close> and references, and what the
  templates of \<open>include/detail/tuple_util.h\<close> and \<open>include/detail/invoker.h\<close> make of them at compile
  time: \<open>BaseType\<close> finds the class the extraction is specialised for, \<open>MRR\<close> the type of the element
  in the tuple between extraction and call. \<open>Dispatch\<close> models the same code at run time, where a
  parameter is only its class.

  The rules of the language used: which initialisations are well formed (\<open>initialises\<close>), what
  \<open>std::get\<close> yields on a constant tuple, and the access control of class members.
\<close>

section \<open>Types and expressions\<close>

text \<open>A class: that of a parameter, or any other.\<close>

datatype param_class = Param param_type | Other string

datatype ref_kind = NoRef | LRef | RRef

record cpp_type =
  class_of :: param_class
  is_const :: bool
  ref_of :: ref_kind

text \<open>An expression: the class of its type, whether that is constant, and whether it denotes an
  object that goes on existing (an lvalue) or a temporary.\<close>

record cpp_expr =
  expr_class :: param_class
  expr_const :: bool
  lvalue :: bool

text \<open>The three parameter interfaces of \<open>include/parameter.h\<close> are abstract: no object has exactly
  their type.\<close>

definition abstract_class :: "param_class \<Rightarrow> bool" where
  "abstract_class c \<longleftrightarrow> c \<in> {Param TQuery, Param TPost, Param THeader}"

definition initialises :: "cpp_expr \<Rightarrow> cpp_type \<Rightarrow> bool" where
  "initialises e t \<longleftrightarrow>
     expr_class e = class_of t \<and>
     (case ref_of t of
        NoRef \<Rightarrow> \<not> abstract_class (class_of t)
      | LRef \<Rightarrow> is_const t \<or> (lvalue e \<and> \<not> expr_const e)
      | RRef \<Rightarrow> \<not> lvalue e \<and> (is_const t \<or> \<not> expr_const e))"

text \<open>\<open>std::get<I>(args)\<close> on a constant tuple whose element has the type \<open>t\<close>.\<close>

definition tuple_get :: "cpp_type \<Rightarrow> cpp_expr" where
  "tuple_get t = \<lparr>expr_class = class_of t, expr_const = (is_const t \<or> ref_of t = NoRef), lvalue = True\<rparr>"

section \<open>Type functions\<close>

definition remove_reference :: "cpp_type \<Rightarrow> cpp_type" where
  "remove_reference t = t\<lparr>ref_of := NoRef\<rparr>"

definition remove_const :: "cpp_type \<Rightarrow> cpp_type" where
  "remove_const t = (if ref_of t = NoRef then t\<lparr>is_const := False\<rparr> else t)"

definition BaseType :: "cpp_type \<Rightarrow> cpp_type" where
  "BaseType t = remove_const (remove_reference t)"

text \<open>"Maybe remove reference": the specialisations for constant references to path parameters.\<close>

fun MRR_class :: "param_class \<Rightarrow> bool" where
  "MRR_class (Param TString) \<longleftrightarrow> True"
| "MRR_class (Param (TInt T)) \<longleftrightarrow> True"
| "MRR_class _ \<longleftrightarrow> False"

definition MRR :: "cpp_type \<Rightarrow> cpp_type" where
  "MRR R =
     (if MRR_class (class_of R) \<and> is_const R \<and> ref_of R = LRef
      then \<lparr>class_of = class_of R, is_const = False, ref_of = NoRef\<rparr> else R)"

text \<open>The result of \<open>GetParam<T>::get\<close>: path parameters are made anew, the others are constant
  references into the \<open>UriInfo\<close>; for any other class the function is declared but not defined.\<close>

fun GetParam_result :: "param_class \<Rightarrow> cpp_expr option" where
  "GetParam_result (Param TString) = Some \<lparr>expr_class = Param TString, expr_const = False, lvalue = False\<rparr>"
| "GetParam_result (Param (TInt T)) = Some \<lparr>expr_class = Param (TInt T), expr_const = False, lvalue = False\<rparr>"
| "GetParam_result (Param t) = Some \<lparr>expr_class = Param t, expr_const = True, lvalue = True\<rparr>"
| "GetParam_result (Other s) = None"

text \<open>\<open>NextIndex\<close> is needed for every parameter but the last. Its specialisation for integers is a
  class whose member \<open>next\<close> is private.\<close>

fun NextIndex_accessible :: "param_class \<Rightarrow> bool" where
  "NextIndex_accessible (Param (TInt T)) \<longleftrightarrow> False"
| "NextIndex_accessible _ \<longleftrightarrow> True"

section \<open>Signatures\<close>

text \<open>One parameter of type \<open>A\<close>: the element of type \<open>MRR<A>\<close> is initialised from \<open>GetParam\<close>, and the
  parameter from the element.\<close>

definition element_compiles :: "cpp_type \<Rightarrow> bool" where
  "element_compiles A \<longleftrightarrow>
     (case GetParam_result (class_of (BaseType (MRR A))) of
        None \<Rightarrow> False
      | Some e \<Rightarrow> initialises e (MRR A) \<and> initialises (tuple_get (MRR A)) A)"

fun signature_compiles :: "cpp_type list \<Rightarrow> bool" where
  "signature_compiles [] \<longleftrightarrow> True"
| "signature_compiles [A] \<longleftrightarrow> element_compiles A"
| "signature_compiles (A # B # As) \<longleftrightarrow>
     element_compiles A \<and> NextIndex_accessible (class_of (BaseType (MRR A))) \<and> signature_compiles (B # As)"

text \<open>An element that is a reference is bound for the whole call. It dangles when \<open>GetParam\<close> yields a
  temporary, which does not live that long.\<close>

definition element_dangles :: "cpp_type \<Rightarrow> bool" where
  "element_dangles A \<longleftrightarrow>
     ref_of (MRR A) \<noteq> NoRef \<and>
     (case GetParam_result (class_of (BaseType (MRR A))) of None \<Rightarrow> False | Some e \<Rightarrow> \<not> lvalue e)"

text \<open>The parameter types the run-time model has for a signature.\<close>

fun param_of :: "param_class \<Rightarrow> param_type option" where
  "param_of (Param t) = Some t"
| "param_of (Other s) = None"

definition signature_of :: "cpp_type list \<Rightarrow> param_type list" where
  "signature_of As = List.map_filter (\<lambda>A. param_of (class_of A)) As"

section \<open>Which signatures compile\<close>

lemma class_of_MRR [simp]: "class_of (MRR A) = class_of A"
  by (simp add: MRR_def)

lemma class_of_BaseType [simp]: "class_of (BaseType A) = class_of A"
  by (simp add: BaseType_def remove_const_def remove_reference_def)

lemma BaseType_plain: "BaseType A = \<lparr>class_of = class_of A, is_const = False, ref_of = NoRef\<rparr>"
  by (simp add: BaseType_def remove_const_def remove_reference_def)

text \<open>By constant reference, or by value where the class has objects.\<close>

definition supported :: "cpp_type \<Rightarrow> bool" where
  "supported A \<longleftrightarrow>
     (\<exists>t. class_of A = Param t) \<and>
     (ref_of A = LRef \<and> is_const A \<or> ref_of A = NoRef \<and> \<not> abstract_class (class_of A))"

lemma element_compiles_iff: "element_compiles A \<longleftrightarrow> supported A"
proof (cases "class_of A")
  case (Param t)
  then show ?thesis
    by (cases t; cases "ref_of A"; cases "is_const A")
       (simp_all add: element_compiles_def supported_def initialises_def tuple_get_def MRR_def
          abstract_class_def)
qed (simp add: element_compiles_def supported_def)

lemma element_no_dangling: "element_compiles A \<Longrightarrow> \<not> element_dangles A"
proof (cases "class_of A")
  case (Param t)
  then show "element_compiles A \<Longrightarrow> \<not> element_dangles A"
    by (cases t) (auto simp: element_compiles_iff supported_def element_dangles_def MRR_def)
qed (simp add: element_dangles_def)

lemma signature_compiles_iff:
  "signature_compiles As \<longleftrightarrow>
     (\<forall>A\<in>set As. supported A) \<and> (\<forall>A\<in>set (butlast As). \<nexists>T. class_of A = Param (TInt T))"
proof (induction As rule: signature_compiles.induct)
  case (3 A B As)
  have "NextIndex_accessible (class_of A) \<longleftrightarrow> (\<nexists>T. class_of A = Param (TInt T))"
    by (cases "class_of A" rule: NextIndex_accessible.cases) auto
  with 3 show ?case by (simp add: element_compiles_iff) blast
qed (simp_all add: element_compiles_iff)

lemma signature_of_supported:
  "\<forall>A\<in>set As. supported A \<Longrightarrow> map class_of As = map Param (signature_of As)"
  by (induction As) (auto simp: signature_of_def map_filter_simps supported_def)

section \<open>Properties\<close>

text \<open>C37: A handler method can be bound exactly when each of its parameters is of one of the six supported
  kinds, by constant reference, or by value where the class is not abstract, and no integer
  parameter has another parameter after it. Then the call works on objects that exist: each element
  of the tuple is an object of its own or refers into the \<open>UriInfo\<close>, none to a temporary; and the
  signature is the list of classes the extraction is specialised for.\<close>

theorem handler_signatures:
  "(signature_compiles As \<longleftrightarrow>
      (\<forall>A\<in>set As. supported A) \<and> (\<forall>A\<in>set (butlast As). \<nexists>T. class_of A = Param (TInt T))) \<and>
   (signature_compiles As \<longrightarrow>
      (\<forall>A\<in>set As. \<not> element_dangles A) \<and>
      map (\<lambda>A. class_of (BaseType (MRR A))) As = map Param (signature_of As))"
proof -
  have "element_compiles A" if "signature_compiles As" "A \<in> set As" for A
    using that by (simp add: signature_compiles_iff element_compiles_iff)
  then show ?thesis
    using signature_compiles_iff [of As] signature_of_supported [of As] element_no_dangling by auto
qed

text \<open>The signature of \<open>HelloDoubleParamResource::put\<close>, and two integers, the first of which cannot be
  followed by another parameter.\<close>

theorem handler_signatures_witness:
  "signature_compiles
     [\<lparr>class_of = Param TString, is_const = True, ref_of = LRef\<rparr>,
      \<lparr>class_of = Param TString, is_const = True, ref_of = LRef\<rparr>,
      \<lparr>class_of = Param TEntity, is_const = True, ref_of = LRef\<rparr>] \<and>
   \<not> element_dangles \<lparr>class_of = Param TString, is_const = True, ref_of = LRef\<rparr> \<and>
   \<not> signature_compiles
     [\<lparr>class_of = Param (TInt (SInt 32)), is_const = True, ref_of = LRef\<rparr>,
      \<lparr>class_of = Param (TInt (SInt 32)), is_const = True, ref_of = LRef\<rparr>]"
proof -
  let ?s = "\<lparr>class_of = Param TString, is_const = True, ref_of = LRef\<rparr>"
  let ?e = "\<lparr>class_of = Param TEntity, is_const = True, ref_of = LRef\<rparr>"
  let ?i = "\<lparr>class_of = Param (TInt (SInt 32)), is_const = True, ref_of = LRef\<rparr>"
  have "supported ?s" "supported ?e" by (simp_all add: supported_def)
  then show ?thesis
    using handler_signatures [of "[?s, ?s, ?e]"] handler_signatures [of "[?i, ?i]"] by simp
qed

end
