(* ===== verification/Matcher_Clear.thy ===== *)
theory Matcher_Clear
  imports Matcher_Add
begin

text \<open>
  \<open>ResourceMatcher::clear\<close>, the body of the destructor: an iterative post-order traversal with
  an explicit stack that deletes every node of the trie but the embedded root.

  The loop is a \<open>partial_function\<close> over \<open>option\<close>, so that not terminating is the value
  \<open>None\<close>. Deleting an address that holds no node (a double delete), reading a deleted node, and
  deleting a node for which the \<open>DCHECK\<close> of \<open>~Node\<close> fails are all \<open>Undef\<close>. On a well-formed
  trie none of this happens, and exactly the root remains.
\<close>

section \<open>The traversal of the code\<close>

record clear_state =
  cnode :: addr
  cparent :: "addr option"
  cvisited :: bool

text \<open>\<open>delete node\<close>, with the \<open>DCHECK(children.empty())\<close> of the destructor.\<close>

definition delete_node :: "matcher \<Rightarrow> addr \<Rightarrow> matcher res" where
  "delete_node m a =
     bind_res (load m a) (\<lambda>n.
       if children n \<noteq> [] then Inl Undef else Inr (m\<lparr>store := (store m)(a := None)\<rparr>))"

text \<open>The nodes pushed for a node: the literal children in iteration order, then the variable
  one. The stack is a list with the top at its head.\<close>

definition pushed :: "addr \<Rightarrow> node \<Rightarrow> clear_state list" where
  "pushed a n =
     map (\<lambda>kv. \<lparr>cnode = snd kv, cparent = Some a, cvisited = False\<rparr>) (children n) @
     (case varChild n of
        None \<Rightarrow> []
      | Some v \<Rightarrow> [\<lparr>cnode = v, cparent = Some a, cvisited = False\<rparr>])"

definition clear_step :: "matcher \<Rightarrow> clear_state \<Rightarrow> clear_state list \<Rightarrow>
    (matcher \<times> clear_state list) res" where
  "clear_step m entry rest =
     (if \<not> cvisited entry then
        bind_res (load m (cnode entry)) (\<lambda>n.
        bind_res (modify m (cnode entry) (\<lambda>n. n\<lparr>children := []\<rparr>)) (\<lambda>m'.
          Inr (m', rev (pushed (cnode entry) n) @ entry\<lparr>cvisited := True\<rparr> # rest)))
      else if cnode entry \<noteq> head_addr then
        bind_res (delete_node m (cnode entry)) (\<lambda>m'. Inr (m', rest))
      else Inr (m, rest))"

partial_function (option) clear_loop :: "matcher \<Rightarrow> clear_state list \<Rightarrow> matcher res option" where
  "clear_loop m stack =
     (case stack of
        [] \<Rightarrow> Some (Inr m)
      | entry # rest \<Rightarrow>
          (case clear_step m entry rest of
             Inl e \<Rightarrow> Some (Inl e)
           | Inr ms \<Rightarrow> clear_loop (fst ms) (snd ms)))"

declare clear_loop.simps [code]

definition clear :: "matcher \<Rightarrow> matcher res option" where
  "clear m = clear_loop m [\<lparr>cnode = head_addr, cparent = None, cvisited = False\<rparr>]"

section \<open>The invariant of the loop\<close>

text \<open>
  \<open>live\<close> are the nodes that were not visited yet. They form a forest whose roots are the
  unvisited entries of the stack.
\<close>

definition visited_on :: "clear_state list \<Rightarrow> addr set" where
  "visited_on stack = cnode ` {s \<in> set stack. cvisited s}"

definition unvisited_on :: "clear_state list \<Rightarrow> addr set" where
  "unvisited_on stack = cnode ` {s \<in> set stack. \<not> cvisited s}"

definition forest :: "matcher \<Rightarrow> addr set \<Rightarrow> addr set \<Rightarrow> bool" where
  "forest m live roots \<longleftrightarrow>
     finite live \<and> roots \<subseteq> live \<and>
     (\<forall>a\<in>live. \<exists>n. store m a = Some n \<and> node_ok n) \<and>
     (\<forall>a\<in>live. \<forall>s b. child m a s = Some b \<longrightarrow> b \<in> live \<and> b \<notin> roots \<and> a < b) \<and>
     (\<forall>a\<in>live. \<forall>a'\<in>live. \<forall>s s' b. child m a s = Some b \<longrightarrow> child m a' s' = Some b \<longrightarrow>
        a = a' \<and> s = s') \<and>
     (\<forall>b\<in>live. b \<in> roots \<or> (\<exists>a\<in>live. \<exists>s. child m a s = Some b))"

definition cleared_node :: "matcher \<Rightarrow> addr \<Rightarrow> bool" where
  "cleared_node m a \<longleftrightarrow> (\<exists>n. store m a = Some n \<and> children n = [])"

definition clear_inv :: "matcher \<Rightarrow> addr set \<Rightarrow> clear_state list \<Rightarrow> bool" where
  "clear_inv m live stack \<longleftrightarrow>
     distinct (map cnode stack) \<and>
     forest m live (unvisited_on stack) \<and>
     dom (store m) = insert head_addr (live \<union> visited_on stack) \<and>
     visited_on stack \<inter> live = {} \<and>
     (\<forall>a\<in>visited_on stack. cleared_node m a) \<and>
     (head_addr \<notin> live \<longrightarrow> cleared_node m head_addr)"

lemma visited_on_simps [simp]:
  "visited_on [] = {}"
  "visited_on (s # ss) = (if cvisited s then insert (cnode s) (visited_on ss) else visited_on ss)"
  "visited_on (ss @ ts) = visited_on ss \<union> visited_on ts"
  by (auto simp: visited_on_def)

lemma unvisited_on_simps [simp]:
  "unvisited_on [] = {}"
  "unvisited_on (s # ss) = (if cvisited s then unvisited_on ss else insert (cnode s) (unvisited_on ss))"
  "unvisited_on (ss @ ts) = unvisited_on ss \<union> unvisited_on ts"
  by (auto simp: unvisited_on_def)

lemma on_rev [simp]:
  "visited_on (rev ss) = visited_on ss" "unvisited_on (rev ss) = unvisited_on ss"
  by (simp_all add: visited_on_def unvisited_on_def)

lemma pushed_unvisited: "s \<in> set (pushed a n) \<Longrightarrow> \<not> cvisited s"
  by (auto simp: pushed_def split: option.splits)

lemma visited_on_pushed [simp]: "visited_on (pushed a n) = {}"
  using pushed_unvisited by (auto simp: visited_on_def)

lemma pushed_children:
  assumes "store m a = Some n" "node_ok n"
  shows "b \<in> unvisited_on (pushed a n) \<longleftrightarrow> (\<exists>s. child m a s = Some b)"
proof -
  have "unvisited_on (pushed a n) = cnode ` set (pushed a n)"
    using pushed_unvisited by (auto simp: unvisited_on_def)
  also have "\<dots> = snd ` set (children n) \<union> set_option (varChild n)"
    by (force simp: pushed_def split: option.splits)
  finally have *: "unvisited_on (pushed a n) = snd ` set (children n) \<union> set_option (varChild n)" .
  have "b \<in> snd ` set (children n) \<longleftrightarrow> (\<exists>k. map_of (children n) k = Some b)"
    using assms(2) by (force simp: node_ok_def)
  moreover have "(\<exists>s. child m a s = Some b) \<longleftrightarrow> (\<exists>k. map_of (children n) k = Some b) \<or> varChild n = Some b"
  proof -
    have "child m a Var = varChild n" "\<And>k. child m a (Lit k) = map_of (children n) k"
      using assms(1) by (simp_all add: child_def)
    then show ?thesis by (metis seg.exhaust)
  qed
  ultimately show ?thesis unfolding * by auto
qed

text \<open>The pushed nodes are pairwise distinct: distinct edges lead to distinct nodes.\<close>

lemma pushed_distinct:
  assumes n: "store m a = Some n" "node_ok n"
    and sep: "\<And>s s' b. child m a s = Some b \<Longrightarrow> child m a s' = Some b \<Longrightarrow> s = s'"
  shows "distinct (map cnode (pushed a n))"
proof -
  have lit: "child m a (Lit k) = Some b" if "(k, b) \<in> set (children n)" for k b
    using that n by (simp add: child_def node_ok_def)
  have var: "child m a Var = varChild n" using n by (simp add: child_def)
  have "distinct (children n)" using n(2) by (simp add: node_ok_def distinct_map)
  moreover have "inj_on snd (set (children n))"
    using sep [OF lit lit] by (fastforce simp: inj_on_def)
  ultimately have "distinct (map snd (children n))" by (simp add: distinct_map)
  moreover have "v \<notin> snd ` set (children n)" if "varChild n = Some v" for v
    using sep [OF lit, of _ v Var] var that by fastforce
  ultimately show ?thesis
    by (auto simp: pushed_def comp_def split: option.splits)
qed

section \<open>The steps keep the invariant\<close>

lemma child_cong: "store m' a = store m a \<Longrightarrow> child m' a s = child m a s"
  by (simp add: child_def)

lemma forest_cong:
  assumes "\<And>a. a \<in> live \<Longrightarrow> store m' a = store m a"
  shows "forest m' live roots = forest m live roots"
proof -
  have "child m' a s = child m a s" if "a \<in> live" for a s
    using assms [OF that] by (rule child_cong)
  with assms show ?thesis unfolding forest_def by auto
qed

lemma forest_node: "forest m live roots \<Longrightarrow> a \<in> live \<Longrightarrow> \<exists>n. store m a = Some n \<and> node_ok n"
  unfolding forest_def by blast

lemma forest_edge:
  "forest m live roots \<Longrightarrow> a \<in> live \<Longrightarrow> child m a s = Some b \<Longrightarrow> b \<in> live \<and> b \<notin> roots \<and> a < b"
  unfolding forest_def by blast

lemma forest_separate:
  "forest m live roots \<Longrightarrow> a \<in> live \<Longrightarrow> a' \<in> live \<Longrightarrow> child m a s = Some b \<Longrightarrow>
     child m a' s' = Some b \<Longrightarrow> a = a' \<and> s = s'"
  unfolding forest_def by metis

lemma forest_rooted:
  "forest m live roots \<Longrightarrow> b \<in> live \<Longrightarrow> b \<in> roots \<or> (\<exists>a\<in>live. \<exists>s. child m a s = Some b)"
  unfolding forest_def by blast

text \<open>Visiting a root: its children become roots.\<close>

lemma forest_visit:
  assumes f: "forest m live (insert a roots)" and a: "a \<notin> roots"
    and kids: "\<And>b. b \<in> kids \<longleftrightarrow> (\<exists>s. child m a s = Some b)"
  shows "forest m (live - {a}) (kids \<union> roots)"
proof -
  have al: "a \<in> live" "roots \<subseteq> live" "finite live" using f by (auto simp: forest_def)
  have kid: "b \<in> live \<and> b \<notin> insert a roots \<and> a < b" if "b \<in> kids" for b
    using that forest_edge [OF f al(1)] by (auto simp: kids)
  have edge: "b \<in> live - {a} \<and> b \<notin> kids \<union> roots \<and> x < b"
    if "x \<in> live - {a}" "child m x s = Some b" for x s b
  proof -
    have x: "x \<in> live" "x \<noteq> a" using that(1) by auto
    have "b \<notin> kids"
      using forest_separate [OF f al(1) x(1) _ that(2)] x(2) by (auto simp: kids)
    with forest_edge [OF f x(1) that(2)] show ?thesis by auto
  qed
  have root: "b \<in> kids \<union> roots \<or> (\<exists>x\<in>live - {a}. \<exists>s. child m x s = Some b)"
    if "b \<in> live - {a}" for b
    using forest_rooted [OF f, of b] that by (auto simp: kids)
  show ?thesis
    unfolding forest_def
    using al a edge root kid forest_node [OF f] forest_separate [OF f]
    by (intro conjI ballI allI impI) (blast | auto)+
qed

lemma visit_stack:
  assumes inv: "clear_inv m live (entry # rest)" and v: "\<not> cvisited entry"
    and n: "store m (cnode entry) = Some n" "node_ok n"
  shows "distinct (map cnode (rev (pushed (cnode entry) n) @ entry\<lparr>cvisited := True\<rparr> # rest))"
    and "forest m (live - {cnode entry}) (unvisited_on (pushed (cnode entry) n) \<union> unvisited_on rest)"
proof -
  let ?a = "cnode entry"
  have d: "distinct (map cnode (entry # rest))" and f: "forest m live (insert ?a (unvisited_on rest))"
    and dis: "visited_on rest \<inter> live = {}"
    using inv v by (auto simp: clear_inv_def)
  have al: "?a \<in> live" using f by (auto simp: forest_def)
  have kids: "b \<in> unvisited_on (pushed ?a n) \<longleftrightarrow> (\<exists>s. child m ?a s = Some b)" for b
    by (rule pushed_children [OF n])
  have kid: "b \<in> live \<and> b \<noteq> ?a \<and> b \<notin> unvisited_on rest" if "b \<in> unvisited_on (pushed ?a n)" for b
    using forest_edge [OF f al] that kids by auto
  have names: "cnode ` set (pushed ?a n) = unvisited_on (pushed ?a n)"
    using pushed_unvisited by (auto simp: unvisited_on_def)
  have rest: "cnode ` set rest = visited_on rest \<union> unvisited_on rest"
    by (auto simp: visited_on_def unvisited_on_def)
  have "distinct (map cnode (pushed ?a n))"
    using pushed_distinct [OF n] forest_separate [OF f al al] by blast
  then show "distinct (map cnode (rev (pushed ?a n) @ entry\<lparr>cvisited := True\<rparr> # rest))"
    using d kid dis names rest by (auto simp: rev_map [symmetric])
  have "?a \<notin> unvisited_on rest" using d rest by auto
  with f show "forest m (live - {?a}) (unvisited_on (pushed ?a n) \<union> unvisited_on rest)"
    using kids by (rule forest_visit)
qed

lemma visit_inv:
  assumes inv: "clear_inv m live (entry # rest)" and v: "\<not> cvisited entry"
  shows "\<exists>m' stack'. clear_step m entry rest = Inr (m', stack') \<and>
    clear_inv m' (live - {cnode entry}) stack' \<and> cnode entry \<in> live \<and>
    length (filter cvisited stack') = Suc (length (filter cvisited rest)) \<and>
    resources m' = resources m"
proof -
  let ?a = "cnode entry"
  have f: "forest m live (insert ?a (unvisited_on rest))"
    and dom: "dom (store m) = insert head_addr (live \<union> visited_on rest)"
    and dis: "visited_on rest \<inter> live = {}"
    and cl: "\<And>a. a \<in> visited_on rest \<Longrightarrow> cleared_node m a"
    and hd: "head_addr \<notin> live \<Longrightarrow> cleared_node m head_addr"
    using inv v by (auto simp: clear_inv_def)
  have al: "?a \<in> live" using f by (auto simp: forest_def)
  obtain n where n: "store m ?a = Some n" "node_ok n" using forest_node [OF f al] by blast
  let ?m = "m\<lparr>store := (store m)(?a \<mapsto> n\<lparr>children := []\<rparr>)\<rparr>"
  let ?stack = "rev (pushed ?a n) @ entry\<lparr>cvisited := True\<rparr> # rest"
  note stack = visit_stack [OF inv v n]
  have step: "clear_step m entry rest = Inr (?m, ?stack)"
    using v n by (simp add: clear_step_def load_def modify_def)
  have "forest ?m (live - {?a}) (unvisited_on ?stack)"
    using stack(2) by (subst forest_cong [where m = m]) auto
  moreover have "dom (store ?m) = insert head_addr (live - {?a} \<union> visited_on ?stack)"
    using dom al by auto
  moreover have "visited_on ?stack \<inter> (live - {?a}) = {}" using dis by auto
  moreover have "\<forall>a\<in>visited_on ?stack. cleared_node ?m a"
    using cl by (auto simp: cleared_node_def)
  moreover have "head_addr \<notin> live - {?a} \<longrightarrow> cleared_node ?m head_addr"
    using hd by (auto simp: cleared_node_def)
  ultimately have "clear_inv ?m (live - {?a}) ?stack" using stack(1) unfolding clear_inv_def by blast
  moreover have "filter cvisited (pushed ?a n) = []" using pushed_unvisited by (auto simp: filter_empty_conv)
  ultimately show ?thesis using step al by (auto simp: rev_filter [symmetric])
qed

text \<open>Leaving a visited node: it has no children any more and is deleted, unless it is the root.\<close>

lemma leave_inv:
  assumes inv: "clear_inv m live (entry # rest)" and v: "cvisited entry"
  shows "\<exists>m'. clear_step m entry rest = Inr (m', rest) \<and> clear_inv m' live rest \<and>
    resources m' = resources m"
proof -
  let ?a = "cnode entry"
  have d: "distinct (map cnode (entry # rest))" and f: "forest m live (unvisited_on rest)"
    and dom: "dom (store m) = insert head_addr (live \<union> insert ?a (visited_on rest))"
    and al: "?a \<notin> live" and dis: "visited_on rest \<inter> live = {}"
    and cl: "cleared_node m ?a" "\<And>a. a \<in> visited_on rest \<Longrightarrow> cleared_node m a"
    and hd: "head_addr \<notin> live \<Longrightarrow> cleared_node m head_addr"
    using inv v by (auto simp: clear_inv_def)
  have a_rest: "?a \<notin> visited_on rest" using d by (auto simp: visited_on_def)
  show ?thesis
  proof (cases "?a = head_addr")
    case True
    then have "clear_inv m live rest"
      using d f dom dis cl hd unfolding clear_inv_def by auto
    with True v show ?thesis by (simp add: clear_step_def)
  next
    case False
    let ?m = "m\<lparr>store := (store m)(?a := None)\<rparr>"
    have "clear_step m entry rest = Inr (?m, rest)"
      using False v cl(1) by (auto simp: clear_step_def delete_node_def load_def cleared_node_def)
    moreover have "forest ?m live (unvisited_on rest)"
      using f al by (subst forest_cong [where m = m]) auto
    moreover have "dom (store ?m) = insert head_addr (live \<union> visited_on rest)"
      using dom False al a_rest by auto
    moreover have "\<forall>a\<in>visited_on rest. cleared_node ?m a"
      using cl(2) a_rest by (auto simp: cleared_node_def)
    moreover have "head_addr \<notin> live \<longrightarrow> cleared_node ?m head_addr"
      using hd False by (auto simp: cleared_node_def)
    ultimately show ?thesis using d dis unfolding clear_inv_def by simp
  qed
qed

section \<open>The whole traversal\<close>

lemma forest_no_roots: "forest m live {} \<Longrightarrow> live = {}"
proof (rule ccontr)
  assume f: "forest m live {}" and ne: "live \<noteq> {}"
  have "\<exists>a\<in>live. a < b" if "b \<in> live" for b
    using forest_rooted [OF f that] forest_edge [OF f] by blast
  moreover have fin: "finite live" using f by (simp add: forest_def)
  ultimately obtain a where "a \<in> live" "a < Min live" using Min_in [OF fin ne] by blast
  with Min_le [OF fin] show False by (meson leD)
qed

lemma clear_loop_correct:
  "clear_inv m live stack \<Longrightarrow>
     \<exists>m'. clear_loop m stack = Some (Inr m') \<and> dom (store m') = {head_addr} \<and>
       cleared_node m' head_addr \<and> resources m' = resources m"
proof (induction "2 * card live + length (filter cvisited stack)" arbitrary: m live stack
    rule: less_induct)
  case less
  show ?case
  proof (cases stack)
    case Nil
    with less.prems have inv: "forest m live {}" "dom (store m) = insert head_addr live"
      "head_addr \<notin> live \<longrightarrow> cleared_node m head_addr" by (simp_all add: clear_inv_def)
    from forest_no_roots [OF inv(1)] inv show ?thesis by (simp add: Nil clear_loop.simps)
  next
    case (Cons entry rest)
    show ?thesis
    proof (cases "cvisited entry")
      case True
      from leave_inv [OF less.prems [unfolded Cons] True] obtain m' where
        m': "clear_step m entry rest = Inr (m', rest)" "clear_inv m' live rest"
        "resources m' = resources m" by blast
      from less.hyps [OF _ m'(2)] Cons True m' show ?thesis
        by (subst clear_loop.simps) simp
    next
      case False
      from visit_inv [OF less.prems [unfolded Cons] False] obtain m' stack' where
        s: "clear_step m entry rest = Inr (m', stack')"
        "clear_inv m' (live - {cnode entry}) stack'" "cnode entry \<in> live"
        "length (filter cvisited stack') = Suc (length (filter cvisited rest))"
        "resources m' = resources m" by blast
      have "finite live" using less.prems by (simp add: clear_inv_def forest_def)
      then have "card (live - {cnode entry}) < card live"
        using s(3) by (intro psubset_card_mono) auto
      with less.hyps [OF _ s(2)] Cons False s show ?thesis
        by (subst clear_loop.simps) simp
    qed
  qed
qed

lemma forest_wf:
  assumes wf: "wf_matcher m"
  shows "forest m (dom (store m)) {head_addr}"
proof -
  have "dom (store m) \<subseteq> {..<fresh m}" using wf_matcher_fresh [OF wf] by (auto simp: domIff)
  then have "finite (dom (store m))" by (rule finite_subset) simp
  moreover have "child m a s = Some b \<Longrightarrow> b \<in> dom (store m) \<and> b \<notin> {head_addr} \<and> a < b" for a s b
    using wf_matcher_child [OF wf, of a s b] by (auto simp: head_addr_def domIff)
  moreover have "b \<in> {head_addr} \<or> (\<exists>a\<in>dom (store m). \<exists>s. child m a s = Some b)"
    if "b \<in> dom (store m)" for b
  proof (cases "b = head_addr")
    case False
    from that have "store m b \<noteq> None" by auto
    from wf_matcher_parent [OF wf this False] obtain a s where a: "child m a s = Some b" by blast
    then have "a \<in> dom (store m)" by (cases "store m a") auto
    with a show ?thesis by blast
  qed simp
  ultimately show ?thesis
    unfolding forest_def
    using wf_matcher_head [OF wf] wf_matcher_node [OF wf] wf_matcher_child_inj [OF wf] by blast
qed

lemma clear_correct:
  assumes wf: "wf_matcher m"
  shows "\<exists>m'. clear m = Some (Inr m') \<and> dom (store m') = {head_addr} \<and>
    cleared_node m' head_addr \<and> resources m' = resources m"
proof -
  have "clear_inv m (dom (store m)) [\<lparr>cnode = head_addr, cparent = None, cvisited = False\<rparr>]"
    using forest_wf [OF wf] wf_matcher_head [OF wf] by (auto simp: clear_inv_def)
  then show ?thesis unfolding clear_def by (rule clear_loop_correct)
qed

section \<open>Properties\<close>

text \<open>C12: On a well-formed trie \<open>clear\<close> terminates, deletes every node but the embedded root exactly once,
  never touches a deleted node, and every deletion meets the check of the node's destructor.\<close>

theorem clear_deletes_all:
  assumes "wf_matcher m"
  shows "\<exists>m'. clear m = Some (Inr m') \<and> dom (store m') = {head_addr}"
  using clear_correct [OF assms] by blast

theorem clear_deletes_all_witness:
  "\<exists>m m'. addResource ResourceMatcher (Resource 1 ''/a/{b}'') (bindMethods (Resource 1 ''/a/{b}'')) =
     Inr (None, m) \<and> clear m = Some (Inr m') \<and> dom (store m') = {0}"
proof -
  obtain m where m: "addResource ResourceMatcher (Resource 1 ''/a/{b}'')
      (bindMethods (Resource 1 ''/a/{b}'')) = Inr (None, m)" "wf_matcher m"
    using addResource_free [OF wf_ResourceMatcher, of "Resource 1 ''/a/{b}''"]
    by (auto simp: routes_ResourceMatcher)
  from clear_deletes_all [OF m(2)] m(1) show ?thesis by (auto simp: head_addr_def)
qed

end
