(* ===== verification/Server_Object.thy ===== *)
theory Server_Object
  imports Server_Spec Matcher_Clear
begin

text \<open>
  Objects of class \<open>Server\<close> and their destruction (\<open>include/server.h\<close>, \<open>src/server.cc\<close>,
  \<open>src/server_instance.h\<close>, \<open>src/resource_matcher.cc\<close>). A \<open>Server\<close> is a pointer to a
  \<open>ServerImpl\<close> on the heap, to which its methods forward. Deleting it runs a chain of
  destructors: \<open>~Server\<close>, \<open>~ServerImpl\<close> (which stops a running server), \<open>~ServerInstance\<close> of the
  application and \<open>~ResourceMatcher\<close> with its traversal of the trie. Reading or deleting a
  \<open>ServerImpl\<close> that is gone is \<open>Undef\<close>.
\<close>

section \<open>Destructors\<close>

text \<open>\<open>clear()\<close>, then the destruction of the embedded root with the check of \<open>~Node\<close>. The outer
  option is \<open>None\<close> when the traversal does not end.\<close>

definition ResourceMatcher_destructor :: "matcher \<Rightarrow> matcher res option" where
  "ResourceMatcher_destructor m =
     map_option (\<lambda>r. bind_res r (\<lambda>m'. delete_node m' head_addr)) (clear m)"

text \<open>\<open>delete listener_\<close> in the body, then the member \<open>matcher_\<close>.\<close>

definition ServerInstance_destructor :: "'b server_instance \<Rightarrow> 'b server_instance res option" where
  "ServerInstance_destructor i =
     map_option (\<lambda>r. bind_res r (\<lambda>m. Inr (i\<lparr>listener := None, matcher := m\<rparr>)))
       (ResourceMatcher_destructor (matcher i))"

text \<open>
  The body of \<open>~ServerImpl\<close> deletes the listener base after stopping a started server; then the
  members are destroyed, the application and then the thread \<open>main_\<close>. An exception that leaves a
  destructor, and the destruction of a thread that is still joinable, terminate the program. What
  the result still holds of bases, threads and the admin server was never released.
\<close>

datatype destruction = Destroyed server_impl | Terminated

definition destroy_members :: "server_impl \<Rightarrow> destruction res option" where
  "destroy_members s =
     map_option (\<lambda>r. bind_res r (\<lambda>app.
         Inr (if main_joinable s then Terminated else Destroyed (s\<lparr>application := app\<rparr>))))
       (ServerInstance_destructor (application s))"

definition ServerImpl_destructor ::
    "(listener_op \<Rightarrow> exn option) \<Rightarrow> server_impl \<Rightarrow> destruction res option" where
  "ServerImpl_destructor net s =
     (if started s
      then (case stopAndWait net s of
              Inl f \<Rightarrow> Some (Inl f)
            | Inr (Some e, s') \<Rightarrow> Some (Inr Terminated)
            | Inr (None, s') \<Rightarrow> destroy_members s')
      else destroy_members s)"

section \<open>Server objects\<close>

type_synonym server_heap = "nat \<rightharpoonup> server_impl"

text \<open>A \<open>Server\<close> is its only member.\<close>

record server_object = internal :: nat

definition validateAddr :: "(string \<Rightarrow> bool) \<Rightarrow> string \<Rightarrow> bool" where
  "validateAddr inet_aton ip = inet_aton ip"

text \<open>The constructor; \<open>a\<close> is the address the allocation yields.\<close>

definition Server_construct ::
    "(string \<Rightarrow> bool) \<Rightarrow> server_heap \<Rightarrow> nat \<Rightarrow> string \<Rightarrow> 16 word \<Rightarrow> (server_object \<times> server_heap) res" where
  "Server_construct inet_aton h a ip p =
     (if \<not> validateAddr inet_aton ip then Inl (Throw (Invalid_argument (''Invalid address '' @ ip)))
      else Inr (\<lparr>internal = a\<rparr>, h(a \<mapsto> ServerImpl ip p)))"

text \<open>The methods: \<open>internal_->...\<close>.\<close>

definition Server_forward ::
    "string \<Rightarrow> (listener_op \<Rightarrow> exn option) \<Rightarrow> server_heap \<Rightarrow> server_object \<Rightarrow> server_call \<Rightarrow>
     (outcome \<times> server_heap) res" where
  "Server_forward serialize net h obj c =
     (case h (internal obj) of
        None \<Rightarrow> Inl Undef
      | Some s \<Rightarrow>
          bind_res (server_method serialize net s c) (\<lambda>(out, s'). Inr (out, h(internal obj \<mapsto> s'))))"

text \<open>The destructor: \<open>delete internal_\<close>. The boolean tells whether the program goes on.\<close>

definition Server_destructor ::
    "(listener_op \<Rightarrow> exn option) \<Rightarrow> server_heap \<Rightarrow> server_object \<Rightarrow> (bool \<times> server_heap) res option" where
  "Server_destructor net h obj =
     (case h (internal obj) of
        None \<Rightarrow> Some (Inl Undef)
      | Some s \<Rightarrow>
          map_option (\<lambda>r. bind_res r (\<lambda>d.
              Inr (case d of Terminated \<Rightarrow> (False, h) | Destroyed s' \<Rightarrow> (True, h(internal obj := None)))))
            (ServerImpl_destructor net s))"

text \<open>The copy constructor the compiler generates copies the pointer.\<close>

definition Server_copy :: "server_object \<Rightarrow> server_object" where
  "Server_copy obj = \<lparr>internal = internal obj\<rparr>"

section \<open>Destroying the trie\<close>

lemma ResourceMatcher_destructor_correct:
  assumes "wf_matcher m"
  shows "\<exists>m'. ResourceMatcher_destructor m = Some (Inr m') \<and> store m' = Map.empty"
proof -
  from clear_correct [OF assms] obtain m1 n where
    m1: "clear m = Some (Inr m1)" "dom (store m1) = {head_addr}"
    "store m1 head_addr = Some n" "children n = []"
    by (auto simp: cleared_node_def)
  have "store m1 a = None" if "a \<noteq> head_addr" for a using m1(2) that by blast
  then have "(store m1)(head_addr := None) = Map.empty" by auto
  with m1 show ?thesis
    by (simp add: ResourceMatcher_destructor_def delete_node_def load_def)
qed

lemma ServerInstance_destructor_correct:
  assumes "wf_matcher (matcher i)"
  shows "\<exists>m. ServerInstance_destructor i = Some (Inr (i\<lparr>listener := None, matcher := m\<rparr>)) \<and>
    store m = Map.empty"
  using ResourceMatcher_destructor_correct [OF assms] by (auto simp: ServerInstance_destructor_def)

lemma destroy_members_correct:
  assumes "wf_matcher (matcher (application s))" "\<not> main_joinable s"
  shows "\<exists>m. destroy_members s = Some (Inr (Destroyed (s\<lparr>application :=
      (application s)\<lparr>listener := None, matcher := m\<rparr>\<rparr>))) \<and> store m = Map.empty"
  using ServerInstance_destructor_correct [OF assms(1)] assms(2) by (auto simp: destroy_members_def)

lemma ServerImpl_destructor_correct:
  assumes inv: "server_inv s" and "waiting s = 0" and "pending_fault net s = None"
  shows "\<exists>s'. ServerImpl_destructor net s = Some (Inr (Destroyed s')) \<and>
    store (matcher (application s')) = Map.empty \<and> listener (application s') = None \<and>
    live_bases s' = (if started s then [] else live_bases s) \<and>
    admin_server s' = (if started s \<and> \<not> shutdown s then None else admin_server s)"
proof -
  have wf: "wf_matcher (matcher (application s))" using inv by (simp add: server_inv_def matchers_inv_def)
  show ?thesis
  proof (cases "started s \<and> \<not> shutdown s")
    case True
    have "wf_matcher (matcher (application (after_stop s)))" "\<not> main_joinable (after_stop s)"
      using wf by (simp_all add: after_stop_def instance_stop_def)
    from destroy_members_correct [OF this] True stopAndWait_running [OF inv, of net] assms(2,3)
    show ?thesis by (auto simp: ServerImpl_destructor_def) (simp_all add: after_stop_def)
  next
    case False
    have p: "\<not> main_joinable s" "started s \<longrightarrow> live_bases s = []"
      using inv False by (auto simp: server_inv_def phase_inv_def split: if_splits)
    have "ServerImpl_destructor net s = destroy_members s"
      using False by (auto simp: ServerImpl_destructor_def stopAndWait_def)
    with destroy_members_correct [OF wf p(1)] p(2) False show ?thesis by auto
  qed
qed

lemma Server_destructor_correct:
  assumes "h (internal obj) = Some s" "server_inv s" "waiting s = 0" "pending_fault net s = None"
  shows "Server_destructor net h obj = Some (Inr (True, h(internal obj := None)))"
  using ServerImpl_destructor_correct [OF assms(2-4)] assms(1) by (auto simp: Server_destructor_def)

section \<open>Properties\<close>



text \<open>A \<open>Server\<close> object owns its implementation alone: after it is destroyed, its address is free, and a
  copy of the object, which the class does not forbid, has a dangling pointer, so that calling any
  of its methods or destroying it is undefined.\<close>

theorem copy_dangles:
  assumes "Server_construct inet_aton h a ip p = Inr (obj, h1)"
    and "Server_destructor net h1 obj = Some (Inr (True, h2))"
  shows "h2 = h1(a := None) \<and> Server_forward serialize net' h2 (Server_copy obj) c = Inl Undef \<and>
    Server_destructor net' h2 (Server_copy obj) = Some (Inl Undef)"
proof -
  have a: "internal obj = a" using assms(1) by (auto simp: Server_construct_def split: if_splits)
  have "h2 = h1(a := None)"
    using assms(2) a
    by (auto simp: Server_destructor_def bind_res_Inr_iff split: option.splits destruction.splits if_splits)
      (metis destruction.exhaust)
  then show ?thesis by (simp add: Server_forward_def Server_destructor_def Server_copy_def a)
qed

theorem copy_dangles_witness:
  "\<exists>obj h1 h2. Server_construct (\<lambda>_. True) Map.empty 0 ''127.0.0.1'' 80 = Inr (obj, h1) \<and>
     Server_destructor (\<lambda>_. None) h1 obj = Some (Inr (True, h2)) \<and>
     Server_destructor (\<lambda>_. None) h2 (Server_copy obj) = Some (Inl Undef)"
proof -
  let ?s = "ServerImpl ''127.0.0.1'' 80" and ?obj = "\<lparr>internal = 0\<rparr>"
  let ?h1 = "Map.empty(0 \<mapsto> ?s)"
  have c: "Server_construct (\<lambda>_. True) Map.empty 0 ''127.0.0.1'' 80 = Inr (?obj, ?h1)"
    by (simp add: Server_construct_def validateAddr_def)
  have "waiting ?s = 0" "pending_fault (\<lambda>_. None) ?s = None"
    by (simp_all add: ServerImpl_def pending_fault_def)
  from Server_destructor_correct [OF _ server_inv_new this, of ?h1 ?obj]
  have d: "Server_destructor (\<lambda>_. None) ?h1 ?obj = Some (Inr (True, ?h1(0 := None)))" by simp
  from copy_dangles [OF c d] c d show ?thesis by blast
qed

end
