(* ===== verification/Hello_Main.thy ===== *)
theory Hello_Main
  imports Hello_Server Server_Object
begin

text \<open>
  \<open>main\<close> of \<open>example/hello_server.cc\<close>: it reads the port from the command line, constructs a
  \<open>Server\<close>, registers the five resources, starts the server and an admin server, and waits. An
  exception that leaves \<open>main\<close> ends the program: \<open>Inl (Throw e)\<close>.
\<close>

section \<open>The program\<close>

text \<open>\<open>atoi\<close>: blanks, a sign, digits; 0 without digits, undefined when the value is no \<open>int\<close>.\<close>

definition int_max :: int where "int_max = 2 ^ 31 - 1"
definition int_min :: int where "int_min = - (2 ^ 31)"

definition atoi :: "string \<Rightarrow> int res" where
  "atoi s =
     (let (neg, r) = sign_of (dropWhile is_space s);
          n = int (digits_val (takeWhile is_digit r));
          v = (if neg then - n else n)
      in if v < int_min \<or> int_max < v then Inl Undef else Inr v)"

text \<open>The port: an \<open>int16_t\<close>, to which the result of \<open>atoi\<close> is converted. \<open>argv\<close> has the name of the
  program first.\<close>

definition main_port :: "string list \<Rightarrow> 16 word res" where
  "main_port argv =
     (if length argv = 2 then bind_res (atoi (argv ! 1)) (\<lambda>v. Inr (word_of_int v)) else Inr 31337)"

definition main_calls :: "server_call list" where
  "main_calls =
     map RegisterResource hello_resources @ [Start, StartAdminServer ''127.0.0.1'' 0, Wait]"

text \<open>\<open>main\<close> returns after \<open>wait\<close> did, having destroyed the server, or blocks in it.\<close>

datatype main_result = Exit int | Aborted | Blocked_with server_object server_heap

definition hello_main ::
    "(string \<Rightarrow> bool) \<Rightarrow> string \<Rightarrow> (listener_op \<Rightarrow> exn option) \<Rightarrow> string list \<Rightarrow> main_result res option" where
  "hello_main inet_aton serialize net argv =
     (case bind_res (main_port argv) (\<lambda>p.
             bind_res (Server_construct inet_aton Map.empty 0 ''127.0.0.1'' p) (\<lambda>(obj, h).
             bind_res (script (\<lambda>out. out = Returned)
                 (\<lambda>h c. Server_forward serialize net h obj c) h main_calls) (\<lambda>(out, h'). Inr (obj, out, h')))) of
        Inl f \<Rightarrow> Some (Inl f)
      | Inr (obj, Some (Threw e), h) \<Rightarrow> Some (Inl (Throw e))
      | Inr (obj, Some out, h) \<Rightarrow> Some (Inr (Blocked_with obj h))
      | Inr (obj, None, h) \<Rightarrow>
          map_option (\<lambda>r. bind_res r (\<lambda>(ok, h'). Inr (if ok then Exit 0 else Aborted)))
            (Server_destructor net h obj))"

section \<open>Calls through a \<open>Server\<close>\<close>

text \<open>A \<open>Server\<close> whose implementation exists forwards to it and leaves the other servers alone.\<close>

interpretation forwarding: refinement
    "\<lambda>h c. Server_forward serialize net h obj c" "\<lambda>h. h (internal obj) \<noteq> None"
    "\<lambda>h. the (h (internal obj))" "server_method serialize net"
  for serialize net obj
proof unfold_locales
  fix h c out h'
  assume "Server_forward serialize net h obj c = Inr (out, h')"
  then show "h' (internal obj) \<noteq> None"
    by (auto simp: Server_forward_def bind_res_Inr_iff split: option.splits)
next
  fix h :: server_heap and c
  assume "h (internal obj) \<noteq> None"
  then show "bind_res (Server_forward serialize net h obj c) (\<lambda>(out, h'). Inr (out, the (h' (internal obj)))) =
      server_method serialize net (the (h (internal obj))) c"
    by (cases "server_method serialize net (the (h (internal obj))) c") (auto simp: Server_forward_def)
qed

lemma forward_frame:
  "Server_forward serialize net h obj c = Inr (out, h') \<Longrightarrow> a \<noteq> internal obj \<Longrightarrow> h' a = h a"
  by (auto simp: Server_forward_def bind_res_Inr_iff split: option.splits)

text \<open>The calls alone are also events of the machine of a server.\<close>

interpretation server_calls: refinement "server_method serialize net" server_inv server_abs "spec_method net"
  for serialize net
proof unfold_locales
  fix s c out s'
  show "server_inv s \<Longrightarrow> server_method serialize net s c = Inr (out, s') \<Longrightarrow> server_inv s'"
    using server_event_inv [of s serialize "Call net c" out s'] by simp
  show "server_inv s \<Longrightarrow> bind_res (server_method serialize net s c) (\<lambda>(out, s'). Inr (out, server_abs s')) =
      spec_method net (server_abs s) c"
    using server_event_refines [of s serialize "Call net c"] by simp
qed

section \<open>The calls of \<open>main\<close> on the abstract machine\<close>

lemma script_register:
  assumes "distinct (map (\<lambda>r. template (path r)) rs)"
    and "\<forall>r\<in>set rs. table t (template (path r)) = None"
  shows "script (\<lambda>out. out = Returned) (spec_method net) t (map RegisterResource rs @ cs) =
    script (\<lambda>out. out = Returned) (spec_method net) (t\<lparr>table := table t ++ routes_of rs\<rparr>) cs"
  using assms
proof (induction rs arbitrary: t)
  case (Cons r rs)
  let ?x = "template (path r)" and ?v = "(r, Some (bindMethods r))"
  have "?x \<notin> dom (routes_of rs)"
    using Cons.prems(1) by (auto simp: routes_of_def dom_map_of_conv_image_fst)
  then have "(table t)(?x \<mapsto> ?v) ++ routes_of rs = table t ++ routes_of (r # rs)"
    by (simp add: routes_of_def map_add_upd_left)
  moreover have "\<forall>r'\<in>set rs. table (t\<lparr>table := (table t)(?x \<mapsto> ?v)\<rparr>) (template (path r')) = None"
  proof
    fix r'
    assume r': "r' \<in> set rs"
    have "?x \<notin> (\<lambda>r. template (path r)) ` set rs" using Cons.prems(1) by simp
    with imageI [OF r', of "\<lambda>r. template (path r)"] have "template (path r') \<noteq> ?x" by metis
    with r' Cons.prems(2) show "table (t\<lparr>table := (table t)(?x \<mapsto> ?v)\<rparr>) (template (path r')) = None" by auto
  qed
  ultimately show ?case using Cons by simp
qed (simp add: routes_of_def)

lemma main_calls_spec:
  "script (\<lambda>out. out = Returned) (spec_method net) (spec_new ip p) main_calls =
     (case listen_fault net ip p of
        Some e \<Rightarrow> Inr (Some (Threw e), (spec_new ip p)\<lparr>phase := Failed, table := routes hello_matcher\<rparr>)
      | None \<Rightarrow> Inr (Some Blocked,
          \<lparr>phase = Running, address = (ip, p), waiter = True, admin = Requested ''127.0.0.1'' 0,
           table = routes hello_matcher\<rparr>))"
proof -
  have d: "distinct (map (\<lambda>r. template (path r)) hello_resources)" unfolding hello_templates by simp
  show ?thesis
    unfolding main_calls_def
    by (subst script_register [OF d]) (simp_all add: spec_new_def hello_registered(3) split: option.split)
qed

text \<open>Hence the calls of \<open>main\<close> on a server object.\<close>

lemma main_calls_forwarded:
  "bind_res (script (\<lambda>out. out = Returned) (\<lambda>h c. Server_forward serialize net h \<lparr>internal = a\<rparr> c)
       (Map.empty(a \<mapsto> ServerImpl ip p)) main_calls)
     (\<lambda>(out, h). Inr (out, server_abs (the (h a)))) =
   script (\<lambda>out. out = Returned) (spec_method net) (spec_new ip p) main_calls"
proof -
  let ?go = "\<lambda>out. out = Returned" and ?s = "ServerImpl ip p"
  let ?fwd = "script ?go (\<lambda>h c. Server_forward serialize net h \<lparr>internal = a\<rparr> c) (Map.empty(a \<mapsto> ?s)) main_calls"
  have "bind_res ?fwd (\<lambda>(out, h). Inr (out, the (h a))) = script ?go (server_method serialize net) ?s main_calls"
    using forwarding.scripts_agree [where obj = "\<lparr>internal = a\<rparr>" and s = "Map.empty(a \<mapsto> ?s)"] by simp
  moreover have "bind_res (script ?go (server_method serialize net) ?s main_calls)
      (\<lambda>(out, s'). Inr (out, server_abs s')) = script ?go (spec_method net) (spec_new ip p) main_calls"
    using server_calls.scripts_agree [OF server_inv_new] unfolding server_abs_new .
  ultimately have "bind_res (bind_res ?fwd (\<lambda>(out, h). Inr (out, the (h a))))
      (\<lambda>(out, s'). Inr (out, server_abs s')) = script ?go (spec_method net) (spec_new ip p) main_calls"
    by (simp only:)
  then show ?thesis by (simp add: bind_res_assoc split_def)
qed

lemma forward_single:
  assumes "Server_forward serialize net (Map.empty(a \<mapsto> s)) \<lparr>internal = a\<rparr> c = Inr (out, h')" "server_inv s"
  shows "\<exists>s'. h' = Map.empty(a \<mapsto> s') \<and> server_inv s'"
proof -
  from assms(1) obtain s' where s': "server_method serialize net s c = Inr (out, s')" "h' = Map.empty(a \<mapsto> s')"
    by (auto simp: Server_forward_def bind_res_Inr_iff)
  from server_event_inv [OF assms(2), of serialize "Call net c"] s' show ?thesis by auto
qed

lemma main_calls_heap:
  assumes "script go (\<lambda>h c. Server_forward serialize net h \<lparr>internal = a\<rparr> c) (Map.empty(a \<mapsto> s)) cs = Inr (out, h')"
    and "server_inv s"
  shows "\<exists>s'. h' = Map.empty(a \<mapsto> s') \<and> server_inv s'"
  by (rule script_invariant [where P = "\<lambda>h. \<exists>s'. h = Map.empty(a \<mapsto> s') \<and> server_inv s'", OF assms(1)])
     (use assms(2) forward_single in \<open>blast+\<close>)

section \<open>Properties\<close>

text \<open>C18: The example program works: with a port that parses, \<open>main\<close> either ends with the exception of the
  listener, or blocks in \<open>wait\<close> with a running server at that port that has exactly the five routes
  and whose admin server waits for the loop; that server greets every user: a GET request for
  \<open>/u\<close>, for any non-empty \<open>u\<close> without a slash, is answered with \<open>Hello, u\<close>.\<close>

theorem hello_main_serves:
  assumes "inet_aton ''127.0.0.1''" and "main_port argv = Inr p"
  shows "case listen_fault net ''127.0.0.1'' p of
      Some e \<Rightarrow> hello_main inet_aton serialize net argv = Some (Inl (Throw e))
    | None \<Rightarrow> \<exists>s. hello_main inet_aton serialize net argv =
          Some (Inr (Blocked_with \<lparr>internal = 0\<rparr> (Map.empty(0 \<mapsto> s)))) \<and>
        server_abs s = \<lparr>phase = Running, address = (''127.0.0.1'', p), waiter = True,
          admin = Requested ''127.0.0.1'' 0, table = routes hello_matcher\<rparr> \<and>
        (\<forall>pf b req u. matcher_set (set_first pf) \<longrightarrow> build (mm_ins pf) (url_parse pf) b 1 = Inr req \<longrightarrow>
           rpath req = CHR ''/'' # u \<longrightarrow> u \<noteq> [] \<longrightarrow> CHR ''/'' \<notin> set u \<longrightarrow>
           get_response pf (matcher (application s)) b 1 = Inr (Response OK TEXT_PLAIN (''Hello, '' @ u @ newline)))"
proof -
  let ?h = "Map.empty(0 \<mapsto> ServerImpl ''127.0.0.1'' p) :: server_heap"
  let ?fwd = "script (\<lambda>out. out = Returned)
      (\<lambda>h c. Server_forward serialize net h \<lparr>internal = 0\<rparr> c) ?h main_calls"
  have main: "hello_main inet_aton serialize net argv =
    (case bind_res ?fwd (\<lambda>(out, h'). Inr (\<lparr>internal = 0\<rparr>, out, h')) of
        Inl f \<Rightarrow> Some (Inl f)
      | Inr (obj, Some (Threw e), h) \<Rightarrow> Some (Inl (Throw e))
      | Inr (obj, Some out, h) \<Rightarrow> Some (Inr (Blocked_with obj h))
      | Inr (obj, None, h) \<Rightarrow>
          map_option (\<lambda>r. bind_res r (\<lambda>(ok, h'). Inr (if ok then Exit 0 else Aborted)))
            (Server_destructor net h obj))"
    using assms by (simp add: hello_main_def Server_construct_def validateAddr_def)
  note calls = main_calls_forwarded [of serialize net 0 "''127.0.0.1''" p]
  show ?thesis
  proof (cases "listen_fault net ''127.0.0.1'' p")
    case (Some e)
    with calls obtain h where "?fwd = Inr (Some (Threw e), h)"
      by (auto simp: main_calls_spec bind_res_Inr_iff)
    with main Some show ?thesis by simp
  next
    case None
    with calls obtain h where h: "?fwd = Inr (Some Blocked, h)"
      "server_abs (the (h 0)) = \<lparr>phase = Running, address = (''127.0.0.1'', p), waiter = True,
          admin = Requested ''127.0.0.1'' 0, table = routes hello_matcher\<rparr>"
      by (auto simp: main_calls_spec bind_res_Inr_iff)
    from main_calls_heap [OF h(1) server_inv_new] obtain s where s: "h = Map.empty(0 \<mapsto> s)" "server_inv s"
      by blast
    have "serves_hello (matcher (application s))"
      using h(2) s by (simp add: serves_hello_def server_abs_def server_inv_def matchers_inv_def)
    from user_greeted [OF this] None main h s(1) show ?thesis by auto
  qed
qed

theorem hello_main_serves_witness:
  "main_port [''hello_server'', ''8080''] = Inr 8080 \<and>
   (\<exists>s. hello_main (\<lambda>_. True) ''{}'' (\<lambda>_. None) [''hello_server'', ''8080''] =
        Some (Inr (Blocked_with \<lparr>internal = 0\<rparr> (Map.empty(0 \<mapsto> s)))) \<and>
      get_response tree_platform (matcher (application s)) (RequestBuilder\<lparr>url := ''/bob?x=1''\<rparr>) 1 =
        Inr (Response OK TEXT_PLAIN (''Hello, bob'' @ newline)))"
proof -
  let ?b = "RequestBuilder\<lparr>url := ''/bob?x=1''\<rparr>"
  have "atoi ''8080'' = Inr 8080"
    by (simp add: atoi_def int_min_def int_max_def is_space_def is_digit_def digits_val_def digit_val_def)
  then have p: "main_port [''hello_server'', ''8080''] = Inr 8080" by (simp add: main_port_def)
  have "split_url ''/bob?x=1'' = Some \<lparr>path_field = Some (0, 4), query_field = Some (5, 3)\<rparr>"
    "string_slice ''/bob?x=1'' (0, 4) = Inr ''/bob''"
    "bind_res (string_slice ''/bob?x=1'' (5, 3)) (parseQueryParameters insert_back) = Inr [(''x'', ''1'')]"
    by code_simp+
  then obtain req where req: "build (mm_ins tree_platform) (url_parse tree_platform) ?b 1 = Inr req"
    "rpath req = CHR ''/'' # ''bob''"
    by (simp add: tree_platform_def build_def convertMethod_def Request_def)
  have set: "matcher_set (set_first tree_platform)"
    using match_rb.matcher_set_axioms by (simp add: tree_platform_def)
  have "listen_fault (\<lambda>_. None) ''127.0.0.1'' 8080 = None" by (simp add: listen_fault_def)
  with hello_main_serves [where inet_aton = "\<lambda>_. True" and net = "\<lambda>_. None" and serialize = "''{}''", OF _ p]
  obtain s where
    s: "hello_main (\<lambda>_. True) ''{}'' (\<lambda>_. None) [''hello_server'', ''8080''] =
        Some (Inr (Blocked_with \<lparr>internal = 0\<rparr> (Map.empty(0 \<mapsto> s))))"
    "\<forall>pf b req u. matcher_set (set_first pf) \<longrightarrow> build (mm_ins pf) (url_parse pf) b 1 = Inr req \<longrightarrow>
       rpath req = CHR ''/'' # u \<longrightarrow> u \<noteq> [] \<longrightarrow> CHR ''/'' \<notin> set u \<longrightarrow>
       get_response pf (matcher (application s)) b 1 = Inr (Response OK TEXT_PLAIN (''Hello, '' @ u @ newline))"
    by auto
  have "get_response tree_platform (matcher (application s)) ?b 1 =
      Inr (Response OK TEXT_PLAIN (''Hello, '' @ ''bob'' @ newline))"
    by (rule s(2) [rule_format, OF set req]) simp_all
  with p s(1) show ?thesis by (intro conjI exI [of _ s]) simp_all
qed

end
