(* ===== verification/Ephemeral_Ports.thy ===== *)
theory Ephemeral_Ports
  imports Prelude "HOL-Library.Word"
begin

text \<open>
  \<open>test/util.h\<close> and \<open>test/util.cc\<close>: the supplier of ephemeral ports the tests use. The ports are
  16-bit signed integers, so the constants 49152 and 65535 are negative numbers; the loop that
  fills the vector counts from the one to the other, and the ports it yields are those of the
  ephemeral range when they are read as unsigned. They are shuffled, with \<open>draw i\<close> for the
  random number the generator draws from \<open>0..i\<close>, and then supplied cyclically.
\<close>

section \<open>The supplier of the code\<close>

definition kBegin :: "16 word" where "kBegin = 49152"
definition kEnd :: "16 word" where "kEnd = 65535"

record ephemeral_ports =
  ports :: "16 word list"
  port_cur :: nat

text \<open>The filling loop; the measure holds because the counter is negative while it runs.\<close>

lemma sint_succ:
  assumes "sint (i :: 16 word) < 0"
  shows "sint (i + 1) = sint i + 1"
proof -
  have "- 32768 \<le> sint i" using sint_ge [of i] by simp
  then have "signed_take_bit 15 (sint i + 1) = sint i + 1"
    using assms by (intro signed_take_bit_int_eq_self) simp_all
  then show ?thesis by (simp add: sint_word_ariths)
qed

lemma sint_kEnd: "sint kEnd = - 1"
  by (simp add: kEnd_def)

function fill_ports :: "16 word \<Rightarrow> 16 word list \<Rightarrow> 16 word list" where
  "fill_ports i ps = (if sint i \<le> sint kEnd then fill_ports (i + 1) (ps @ [i]) else ps)"
  by pat_completeness auto
termination
  by (relation "measure (\<lambda>(i, ps). nat (- sint i))") (auto simp: sint_kEnd sint_succ)

declare fill_ports.simps [simp del]

definition swap_at :: "'a list \<Rightarrow> nat \<Rightarrow> nat \<Rightarrow> 'a list res" where
  "swap_at v i j =
     (if i < length v \<and> j < length v then Inr (v[i := v ! j, j := v ! i]) else Inl Undef)"

fun shuffle :: "(nat \<Rightarrow> nat) \<Rightarrow> nat \<Rightarrow> 'a list \<Rightarrow> 'a list res" where
  "shuffle draw 0 v = Inr v"
| "shuffle draw (Suc i) v = bind_res (swap_at v (Suc i) (draw (Suc i))) (shuffle draw i)"

definition EphemeralPorts :: "(nat \<Rightarrow> nat) \<Rightarrow> ephemeral_ports res" where
  "EphemeralPorts draw =
     (let v = fill_ports kBegin [] in
      bind_res (shuffle draw (length v - 1) v) (\<lambda>v'. Inr \<lparr>ports = v', port_cur = 0\<rparr>))"

text \<open>The increment of the cyclic iterator, and \<open>get\<close>.\<close>

definition cyclic_increment :: "'a list \<Rightarrow> nat \<Rightarrow> nat" where
  "cyclic_increment v i = (if i + 1 = length v then 0 else i + 1)"

definition EphemeralPorts_get :: "ephemeral_ports \<Rightarrow> (16 word \<times> ephemeral_ports) res" where
  "EphemeralPorts_get e =
     (if port_cur e < length (ports e)
      then Inr (ports e ! port_cur e, e\<lparr>port_cur := cyclic_increment (ports e) (port_cur e)\<rparr>)
      else Inl Undef)"

section \<open>Filling and shuffling\<close>

lemma sint_ephemeral:
  assumes "49152 \<le> k" "k < 65536"
  shows "sint (word_of_nat k :: 16 word) = int k - 65536"
proof -
  have "sint (word_of_nat k :: 16 word) = signed_take_bit 15 (int k)" by (simp add: signed_of_nat)
  also have "\<dots> = signed_take_bit 15 (int k - 65536)"
    by (simp add: signed_take_bit_eq_iff_take_bit_eq take_bit_eq_mod mod_diff_right_eq [symmetric])
  also have "\<dots> = int k - 65536" using assms by (intro signed_take_bit_int_eq_self) simp_all
  finally show ?thesis .
qed

text \<open>The ports of the ephemeral range, in order.\<close>

definition ephemeral_range :: "16 word list" where
  "ephemeral_range = map word_of_nat [49152..<65536]"

lemma length_ephemeral_range: "length ephemeral_range = 16384"
proof -
  have "length ephemeral_range = 65536 - 49152"
    unfolding ephemeral_range_def by (simp only: length_map length_upt)
  then show ?thesis by simp
qed

lemma fill_ports_from:
  "n \<le> 16384 \<Longrightarrow>
     fill_ports (word_of_nat (65536 - n)) ps = ps @ map word_of_nat [65536 - n..<65536]"
proof (induction n arbitrary: ps)
  case 0
  have "(65536 :: 16 word) = 0" by simp
  then show ?case by (subst fill_ports.simps) (simp add: sint_kEnd)
next
  case (Suc n)
  let ?k = "65536 - Suc n"
  have k: "49152 \<le> ?k" "?k < 65536" "?k + 1 = 65536 - n" using Suc.prems by auto
  have "fill_ports (word_of_nat ?k) ps = fill_ports (word_of_nat ?k + 1) (ps @ [word_of_nat ?k])"
    by (subst fill_ports.simps) (use sint_ephemeral [OF k(1,2)] k(2) in \<open>simp add: sint_kEnd\<close>)
  also have "word_of_nat ?k + 1 = (word_of_nat (65536 - n) :: 16 word)"
    unfolding k(3) [symmetric] by simp
  also have "fill_ports (word_of_nat (65536 - n)) (ps @ [word_of_nat ?k]) =
      (ps @ [word_of_nat ?k]) @ map word_of_nat [65536 - n..<65536]"
    using Suc by simp
  also have "\<dots> = ps @ map word_of_nat (?k # [65536 - n..<65536])"
    by (simp only: append_assoc append_Cons append_Nil list.map)
  also have "?k # [65536 - n..<65536] = [?k..<65536]"
    using upt_conv_Cons [OF k(2)] unfolding k(3) [symmetric] by (simp only: Suc_eq_plus1)
  finally show ?case .
qed

lemma fill_ports_kBegin: "fill_ports kBegin [] = ephemeral_range"
proof -
  have n: "65536 - 16384 = (49152 :: nat)" by simp
  have "fill_ports (word_of_nat (65536 - 16384)) [] = [] @ map word_of_nat [65536 - 16384..<65536]"
    by (rule fill_ports_from) (rule order_refl)
  then show ?thesis unfolding n
    by (simp only: kBegin_def ephemeral_range_def append_Nil of_nat_numeral)
qed

lemma mset_swap_at: "swap_at v i j = Inr v' \<Longrightarrow> mset v' = mset v \<and> length v' = length v"
  by (auto simp: swap_at_def mset_swap split: if_splits)

lemma shuffle_correct:
  assumes "\<And>i. draw i \<le> i"
  shows "i < length v \<Longrightarrow> \<exists>v'. shuffle draw i v = Inr v' \<and> mset v' = mset v"
proof (induction i arbitrary: v)
  case (Suc i)
  have "draw (Suc i) < length v" using assms [of "Suc i"] Suc.prems by simp
  then obtain v1 where v1: "swap_at v (Suc i) (draw (Suc i)) = Inr v1"
    using Suc.prems by (simp add: swap_at_def)
  with mset_swap_at [OF v1] Suc.IH [of v1] Suc.prems show ?case by auto
qed simp

section \<open>Supplying\<close>

text \<open>The ports of \<open>k\<close> calls, one after the other.\<close>

fun get_ports :: "nat \<Rightarrow> ephemeral_ports \<Rightarrow> (16 word list \<times> ephemeral_ports) res" where
  "get_ports 0 e = Inr ([], e)"
| "get_ports (Suc k) e =
     bind_res (EphemeralPorts_get e) (\<lambda>(p, e'). bind_res (get_ports k e') (\<lambda>(ps, e''). Inr (p # ps, e'')))"

lemma cyclic_increment_mod: "i < length v \<Longrightarrow> cyclic_increment v i = (i + 1) mod length v"
  by (auto simp: cyclic_increment_def)

lemma get_ports_cycle:
  "port_cur e < length (ports e) \<Longrightarrow>
     get_ports k e = Inr (map (\<lambda>i. ports e ! ((port_cur e + i) mod length (ports e))) [0..<k],
                          e\<lparr>port_cur := (port_cur e + k) mod length (ports e)\<rparr>)"
proof (induction k arbitrary: e)
  case (Suc k)
  let ?n = "length (ports e)"
  let ?e = "e\<lparr>port_cur := (port_cur e + 1) mod ?n\<rparr>"
  have n: "0 < ?n" using Suc.prems by auto
  have g: "EphemeralPorts_get e = Inr (ports e ! port_cur e, ?e)"
    using Suc.prems by (simp add: EphemeralPorts_get_def cyclic_increment_mod)
  have shift: "((port_cur e + 1) mod ?n + i) mod ?n = (port_cur e + Suc i) mod ?n" for i
    by (simp only: mod_add_left_eq) (simp add: add.commute)
  have "get_ports k ?e = Inr (map (\<lambda>i. ports ?e ! ((port_cur ?e + i) mod length (ports ?e))) [0..<k],
      ?e\<lparr>port_cur := (port_cur ?e + k) mod length (ports ?e)\<rparr>)"
    using n by (intro Suc.IH) simp
  moreover have "ports ?e = ports e" "port_cur ?e = (port_cur e + 1) mod ?n" by simp_all
  moreover have "?e\<lparr>port_cur := x\<rparr> = e\<lparr>port_cur := x\<rparr>" for x by simp
  ultimately have "get_ports k ?e = Inr (map (\<lambda>i. ports e ! ((port_cur e + Suc i) mod ?n)) [0..<k],
      e\<lparr>port_cur := (port_cur e + Suc k) mod ?n\<rparr>)"
    by (simp only: shift)
  with g show ?case
    using Suc.prems unfolding get_ports.simps map_upt_Suc by simp
qed (simp add: mod_less)

section \<open>Properties\<close>

text \<open>The supplier is built without leaving the vector, and from any state it reaches, as many calls as
  there are ports supply every port from 49152 to 65535 exactly once and lead back to that state.\<close>

theorem ephemeral_ports_cycle:
  assumes "\<And>i. draw i \<le> i"
  shows "\<exists>e. EphemeralPorts draw = Inr e \<and>
    (\<exists>ps e'. get_ports k e = Inr (ps, e') \<and>
      (\<exists>qs. get_ports 16384 e' = Inr (qs, e') \<and> mset qs = mset ephemeral_range))"
proof -
  let ?v = ephemeral_range
  obtain v where v: "shuffle draw (length ?v - 1) ?v = Inr v" "mset v = mset ?v"
    using shuffle_correct [OF assms, of "length ?v - 1" ?v] by (auto simp: length_ephemeral_range)
  let ?e = "\<lparr>ports = v, port_cur = 0\<rparr>"
  have len: "length v = 16384" using mset_eq_length [OF v(2)] by (simp only: length_ephemeral_range)
  have e: "EphemeralPorts draw = Inr ?e"
    using v(1) by (simp add: EphemeralPorts_def fill_ports_kBegin)
  let ?e' = "?e\<lparr>port_cur := k mod 16384\<rparr>"
  have "get_ports k ?e = Inr (map (\<lambda>i. v ! (i mod 16384)) [0..<k], ?e')"
    using get_ports_cycle [of ?e k] len by simp
  moreover have "get_ports 16384 ?e' = Inr (map (\<lambda>i. v ! ((k mod 16384 + i) mod 16384)) [0..<16384], ?e')"
    using get_ports_cycle [of ?e' 16384] len by simp
  moreover have "mset (map (\<lambda>i. v ! ((k mod 16384 + i) mod 16384)) [0..<16384]) = mset ?v"
    using mset_cycle [of v "k mod 16384"] unfolding len v(2) .
  ultimately show ?thesis using e by blast
qed

theorem ephemeral_ports_cycle_witness:
  "\<exists>e. EphemeralPorts (\<lambda>i. i div 2) = Inr e \<and>
     (\<exists>qs. get_ports 16384 e = Inr (qs, e) \<and> mset qs = mset ephemeral_range)"
  using ephemeral_ports_cycle [of "\<lambda>i. i div 2" 0] by auto

end
