(* ===== verification/Unit_Tests.thy ===== *)
theory Unit_Tests
  imports Hello_Main Ephemeral_Ports
begin

text \<open>
  The unit tests of the repository that are compiled (\<open>test/resource_matcher_test.cc\<close>,
  \<open>test/resource_test.cc\<close>, \<open>test/server_test.cc\<close>, \<open>test/util_test.cc\<close>) as functions on the model,
  and what the model says of them. A test yields the results of its checks in order; a failed
  \<open>ASSERT\<close> ends the function it is in, and so does an exception that is not caught, which fails
  the test. Where a test depends on the set implementation, the network or the draws of the
  random generator, the results say for which of them it passes.
\<close>

section \<open>Checks\<close>

type_synonym checks = "bool list res"

definition passed :: "checks \<Rightarrow> bool" where
  "passed t = (case t of Inr bs \<Rightarrow> list_all (\<lambda>b. b) bs | Inl _ \<Rightarrow> False)"

definition in_turn :: "checks list \<Rightarrow> checks" where
  "in_turn cs = fold_res (\<lambda>bs c. bind_res c (\<lambda>bs'. Inr (bs @ bs'))) [] cs"

lemma passed_Inr [simp]: "passed (Inr bs) = list_all (\<lambda>b. b) bs"
  by (simp add: passed_def)

lemma passed_Inl [simp]: "\<not> passed (Inl f)"
  by (simp add: passed_def)

lemma passed_in_turn: "passed (in_turn cs) \<longleftrightarrow> (\<forall>c\<in>set cs. passed c)"
proof -
  have "passed (fold_res (\<lambda>bs c. bind_res c (\<lambda>bs'. Inr (bs @ bs'))) bs cs) \<longleftrightarrow>
      list_all (\<lambda>b. b) bs \<and> (\<forall>c\<in>set cs. passed c)" for bs
  proof (induction cs arbitrary: bs)
    case (Cons c cs)
    show ?case by (cases c) (simp_all add: Cons.IH)
  qed simp
  then show ?thesis by (simp add: in_turn_def)
qed

section \<open>The resource matcher\<close>

definition NoParamResource :: "nat \<Rightarrow> string \<Rightarrow> resource" where
  "NoParamResource a p = Resource a p"

definition OneStringParam_get :: "arg list \<Rightarrow> response res" where
  "OneStringParam_get args =
     (case args of [AString p1] \<Rightarrow> Inr (Response OK TEXT_PLAIN p1) | _ \<Rightarrow> Inl Undef)"

definition OneStringParamResource :: "nat \<Rightarrow> string \<Rightarrow> resource" where
  "OneStringParamResource a p =
     (Resource a p)\<lparr>get_method := \<lparr>signature = [TString], body = OneStringParam_get\<rparr>\<rparr>"

definition TwoStringParam_get :: "arg list \<Rightarrow> response res" where
  "TwoStringParam_get args =
     (case args of
        [AString p1, AString p2] \<Rightarrow> Inr (Response OK TEXT_PLAIN (p1 @ '' '' @ p2))
      | _ \<Rightarrow> Inl Undef)"

definition TwoStringParamResource :: "nat \<Rightarrow> string \<Rightarrow> resource" where
  "TwoStringParamResource a p =
     (Resource a p)\<lparr>get_method := \<lparr>signature = [TString, TString], body = TwoStringParam_get\<rparr>\<rparr>"

text \<open>\<open>addResource(&res, bindMethods(&res))\<close>, which the tests do not expect to throw.\<close>

definition add_to :: "matcher \<Rightarrow> resource \<Rightarrow> matcher res" where
  "add_to m r = bind_res (addResource m r (bindMethods r))
     (\<lambda>(e, m'). case e of Some x \<Rightarrow> Inl (Throw x) | None \<Rightarrow> Inr m')"

text \<open>Resources are compared by their addresses. \<open>get\<close> of an optional without a value is undefined.\<close>

definition same_resource :: "resource \<Rightarrow> resource option \<Rightarrow> bool" where
  "same_resource r r' = (map_option resource.address r' = Some (resource.address r))"

type_synonym set_choice = "(search_state \<Rightarrow> search_state \<Rightarrow> bool) \<Rightarrow> search_state list \<Rightarrow> search_state res"

definition expect_match :: "set_choice \<Rightarrow> matcher \<Rightarrow> string \<Rightarrow> resource \<Rightarrow> checks" where
  "expect_match first m p r = bind_res (matcher_match first m p)
     (\<lambda>mt. case mt of None \<Rightarrow> Inl Undef | Some h \<Rightarrow> Inr [same_resource r (mresource h)])"

definition expect_none :: "set_choice \<Rightarrow> matcher \<Rightarrow> string \<Rightarrow> checks" where
  "expect_none first m p = bind_res (matcher_match first m p) (\<lambda>mt. Inr [Option.is_none mt])"

definition validate :: "set_choice \<Rightarrow> matcher \<Rightarrow> string \<Rightarrow> resource \<Rightarrow> nat \<Rightarrow> checks" where
  "validate first m p expected c = bind_res (matcher_match first m p)
     (\<lambda>mt. case mt of
        None \<Rightarrow> Inr [False]
      | Some h \<Rightarrow> Inr [True, same_resource expected (mresource h), length (parameters h) = c])"

definition Matcher_BasicFunctionality :: "set_choice \<Rightarrow> checks" where
  "Matcher_BasicFunctionality first =
     (let res1 = NoParamResource 1 ''/''; res2 = NoParamResource 2 ''/foo'';
          res3 = NoParamResource 3 ''/foo/bar'' in
      bind_res (fold_res add_to ResourceMatcher [res1, res2, res3]) (\<lambda>m. in_turn
        [expect_match first m ''/'' res1,
         expect_match first m ''/foo'' res2,
         expect_match first m ''/foo/bar'' res3,
         expect_none first m ''/notreal'',
         expect_none first m ''/notreal/foo'',
         expect_none first m ''/notreal/foo/bar'']))"

definition ParameterMatching :: "set_choice \<Rightarrow> checks" where
  "ParameterMatching first =
     (let res1 = OneStringParamResource 1 ''/{p1}''; res2 = OneStringParamResource 2 ''/foo/{p1}'';
          res3 = OneStringParamResource 3 ''/{p1}/foo''; res4 = OneStringParamResource 4 ''/foo/bar/{p1}'' in
      bind_res (fold_res add_to ResourceMatcher [res1, res2, res3, res4]) (\<lambda>m. in_turn
        [validate first m ''/foo'' res1 1,
         validate first m ''/foo/bar'' res2 1,
         validate first m ''/bar/foo'' res3 1,
         validate first m ''/foo/bar/baz'' res4 1,
         validate first m ''/bar'' res1 1]))"

definition MultiParameterMatching :: "set_choice \<Rightarrow> checks" where
  "MultiParameterMatching first =
     (let res1 = OneStringParamResource 1 ''/foo/{p1}''; res2 = TwoStringParamResource 2 ''/{p1}/{p2}'';
          res3 = TwoStringParamResource 3 ''/foo/{p1}/short/{p2}'';
          res4 = TwoStringParamResource 4 ''/foo/longer/{p1}/{p2}'' in
      bind_res (fold_res add_to ResourceMatcher [res1, res2]) (\<lambda>m.
      bind_res (validate first m ''/foo/bar'' res2 2) (\<lambda>bs.
      bind_res (fold_res add_to m [res3, res4]) (\<lambda>m'. in_turn
        [Inr bs,
         validate first m' ''/foo/longer/short/bar'' res4 2,
         validate first m' ''/foo/baz/short/bar'' res3 2]))))"

section \<open>Resources and their dispatch\<close>

definition mkBlankUriInfo :: uri_info where
  "mkBlankUriInfo = \<lparr>queryParams = \<lparr>qparams = []\<rparr>, postParams = \<lparr>pparams = []\<rparr>,
     headerParams = \<lparr>hparams = []\<rparr>, entity = Entity_of ''''\<rparr>"

definition expect_code :: "http_code \<Rightarrow> response res \<Rightarrow> checks" where
  "expect_code c resp = bind_res resp (\<lambda>r. Inr [rcode r = c])"

definition DefaultResource :: "string \<Rightarrow> resource" where
  "DefaultResource p = Resource 1 p"

definition DefaultResponseIsNotAllowed :: checks where
  "DefaultResponseIsNotAllowed =
     (let r = DefaultResource ''/foo''; run = (\<lambda>f. dispatch_handler f [] mkBlankUriInfo) in
      in_turn
        [expect_code NOT_ALLOWED (run (get_method r)),
         expect_code NOT_ALLOWED (run (put_method r)),
         expect_code NOT_ALLOWED (run (post_method r)),
         expect_code NOT_ALLOWED (run (del_method r))])"

definition ResourceExposesPath :: checks where
  "ResourceExposesPath = Inr [''/foo'' = path (DefaultResource ''/foo'')]"

definition ok_response :: response where
  "ok_response = Response OK TEXT_PLAIN ''''"

definition ok_handler :: handler where
  "ok_handler = \<lparr>signature = [], body = (\<lambda>_. Inr ok_response)\<rparr>"

definition OkResource :: resource where
  "OkResource = (Resource 1 ''/foo'')\<lparr>get_method := ok_handler, put_method := ok_handler,
     post_method := ok_handler, del_method := ok_handler, head_method := ok_handler\<rparr>"

definition ImplementedMethodsOverrideDefaults :: checks where
  "ImplementedMethodsOverrideDefaults =
     (let run = (\<lambda>f. dispatch_handler f [] mkBlankUriInfo) in
      in_turn
        [expect_code OK (run (get_method OkResource)),
         expect_code OK (run (put_method OkResource)),
         expect_code OK (run (post_method OkResource)),
         expect_code OK (run (del_method OkResource)),
         expect_code OK (run (head_method OkResource))])"

text \<open>The resources that compare what they are passed: \<open>f\<close> is the comparison, and its failed
  assertion is an exception here, so that the test fails.\<close>

definition asserting :: "bool res \<Rightarrow> response res" where
  "asserting b =
     bind_res b (\<lambda>ok. if ok then Inr ok_response else Inl (Throw (Logic_error ''ASSERT_EQ'')))"

definition QueryParam_handler :: "(query_object \<Rightarrow> bool res) \<Rightarrow> handler" where
  "QueryParam_handler f = \<lparr>signature = [TQuery],
     body = (\<lambda>args. case args of [AQuery qp] \<Rightarrow> asserting (f (QueryParamsImpl qp)) | _ \<Rightarrow> Inl Undef)\<rparr>"

definition QueryParamResource :: "(query_object \<Rightarrow> bool res) \<Rightarrow> resource" where
  "QueryParamResource f = (Resource 1 ''/foo'')\<lparr>get_method := QueryParam_handler f,
     put_method := QueryParam_handler f, post_method := QueryParam_handler f,
     del_method := QueryParam_handler f\<rparr>"

definition QueryParamsArePassedToResource :: checks where
  "QueryParamsArePassedToResource =
     (let u = mkBlankUriInfo\<lparr>queryParams := \<lparr>qparams = [(''foo'', ''1''), (''bar'', ''2'')]\<rparr>\<rparr>;
          r = QueryParamResource (QueryParams_eq (queryParams u));
          run = (\<lambda>f. dispatch_handler f [''foo''] u) in
      in_turn
        [expect_code OK (run (get_method r)),
         expect_code OK (run (put_method r)),
         expect_code OK (run (post_method r)),
         expect_code OK (run (del_method r))])"

definition PostParamResource :: "(post_object \<Rightarrow> bool res) \<Rightarrow> resource" where
  "PostParamResource f = (Resource 1 ''/foo'')\<lparr>post_method := \<lparr>signature = [TPost],
     body = (\<lambda>args. case args of [APost pp] \<Rightarrow> asserting (f (PostParamsImpl pp)) | _ \<Rightarrow> Inl Undef)\<rparr>\<rparr>"

definition PostParamsArePassedToResourcePostMethod :: checks where
  "PostParamsArePassedToResourcePostMethod =
     (let u = mkBlankUriInfo\<lparr>postParams := \<lparr>pparams = [(''post1'', ''1''), (''post2'', ''2'')]\<rparr>\<rparr>;
          r = PostParamResource (PostParams_eq (postParams u)) in
      expect_code OK (dispatch_handler (post_method r) [''foo''] u))"

definition HeaderParamResource :: "(header_object \<Rightarrow> bool res) \<Rightarrow> resource" where
  "HeaderParamResource f = (Resource 1 ''/foo'')\<lparr>post_method := \<lparr>signature = [THeader],
     body = (\<lambda>args. case args of [AHeader hp] \<Rightarrow> asserting (f (HeaderParamsImpl hp)) | _ \<Rightarrow> Inl Undef)\<rparr>\<rparr>"

definition HeaderParamsArePassedToResource :: checks where
  "HeaderParamsArePassedToResource =
     (let u = mkBlankUriInfo\<lparr>headerParams :=
            \<lparr>hparams = [(''header1'', ''value1''), (''header2'', ''value2'')]\<rparr>\<rparr>;
          r = HeaderParamResource (HeaderParams_eq (headerParams u)) in
      expect_code OK (dispatch_handler (post_method r) [''foo''] u))"

section \<open>The server\<close>

text \<open>A server in its scope: constructed, its methods called, destroyed. An expectation tells
  which outcomes of a call the test accepts; a program that is terminated passes no test.\<close>

definition with_server ::
    "(string \<Rightarrow> bool) \<Rightarrow> string \<Rightarrow> (listener_op \<Rightarrow> exn option) \<Rightarrow> 16 word \<Rightarrow>
     (server_call \<times> (outcome \<Rightarrow> bool)) list \<Rightarrow> checks option" where
  "with_server inet_aton serialize net p calls =
     (case bind_res (Server_construct inet_aton Map.empty 0 ''127.0.0.1'' p) (\<lambda>(obj, h).
             bind_res (history (\<lambda>h c. Server_forward serialize net h obj c) h (map fst calls))
               (\<lambda>(outs, h'). Inr (obj, outs, h'))) of
        Inl f \<Rightarrow> Some (Inl f)
      | Inr (obj, outs, h) \<Rightarrow>
          map_option (\<lambda>r. bind_res r (\<lambda>(ok, _). Inr (ok # map2 (\<lambda>accepts out. accepts out) (map snd calls) outs)))
            (Server_destructor net h obj))"

definition returns :: "outcome \<Rightarrow> bool" where
  "returns out \<longleftrightarrow> out = Returned"

text \<open>\<open>std::logic_error\<close> and the classes the standard derives from it.\<close>

definition throws_logic_error :: "outcome \<Rightarrow> bool" where
  "throws_logic_error out \<longleftrightarrow>
     (case out of
        Threw (Logic_error _) \<Rightarrow> True
      | Threw (Invalid_argument _) \<Rightarrow> True
      | Threw (Out_of_range _) \<Rightarrow> True
      | _ \<Rightarrow> False)"

definition malformed :: "(string \<Rightarrow> bool) \<Rightarrow> string \<Rightarrow> ephemeral_ports \<Rightarrow> (bool \<times> ephemeral_ports) res" where
  "malformed inet_aton ip ps = bind_res (EphemeralPorts_get ps) (\<lambda>(p, ps').
     Inr (case Server_construct inet_aton Map.empty 0 ip p of
            Inl (Throw (Invalid_argument _)) \<Rightarrow> True | _ \<Rightarrow> False, ps'))"

definition MalformedAddressThrows :: "(string \<Rightarrow> bool) \<Rightarrow> ephemeral_ports \<Rightarrow> checks" where
  "MalformedAddressThrows inet_aton ps =
     bind_res (malformed inet_aton ''1.2.3.4.5'' ps) (\<lambda>(b1, ps1).
     bind_res (malformed inet_aton ''foo'' ps1) (\<lambda>(b2, ps2). Inr [b1, b2]))"

definition StopAndWaitThrowsIfNotStarted ::
    "(string \<Rightarrow> bool) \<Rightarrow> string \<Rightarrow> (listener_op \<Rightarrow> exn option) \<Rightarrow> ephemeral_ports \<Rightarrow> checks option" where
  "StopAndWaitThrowsIfNotStarted inet_aton serialize net ps =
     (case EphemeralPorts_get ps of
        Inl f \<Rightarrow> Some (Inl f)
      | Inr (p, _) \<Rightarrow> with_server inet_aton serialize net p [(StopAndWait, throws_logic_error)])"

definition StartThrowsIfAlreadyStarted ::
    "(string \<Rightarrow> bool) \<Rightarrow> string \<Rightarrow> (listener_op \<Rightarrow> exn option) \<Rightarrow> ephemeral_ports \<Rightarrow> checks option" where
  "StartThrowsIfAlreadyStarted inet_aton serialize net ps =
     (case EphemeralPorts_get ps of
        Inl f \<Rightarrow> Some (Inl f)
      | Inr (p, _) \<Rightarrow> with_server inet_aton serialize net p
          [(Start, returns), (Start, throws_logic_error)])"

definition StartAdminService ::
    "(string \<Rightarrow> bool) \<Rightarrow> string \<Rightarrow> (listener_op \<Rightarrow> exn option) \<Rightarrow> ephemeral_ports \<Rightarrow> checks option" where
  "StartAdminService inet_aton serialize net ps =
     (case bind_res (EphemeralPorts_get ps) (\<lambda>(p, ps1).
             bind_res (EphemeralPorts_get ps1) (\<lambda>(q, _). Inr (p, q))) of
        Inl f \<Rightarrow> Some (Inl f)
      | Inr (p, q) \<Rightarrow> with_server inet_aton serialize net p
          [(StartAdminServer ''127.0.0.1'' q, returns), (Start, returns)])"

section \<open>The supplier of ports\<close>

definition Ports_BasicFunctionality :: "(nat \<Rightarrow> nat) \<Rightarrow> checks" where
  "Ports_BasicFunctionality draw =
     bind_res (EphemeralPorts draw) (\<lambda>ports.
     bind_res (EphemeralPorts_get ports) (\<lambda>(first, ports1).
     bind_res (get_ports (nat (sint kEnd - sint kBegin)) ports1) (\<lambda>(ps, ports2).
     bind_res (EphemeralPorts_get ports2) (\<lambda>(again, _).
       Inr (map (\<lambda>p. first \<noteq> p) ps @ [first = again])))))"

section \<open>Results\<close>

text \<open>The tests of resources need nothing from outside.\<close>

lemma resource_tests_pass:
  "passed DefaultResponseIsNotAllowed" "passed ResourceExposesPath"
  "passed ImplementedMethodsOverrideDefaults" "passed QueryParamsArePassedToResource"
  "passed PostParamsArePassedToResourcePostMethod" "passed HeaderParamsArePassedToResource"
  by code_simp+

text \<open>The matcher's tests, first on any conforming set.\<close>

lemma add_to_all:
  "fold_res add_to m rs =
     bind_res (trie_table.add_all m (bound rs)) (\<lambda>(e, m'). case e of Some x \<Rightarrow> Inl (Throw x) | None \<Rightarrow> Inr m')"
proof (induction rs arbitrary: m)
  case (Cons r rs)
  show ?case
  proof (cases "addResource m r (bindMethods r)")
    case (Inr p)
    obtain e m1 where "p = (e, m1)" by fastforce
    with Inr Cons.IH [of m1] show ?thesis
      by (cases e) (simp_all add: add_to_def bound_def)
  qed (simp add: add_to_def bound_def)
qed (simp add: bound_def)

lemma added:
  assumes "distinct (map (\<lambda>r. template (path r)) rs)"
  shows "\<exists>m. fold_res add_to ResourceMatcher rs = Inr m \<and> wf_matcher m \<and> routes m = routes_of rs"
  using register_distinct [OF assms] by (auto simp: add_to_all)

lemma expect_match_passes:
  assumes "matcher_set first" and "wf_matcher m" "routes m = routes_of rs"
    and "distinct (map (\<lambda>r. template (path r)) rs)" "r \<in> set rs"
    and "path_components p \<noteq> []" "template_matches (template (path r)) (path_components p)"
    and "\<forall>r'\<in>set rs. template_matches (template (path r')) (path_components p) \<longrightarrow> r' = r"
  shows "passed (expect_match first m p r)"
    and "c = length (bindings (template (path r)) (path_components p)) \<Longrightarrow> passed (validate first m p r c)"
  by (simp_all add: expect_match_def validate_def same_resource_def matcher_set.match_registered [OF assms])

lemma expect_none_passes:
  assumes "matcher_set first" and "wf_matcher m" "routes m = routes_of rs"
    and "\<forall>r\<in>set rs. \<not> template_matches (template (path r)) (path_components p)"
  shows "passed (expect_none first m p)"
  by (simp add: expect_none_def matcher_set.match_unregistered [OF assms])

lemma path_of_test_resources [simp]:
  "path (NoParamResource a p) = p" "path (OneStringParamResource a p) = p"
  "path (TwoStringParamResource a p) = p"
  by (simp_all add: NoParamResource_def OneStringParamResource_def TwoStringParamResource_def Resource_def)

lemma matcher_basic_functionality:
  assumes "matcher_set first"
  shows "passed (Matcher_BasicFunctionality first)"
proof -
  let ?r1 = "NoParamResource 1 ''/''" and ?r2 = "NoParamResource 2 ''/foo''"
    and ?r3 = "NoParamResource 3 ''/foo/bar''"
  let ?rs = "[?r1, ?r2, ?r3]"
  have t: "template ''/'' = [Lit '''']" "template ''/foo'' = [Lit '''', Lit ''foo'']"
    "template ''/foo/bar'' = [Lit '''', Lit ''foo'', Lit ''bar'']" by code_simp+
  have p: "path_components ''/'' = ['''']" "path_components ''/foo'' = ['''', ''foo'']"
    "path_components ''/foo/bar'' = ['''', ''foo'', ''bar'']"
    "path_components ''/notreal'' = ['''', ''notreal'']"
    "path_components ''/notreal/foo'' = ['''', ''notreal'', ''foo'']"
    "path_components ''/notreal/foo/bar'' = ['''', ''notreal'', ''foo'', ''bar'']" by code_simp+
  have d: "distinct (map (\<lambda>r. template (path r)) ?rs)" by (simp add: t)
  from added [OF d] obtain m where m: "fold_res add_to ResourceMatcher ?rs = Inr m" "wf_matcher m"
    "routes m = routes_of ?rs" by blast
  note yes = expect_match_passes(1) [OF assms m(2,3) d] and no = expect_none_passes [OF assms m(2,3)]
  show ?thesis
    unfolding Matcher_BasicFunctionality_def Let_def m(1) bind_res_simps(1) passed_in_turn
    by (intro ballI) (auto simp: t p template_matches_def intro!: yes no)
qed

lemma parameter_matching:
  assumes "matcher_set first"
  shows "passed (ParameterMatching first)"
proof -
  let ?r1 = "OneStringParamResource 1 ''/{p1}''" and ?r2 = "OneStringParamResource 2 ''/foo/{p1}''"
    and ?r3 = "OneStringParamResource 3 ''/{p1}/foo''" and ?r4 = "OneStringParamResource 4 ''/foo/bar/{p1}''"
  let ?rs = "[?r1, ?r2, ?r3, ?r4]"
  have t: "template ''/{p1}'' = [Lit '''', Var]" "template ''/foo/{p1}'' = [Lit '''', Lit ''foo'', Var]"
    "template ''/{p1}/foo'' = [Lit '''', Var, Lit ''foo'']"
    "template ''/foo/bar/{p1}'' = [Lit '''', Lit ''foo'', Lit ''bar'', Var]" by code_simp+
  have p: "path_components ''/foo'' = ['''', ''foo'']" "path_components ''/foo/bar'' = ['''', ''foo'', ''bar'']"
    "path_components ''/bar/foo'' = ['''', ''bar'', ''foo'']" "path_components ''/bar'' = ['''', ''bar'']"
    "path_components ''/foo/bar/baz'' = ['''', ''foo'', ''bar'', ''baz'']" by code_simp+
  have d: "distinct (map (\<lambda>r. template (path r)) ?rs)" by (simp add: t)
  from added [OF d] obtain m where m: "fold_res add_to ResourceMatcher ?rs = Inr m" "wf_matcher m"
    "routes m = routes_of ?rs" by blast
  note yes = expect_match_passes(2) [OF assms m(2,3) d]
  show ?thesis
    unfolding ParameterMatching_def Let_def m(1) bind_res_simps(1) passed_in_turn
    by (intro ballI) (auto simp: t p template_matches_def intro!: yes)
qed

text \<open>The test of several parameters depends on the set: it passes with red-black trees, and has
  undefined behaviour by the rules of the standard.\<close>

lemma multi_parameter_matching:
  "passed (MultiParameterMatching set_begin_rb)" "MultiParameterMatching set_begin_std = Inl Undef"
  by code_simp+

text \<open>The server in its scope, on the abstract machine.\<close>

lemma with_server_spec:
  assumes "inet_aton ''127.0.0.1''"
    and "case history (spec_method net) (spec_new ''127.0.0.1'' p) (map fst calls) of
        Inl _ \<Rightarrow> False | Inr (outs, t) \<Rightarrow> \<not> waiter t \<and> admin_fault net (admin t) = None"
  shows "with_server inet_aton serialize net p calls =
    Some (bind_res (history (spec_method net) (spec_new ''127.0.0.1'' p) (map fst calls))
      (\<lambda>(outs, t). Inr (True # map2 (\<lambda>accepts out. accepts out) (map snd calls) outs)))"
proof -
  from assms(2) obtain outs t where spec: "\<not> waiter t" "admin_fault net (admin t) = None"
    "history (spec_method net) (spec_new ''127.0.0.1'' p) (map fst calls) = Inr (outs, t)"
    by (auto split: sum.splits)
  let ?s = "ServerImpl ''127.0.0.1'' p" and ?obj = "\<lparr>internal = 0\<rparr>" and ?cs = "map fst calls"
  let ?h = "Map.empty(0 \<mapsto> ?s) :: server_heap"
  let ?fwd = "history (\<lambda>h c. Server_forward serialize net h ?obj c) ?h ?cs"
  have f: "bind_res ?fwd (\<lambda>(outs, h). Inr (outs, the (h 0))) = history (server_method serialize net) ?s ?cs"
    using forwarding.histories_agree [where obj = ?obj and s = ?h] by simp
  have "bind_res (history (server_method serialize net) ?s ?cs) (\<lambda>(outs, s'). Inr (outs, server_abs s')) =
      Inr (outs, t)"
    using server_calls.histories_agree [OF server_inv_new, of serialize net "''127.0.0.1''" p ?cs]
    unfolding server_abs_new spec(3) .
  then obtain h where h: "?fwd = Inr (outs, h)" "server_abs (the (h 0)) = t"
    unfolding f [symmetric] by (auto simp: bind_res_Inr_iff)
  have "\<exists>s. h = Map.empty(0 \<mapsto> s) \<and> server_inv s"
    by (rule history_invariant [where P = "\<lambda>h. \<exists>s. h = Map.empty(0 \<mapsto> s) \<and> server_inv s", OF h(1)])
       (use server_inv_new forward_single in \<open>blast+\<close>)
  then obtain s where s: "h = Map.empty(0 \<mapsto> s)" "server_inv s" by blast
  have "waiting s = 0" "pending_fault net s = None"
    using h(2) spec(1,2) s(1) by (auto simp: server_abs_def admin_fault_of)
  from Server_destructor_correct [OF _ s(2) this, of h ?obj] s(1)
  have "Server_destructor net h ?obj = Some (Inr (True, h(0 := None)))" by simp
  with h(1) assms(1) spec(3) show ?thesis
    by (simp add: with_server_def Server_construct_def validateAddr_def)
qed

lemma server_tests_pass:
  assumes "inet_aton ''127.0.0.1''" and "port_cur ps < length (ports ps)"
  shows "StopAndWaitThrowsIfNotStarted inet_aton serialize net ps = Some (Inr [True, True])"
    and "StartThrowsIfAlreadyStarted inet_aton serialize (\<lambda>_. None) ps = Some (Inr [True, True, True])"
    and "StartAdminService inet_aton serialize (\<lambda>_. None) ps = Some (Inr [True, True, True])"
proof -
  let ?p = "ports ps ! port_cur ps" and ?ps = "ps\<lparr>port_cur := cyclic_increment (ports ps) (port_cur ps)\<rparr>"
  have p: "EphemeralPorts_get ps = Inr (?p, ?ps)"
    using assms(2) by (simp add: EphemeralPorts_get_def)
  have "port_cur ?ps < length (ports ?ps)"
    using assms(2) by (auto simp: cyclic_increment_def)
  then obtain q ps' where q: "EphemeralPorts_get ?ps = Inr (q, ps')"
    by (auto simp: EphemeralPorts_get_def)
  have quiet: "listen_fault (\<lambda>_. None) ip r = None" for ip r by (simp add: listen_fault_def)
  note run = with_server_spec [where inet_aton = inet_aton, OF assms(1)] spec_new_def returns_def throws_logic_error_def
  show "StopAndWaitThrowsIfNotStarted inet_aton serialize net ps = Some (Inr [True, True])"
    by (simp add: StopAndWaitThrowsIfNotStarted_def p run)
  show "StartThrowsIfAlreadyStarted inet_aton serialize (\<lambda>_. None) ps = Some (Inr [True, True, True])"
    by (simp add: StartThrowsIfAlreadyStarted_def p run quiet)
  show "StartAdminService inet_aton serialize (\<lambda>_. None) ps = Some (Inr [True, True, True])"
    by (simp add: StartAdminService_def p q run quiet)
qed

text \<open>A test that starts a server fails when the port is in use.\<close>

lemma start_test_fails:
  assumes "inet_aton ''127.0.0.1''" and "port_cur ps < length (ports ps)"
    and "listen_fault net ''127.0.0.1'' (ports ps ! port_cur ps) \<noteq> None"
  shows "\<exists>bs. StartThrowsIfAlreadyStarted inet_aton serialize net ps = Some (Inr bs) \<and> \<not> passed (Inr bs)"
  using assms
  by (auto simp: StartThrowsIfAlreadyStarted_def EphemeralPorts_get_def with_server_spec spec_new_def returns_def)

lemma malformed_address_throws:
  assumes "\<not> inet_aton ''1.2.3.4.5''" "\<not> inet_aton ''foo''" and "port_cur ps < length (ports ps)"
  shows "MalformedAddressThrows inet_aton ps = Inr [True, True]"
  using assms
  by (auto simp: MalformedAddressThrows_def malformed_def EphemeralPorts_get_def Server_construct_def
      validateAddr_def cyclic_increment_def)

text \<open>The supplier of ports, for any draws of the generator.\<close>

lemma distinct_ephemeral_range: "distinct ephemeral_range"
proof -
  have "unat (word_of_nat k :: 16 word) = k" if "k < 65536" for k
    using that by (simp add: unat_of_nat)
  then have "inj_on (word_of_nat :: nat \<Rightarrow> 16 word) {k. k < 65536}"
    by (intro inj_on_inverseI [where g = unat]) simp
  moreover have "set [49152..<65536 :: nat] \<subseteq> {k. k < 65536}"
    by (simp only: set_upt subset_iff atLeastLessThan_iff mem_Collect_eq) blast
  ultimately have "inj_on (word_of_nat :: nat \<Rightarrow> 16 word) (set [49152..<65536])" by (rule inj_on_subset)
  then show ?thesis unfolding ephemeral_range_def distinct_map using distinct_upt by blast
qed

lemma ports_basic_functionality:
  assumes "\<And>i. draw i \<le> i"
  shows "passed (Ports_BasicFunctionality draw)"
proof -
  from ephemeral_ports_cycle [OF assms, of 0] obtain e qs where
    e: "EphemeralPorts draw = Inr e" "get_ports 16384 e = Inr (qs, e)" "mset qs = mset ephemeral_range"
    by auto
  have n: "16384 = Suc 16383" by simp
  from e(2) obtain p e1 ps where p: "EphemeralPorts_get e = Inr (p, e1)" "get_ports 16383 e1 = Inr (ps, e)"
    "qs = p # ps"
    unfolding n get_ports.simps by (auto simp: bind_res_Inr_iff)
  have "distinct qs" using distinct_ephemeral_range e(3) by (metis mset_eq_imp_distinct_iff)
  then have "p \<notin> set ps" by (simp add: p(3))
  then have "list_all (\<lambda>b. b) (map (\<lambda>q. p \<noteq> q) ps)" by (auto simp: list_all_iff)
  moreover have "nat (sint kEnd - sint kBegin) = 16383" by (simp add: kEnd_def kBegin_def)
  ultimately show ?thesis using e(1) p by (simp add: Ports_BasicFunctionality_def)
qed

end
