(* ===== verification/Test_Driver.thy ===== *)
theory Test_Driver
  imports Unit_Tests
begin

text \<open>
  The program of the unit tests: \<open>main\<close> of \<open>test/driver.cc\<close> runs every test that is linked into it
  and returns what the test library makes of them. The library is not in the repository; what is
  used of it is that each test runs once, that an exception that leaves a test fails it, and that
  the status is 0 when all tests pass and 1 otherwise. A test with undefined behaviour, or one that
  terminates the program, leaves no status. The program is run without arguments, by which the
  library would select tests.
\<close>

section \<open>Running the tests\<close>

text \<open>The tests of \<open>server_test.cc\<close> take their ports from one supplier, one after the other.\<close>

definition ports_after :: "nat \<Rightarrow> ephemeral_ports \<Rightarrow> ephemeral_ports" where
  "ports_after n ps = (case get_ports n ps of Inr (_, ps') \<Rightarrow> ps' | Inl _ \<Rightarrow> ps)"

definition server_tests ::
    "(string \<Rightarrow> bool) \<Rightarrow> string \<Rightarrow> (listener_op \<Rightarrow> exn option) \<Rightarrow> ephemeral_ports res \<Rightarrow> checks option list" where
  "server_tests inet_aton serialize net supplier =
     (case supplier of
        Inl f \<Rightarrow> [Some (Inl f)]
      | Inr ps \<Rightarrow>
          [Some (MalformedAddressThrows inet_aton ps),
           StopAndWaitThrowsIfNotStarted inet_aton serialize net (ports_after 2 ps),
           StartThrowsIfAlreadyStarted inet_aton serialize net (ports_after 3 ps),
           StartAdminService inet_aton serialize net (ports_after 4 ps)])"

definition all_tests ::
    "set_choice \<Rightarrow> (string \<Rightarrow> bool) \<Rightarrow> string \<Rightarrow> (listener_op \<Rightarrow> exn option) \<Rightarrow> (nat \<Rightarrow> nat) \<Rightarrow> checks option list" where
  "all_tests first inet_aton serialize net draw =
     [Some DefaultResponseIsNotAllowed, Some ResourceExposesPath, Some ImplementedMethodsOverrideDefaults,
      Some QueryParamsArePassedToResource, Some PostParamsArePassedToResourcePostMethod,
      Some HeaderParamsArePassedToResource,
      Some (Matcher_BasicFunctionality first), Some (ParameterMatching first), Some (MultiParameterMatching first)] @
     server_tests inet_aton serialize net (EphemeralPorts draw) @
     [Some (Ports_BasicFunctionality draw)]"

definition completes :: "checks option \<Rightarrow> bool" where
  "completes t \<longleftrightarrow> (case t of None \<Rightarrow> False | Some r \<Rightarrow> r \<noteq> Inl Undef)"

definition RUN_ALL_TESTS :: "checks option list \<Rightarrow> int option" where
  "RUN_ALL_TESTS ts =
     (if \<not> list_all completes ts then None
      else if list_all (\<lambda>t. case t of None \<Rightarrow> False | Some r \<Rightarrow> passed r) ts then Some 0
      else Some 1)"

definition test_main ::
    "set_choice \<Rightarrow> (string \<Rightarrow> bool) \<Rightarrow> string \<Rightarrow> (listener_op \<Rightarrow> exn option) \<Rightarrow> (nat \<Rightarrow> nat) \<Rightarrow> int option" where
  "test_main first inet_aton serialize net draw = RUN_ALL_TESTS (all_tests first inet_aton serialize net draw)"

section \<open>Results\<close>

lemma passed_completes: "passed r \<Longrightarrow> completes (Some r)"
  by (auto simp: completes_def)

lemma RUN_ALL_TESTS_0: "RUN_ALL_TESTS ts = Some 0 \<longleftrightarrow> (\<forall>t\<in>set ts. \<exists>r. t = Some r \<and> passed r)"
proof -
  have "completes t" if "\<exists>r. t = Some r \<and> passed r" for t using that passed_completes by blast
  then show ?thesis unfolding RUN_ALL_TESTS_def list_all_iff by (auto split: option.splits)
qed

lemma RUN_ALL_TESTS_None: "RUN_ALL_TESTS ts = None \<longleftrightarrow> None \<in> set ts \<or> Some (Inl Undef) \<in> set ts"
proof -
  have "completes t \<longleftrightarrow> t \<noteq> None \<and> t \<noteq> Some (Inl Undef)" for t
    by (cases t) (simp_all add: completes_def)
  then show ?thesis unfolding RUN_ALL_TESTS_def list_all_iff by auto
qed

lemma ports_after_valid:
  assumes "port_cur ps < length (ports ps)"
  shows "port_cur (ports_after n ps) < length (ports (ports_after n ps))"
proof -
  have "0 < length (ports ps)" using assms by (rule le_less_trans [OF le0])
  then show ?thesis by (simp add: ports_after_def get_ports_cycle [OF assms])
qed

lemma ephemeral_ports_valid:
  assumes "\<And>i. draw i \<le> i"
  shows "\<exists>ps. EphemeralPorts draw = Inr ps \<and> port_cur ps < length (ports ps)"
proof -
  from ephemeral_ports_cycle [OF assms, of 0] obtain ps qs where
    ps: "EphemeralPorts draw = Inr ps" "get_ports 16384 ps = Inr (qs, ps)" by auto
  have n: "16384 = Suc 16383" by simp
  from ps(2) have "\<exists>r. EphemeralPorts_get ps = Inr r"
    unfolding n get_ports.simps by (auto simp: bind_res_Inr_iff)
  with ps(1) show ?thesis by (auto simp: EphemeralPorts_get_def split: if_splits)
qed

text \<open>With sets that are red-black trees, a network on which listening works and any draws of the
  generator the test program succeeds; by the rules of the standard for sets it has undefined
  behaviour.\<close>

theorem test_program:
  assumes "inet_aton ''127.0.0.1''" "\<not> inet_aton ''1.2.3.4.5''" "\<not> inet_aton ''foo''"
    and "\<And>i. draw i \<le> i"
  shows "test_main set_begin_rb inet_aton serialize (\<lambda>_. None) draw = Some 0 \<and>
    test_main set_begin_std inet_aton serialize net draw = None"
proof
  obtain ps where ps: "EphemeralPorts draw = Inr ps" "port_cur ps < length (ports ps)"
    using ephemeral_ports_valid [of draw, OF assms(4)] by blast
  note valid = ports_after_valid [OF ps(2)]
  have m: "matcher_set set_begin_rb" by (rule match_rb.matcher_set_axioms)
  have tests: "\<forall>t\<in>set (server_tests inet_aton serialize (\<lambda>_. None) (Inr ps)). \<exists>r. t = Some r \<and> passed r"
    unfolding server_tests_def using malformed_address_throws [OF assms(2,3) ps(2)]
      server_tests_pass(1) [where inet_aton = inet_aton and ps = "ports_after 2 ps", OF assms(1) valid]
      server_tests_pass(2) [where inet_aton = inet_aton and ps = "ports_after 3 ps", OF assms(1) valid]
      server_tests_pass(3) [where inet_aton = inet_aton and ps = "ports_after 4 ps", OF assms(1) valid]
    by simp
  show "test_main set_begin_rb inet_aton serialize (\<lambda>_. None) draw = Some 0"
    unfolding test_main_def RUN_ALL_TESTS_0 all_tests_def ps(1)
    using tests resource_tests_pass matcher_basic_functionality [OF m] parameter_matching [OF m]
      multi_parameter_matching(1) ports_basic_functionality [of draw, OF assms(4)]
    by auto
  show "test_main set_begin_std inet_aton serialize net draw = None"
    unfolding test_main_def RUN_ALL_TESTS_None all_tests_def multi_parameter_matching(2) by simp
qed

theorem test_program_witness:
  "test_main set_begin_rb (\<lambda>a. a = ''127.0.0.1'') ''{}'' (\<lambda>_. None) (\<lambda>i. i div 2) = Some 0"
  using test_program [of "\<lambda>a. a = ''127.0.0.1''" "\<lambda>i. i div 2" "''{}''" "\<lambda>_. None"] by simp

end
