(* ===== verification/Spec2Isabelle.thy ===== *)
theory Spec2Isabelle
  imports Shutdown Live_Registration Diagnostics Stream_Life Worker_Balance Param_Types Test_Driver
begin

text \<open>
  A model of topper, a small C++ framework for REST services, and its correctness.

  \<^bold>\<open>The program.\<close> An application derives resources from \<open>Resource\<close> (\<open>include/resource.h\<close>),
  each with a path template such as \<open>/users/{id}\<close> and typed handler methods, and registers
  them with a \<open>Server\<close> (\<open>include/server.h\<close>, \<open>src/server.cc\<close>). Registration binds the methods to
  functions of uniform type (\<open>include/detail/server-impl.h\<close>) and stores them in the trie of a
  \<open>ResourceMatcher\<close> (\<open>src/resource_matcher.cc\<close>). A running server accepts connections and gives
  them to worker event bases (\<open>src/server_instance.cc\<close>); an HTTP parser reports the pieces of a
  request to a \<open>RequestBuilder\<close> (\<open>src/request_builder.h\<close>); when the message is complete, the
  request is built, its path is matched, the handler's arguments are extracted from path,
  query, body and headers (\<open>include/detail/tuple_util.h\<close>), the handler is called, and the
  response is printed (\<open>src/response.cc\<close>) and written.

  \<^bold>\<open>The theories.\<close>
  \<^item> \<open>Prelude\<close>: results that may throw or be undefined (\<open>'a res\<close>), the loop combinator \<open>fold_res\<close>,
    unordered maps. \<open>Cpp_String\<close> and \<open>Cpp_Integer\<close>: what the sources use of \<open>std::string\<close>, of
    \<open>std::stoll\<close> and of \<open>static_cast\<close>. \<open>Ordered_Set\<close>: the contract of \<open>std::set\<close> (locale
    \<open>ordered_set\<close>), as the standard has it and as red-black trees implement it.
  \<^item> \<open>Delim_Iter\<close>, \<open>Path_Components\<close>, \<open>Query_String\<close>: the two iterators of
    \<open>src/path_components.h\<close> and \<open>src/query_string.h\<close>. One locale (\<open>delim_iterator\<close>) treats both; the
    loops are total functions with a measure on the iterator.
  \<^item> \<open>Params\<close>: path, query, post and header parameters and entities (\<open>include/parameter.h\<close>,
    \<open>src/parameter.cc\<close>, \<open>src/parameter_internal.h\<close>, \<open>include/entity.h\<close>, \<open>src/entity.cc\<close>).
  \<^item> \<open>Http_Response\<close>: responses and their text, with a specification of how a client reads it.
  \<^item> \<open>Dispatch\<close>: extraction of arguments and the call of a handler (\<open>include/detail/\<close>,
    \<open>include/resource.h\<close>). A handler is its list of parameter types and a function on arguments.
  \<^item> \<open>Matcher_Heap\<close>, \<open>Matcher_Add\<close>: the trie as a heap of nodes, and registration, which refines
    the update of a finite map from templates to resources (locale \<open>route_table\<close>).
    \<open>Matcher_Clear\<close>: the destructor's traversal. \<open>Matcher_Match\<close>, \<open>Matcher_Correct\<close>: the search,
    its comparator, and the match it results in (locales \<open>matcher_set\<close>, \<open>matcher_total_set\<close>). \<open>Search_Order\<close>: the
    order of its candidates, also while the trie grows.
  \<^item> \<open>Request_Builder\<close>: the callbacks of the parser and the construction of the request
    (with \<open>src/request.h\<close>). \<open>Server_Instance\<close>: requests to responses, the choice of a worker,
    starting (with the text printed then) and stopping.
  \<^item> \<open>Connection\<close>: the context of one connection and its callbacks. \<open>Serving\<close>: the instance with all
    its connections, as a step relation on the events of the loop.
  \<^item> \<open>Server\<close>: the life cycle of a server as a step relation, and the admin server with
    \<open>src/metrics_resource.cc\<close>. \<open>Refinement\<close>: a locale for step relations that refine an abstract
    machine through an abstraction function. \<open>Server_Spec\<close>: the abstract machine a client of
    \<open>include/server.h\<close> may rely on, which \<open>Server\<close> refines, and the runs that are fair to the loop.
    \<open>Server_Object\<close>: the object of \<open>include/server.h\<close>, a pointer to the implementation, with its
    destructors and its copies. \<open>System\<close>: a server together with its connections, and \<open>Worker_Balance\<close>: how
    these are spread over its workers. \<open>Streams\<close>: the streams and descriptors of the connections, and
    the functions queued on the workers; \<open>Stream_Life\<close>: what becomes of a connection. \<open>Shutdown\<close>:
    \<open>stopAndWait\<close> statement by statement, interleaved with the threads it stops.
  \<^item> \<open>End_To_End\<close>: the specification an application sees, a function from its resources and a message
    to a response, and its refinement by all of the above. \<open>Live_Registration\<close>: \<open>addResource\<close>
    statement by statement, interleaved with the search for a message. \<open>Diagnostics\<close>: the functions that
    log or take the time, with what they report.
  \<^item> \<open>Hello_Server\<close>, \<open>Hello_Main\<close>: the resources and \<open>main\<close> of \<open>example/hello_server.cc\<close>.
    \<open>Param_Types\<close>: the C++ parameter types of a handler and how a method's signature follows from
    them (\<open>include/detail/tuple_util.h\<close>, \<open>include/detail/server-impl.h\<close>). \<open>Ephemeral_Ports\<close>: the
    supplier of ports the tests use (\<open>test/util.h\<close>, \<open>test/util.cc\<close>). \<open>Unit_Tests\<close>: the unit tests
    of the repository as functions on the model, and for which sets, networks and random draws
    they pass; \<open>Test_Driver\<close>: the program that runs them (\<open>test/driver.cc\<close>).
  This theory holds the properties that span routing, building and answering. Each theory of a
  component ends with its own properties. They are numbered C1 to C40 in the order of importance.

  \<^bold>\<open>What the lemmas show.\<close> Loops over paths and queries terminate and visit exactly the pieces
  (C14, C30, C31). Registration updates the route map or throws without a change (C3, C21), and keeps the
  heap a tree, which \<open>clear\<close> deletes completely (C12). Matching finds a registered
  template that matches, and a best one when the candidates are consistent; exactly when they are
  not, the comparator is no strict weak ordering and the standard leaves the outcome undefined
  (C1, C2, C15), which still does not depend on the order of registration with a set that only
  compares (C29); the search keeps at most \<open>2^n\<close> states (C36). Arguments are extracted as
  the signature says, and the signature is that of the C++ method (C17, C23, C24, C37, C38). The
  builder does not depend on how the input is cut and reports the request (C32 to C34). Responses
  are those of a specification on the list of resources (C5), also from the bytes of a connection
  to those a client reads and to the closed descriptor, in whatever segments they come (C6, C13). Every
  message is answered (C7), independently of other connections (C16). Every connection is read as soon
  as its worker gets to it, no callback meets a deleted context and every descriptor is closed once
  (C9, C27), except that of a peer that ends its input early, which is kept for good (C28).
  Workers are alive when chosen and are given connections evenly (C25, C26). A server refines its
  abstract machine, its admin server comes up when the loop runs and serves, and a server is
  destroyed with its trie and its listener (C4, C20, C40, C22); with its connections, every event is
  handled until \<open>stop\<close> abandons them (C8, C39). The threads of a running server meet in two places:
  a message whose search interleaves with a registration is answered as before or after it, except
  in one gap of it (C10), and a shutdown is safe exactly under three conditions, and then
  ends (C11, C19). Logging changes nothing and tells how each connection ended (C35). The example
  starts, blocks and greets (C18).

  \<^bold>\<open>Parameters.\<close> What is not in the repository is an argument of the definitions: the URL parser
  (\<open>url_parser\<close>, relied on to return fields within the URL), the HTTP parser (\<open>http_parser\<close>, relied
  on to be \<open>streaming\<close>), the place of equal keys in a multimap (\<open>multimap_insertion\<close>), the ordered
  set (\<open>ordered_set\<close>, \<open>comparing_set\<close>), whether operations on a listener throw (\<open>net\<close>), whether stopping an event
  base waits for its loop (\<open>waits\<close>), \<open>inet_aton\<close>, and the text of the metrics. Event bases run
  queued functions in order; streams report what \<open>Streams.permitted\<close> allows, and complete
  writes from their loop, after \<open>write\<close> has returned. \<open>Hello_Server.tree_platform\<close> and
  \<open>Connection.line_parser\<close> are concrete choices.

  \<^bold>\<open>Bounds.\<close> No definition uses fuel: loops are structural or have a measure, and \<open>clear\<close> is a
  \<open>partial_function\<close> whose termination is C12. The connection counter is a 32-bit word, ports are
  16-bit words, \<open>size_t\<close> positions keep \<open>npos\<close> apart, integer parameters are cast to their width.

  \<^bold>\<open>Not modelled.\<close> Memory as the threads see it: they interleave by statements and rounds of loops
  (\<open>Shutdown\<close>, \<open>Live_Registration\<close>) or by calls (\<open>Server\<close>, \<open>Streams\<close>), while to the standard unsynchronised
  access to the same memory is undefined altogether. Further: how log lines
  are written and samples kept; the event loop beyond its queue; destruction of user resources, whose
  lifetime is the application's business;
  allocation failure; \<open>test/response_test.cc\<close>, which is not compiled; the build files.
\<close>

section \<open>Routing\<close>

text \<open>C1: For every path and every conforming set implementation, matching finds nothing exactly when no
  registered template matches the path, and what it finds is a registered resource whose template
  matches, with its methods and the components its variables stand for, in order.\<close>

theorem match_correct:
  assumes "matcher_set first" and "wf_matcher m"
  shows "(matcher_match first m p = Inr None \<longleftrightarrow> (\<nexists>ts. candidate m (path_components p) ts)) \<and>
    (\<forall>mt. matcher_match first m p = Inr (Some mt) \<longrightarrow>
       (\<exists>ts. candidate m (path_components p) ts \<and> mt = match_of m (path_components p) ts))"
  using matcher_set.match_none_iff [OF assms] matcher_set.match_some [OF assms] by blast

theorem match_correct_witness: "matcher_match set_begin_rb hello_matcher ''/a/b/c'' = Inr None"
proof -
  have "path_components ''/a/b/c'' = ['''', ''a'', ''b'', ''c'']" by code_simp
  moreover have "\<nexists>ts. candidate hello_matcher ['''', ''a'', ''b'', ''c''] ts"
    unfolding hello_candidate hello_templates by (auto simp: template_matches_def)
  ultimately show ?thesis
    using match_correct [OF match_rb.matcher_set_axioms hello_registered(2), of "''/a/b/c''"] by simp
qed

text \<open>Two routes, on which the order of candidates is shown.\<close>

definition two_routes :: "resource \<Rightarrow> resource \<Rightarrow> matcher" where
  "two_routes r1 r2 = snd (projr (trie_table.add_all ResourceMatcher (bound [r1, r2])))"

lemma two_routes:
  assumes "template (path r1) \<noteq> template (path r2)"
  shows "trie_table.add_all ResourceMatcher (bound [r1, r2]) = Inr (None, two_routes r1 r2) \<and>
    wf_matcher (two_routes r1 r2) \<and>
    routes (two_routes r1 r2) =
      [template (path r2) \<mapsto> (r2, Some (bindMethods r2)), template (path r1) \<mapsto> (r1, Some (bindMethods r1))]"
proof -
  have "distinct (map (\<lambda>r. template (path r)) [r1, r2])" using assms by simp
  from register_distinct [OF this] show ?thesis by (auto simp: two_routes_def routes_of_def)
qed

lemma two_routes_candidate:
  assumes "template (path r1) \<noteq> template (path r2)"
  shows "candidate (two_routes r1 r2) cs ts \<longleftrightarrow>
    cs \<noteq> [] \<and> template_matches ts cs \<and> ts \<in> {template (path r1), template (path r2)}"
  using two_routes [OF assms] by (auto simp: candidate_def split: if_splits)

text \<open>C2: When no two matching templates conflict (each before the other in the comparator's view), the
  match is one with the most variables, the longest literal text and the greatest literal text
  among all matching templates.\<close>

theorem match_best:
  assumes "matcher_set first" and "wf_matcher m"
    and "candidate m (path_components p) us" and "consistent m (path_components p)"
  shows "\<exists>ts. candidate m (path_components p) ts \<and>
    matcher_match first m p = Inr (Some (match_of m (path_components p) ts)) \<and>
    (\<forall>us. candidate m (path_components p) us \<longrightarrow> dominates (path_components p) ts us)"
  using matcher_set.match_consistent [OF assms] .

theorem match_best_witness:
  "\<exists>mt. matcher_match set_begin_std
         (two_routes (Resource 1 ''/{p}/foo'') (Resource 2 ''/foo/{p}'')) ''/foo/foo'' = Inr (Some mt) \<and>
     mresource mt = Some (Resource 2 ''/foo/{p}'') \<and> parameters mt = [''foo'']"
proof -
  let ?r1 = "Resource 1 ''/{p}/foo''" and ?r2 = "Resource 2 ''/foo/{p}''"
  let ?m = "two_routes ?r1 ?r2" and ?cs = "['''', ''foo'', ''foo'']"
  let ?t1 = "[Lit '''', Var, Lit ''foo'']" and ?t2 = "[Lit '''', Lit ''foo'', Var]"
  have "template ''/{p}/foo'' = ?t1" "template ''/foo/{p}'' = ?t2" by code_simp+
  then have t: "template (path ?r1) = ?t1" "template (path ?r2) = ?t2" by (simp_all add: Resource_def)
  have ne: "template (path ?r1) \<noteq> template (path ?r2)" unfolding t by simp
  have cs: "path_components ''/foo/foo'' = ?cs" by code_simp
  have cand: "candidate ?m ?cs ts \<longleftrightarrow> ts = ?t1 \<or> ts = ?t2" for ts
    unfolding two_routes_candidate [OF ne] t by (auto simp: template_matches_def)
  have conf: "\<not> conflict ?cs ?t1 ?t1" "\<not> conflict ?cs ?t1 ?t2" "\<not> conflict ?cs ?t2 ?t1" "\<not> conflict ?cs ?t2 ?t2"
    by code_simp+
  have con: "consistent ?m ?cs" unfolding consistent_def cand using conf by blast
  have dom: "\<not> dominates ?cs ?t1 ?t2" by code_simp
  from match_best [OF match_std.matcher_set_axioms, of ?m "''/foo/foo''"] two_routes [OF ne] con dom
  have "matcher_match set_begin_std ?m ''/foo/foo'' = Inr (Some (match_of ?m ?cs ?t2))"
    unfolding cs cand by blast
  moreover have "routes ?m ?t2 = Some (?r2, Some (bindMethods ?r2))"
    using two_routes [OF ne] unfolding t by simp
  ultimately show ?thesis by (simp add: match_of_def)
qed

text \<open>Of resources with pairwise distinct templates, registered in any order, a path that matches
  exactly one template is routed to that resource, with its bound methods and the components its
  variables stand for.\<close>

theorem registered_route_matched:
  assumes "matcher_set first" and "distinct (map (\<lambda>r. template (path r)) rs)" and "r \<in> set rs"
    and "path_components p \<noteq> []" and "template_matches (template (path r)) (path_components p)"
    and "\<forall>r'\<in>set rs. template_matches (template (path r')) (path_components p) \<longrightarrow> r' = r"
  shows "\<exists>m. trie_table.add_all ResourceMatcher (bound rs) = Inr (None, m) \<and>
    matcher_match first m p = Inr (Some \<lparr>mresource = Some r, mmethods = Some (bindMethods r),
      parameters = bindings (template (path r)) (path_components p)\<rparr>)"
proof -
  obtain m where "trie_table.add_all ResourceMatcher (bound rs) = Inr (None, m)" "wf_matcher m"
    "routes m = routes_of rs"
    using register_distinct [OF assms(2)] by blast
  with matcher_set.match_registered [OF assms(1) _ _ assms(2-6)] show ?thesis by blast
qed

theorem registered_route_matched_witness:
  "\<exists>m mt. trie_table.add_all ResourceMatcher (bound hello_resources) = Inr (None, m) \<and>
     matcher_match set_begin_rb m ''/bob/details/get'' = Inr (Some mt) \<and>
     mresource mt = Some (HelloQueryParamResource 4) \<and> parameters mt = [''bob'']"
proof -
  let ?cs = "['''', ''bob'', ''details'', ''get'']"
  have cs: "path_components ''/bob/details/get'' = ?cs" by code_simp
  have d: "distinct (map (\<lambda>r. template (path r)) hello_resources)" unfolding hello_templates by simp
  have i: "HelloQueryParamResource 4 \<in> set hello_resources" by (simp add: hello_resources_def)
  have one: "\<forall>r'\<in>set hello_resources. template_matches (template (path r')) ?cs \<longrightarrow>
      r' = HelloQueryParamResource 4"
    by (auto simp: hello_resources_def hello_template template_matches_def)
  have ok: "?cs \<noteq> []" "template_matches (template (path (HelloQueryParamResource 4))) ?cs"
    by (simp_all add: hello_template template_matches_def)
  have b: "bindings (template (path (HelloQueryParamResource 4))) ?cs = [''bob'']"
    unfolding hello_template by simp
  from registered_route_matched [OF match_rb.matcher_set_axioms d i, of "''/bob/details/get''"]
  obtain m where "trie_table.add_all ResourceMatcher (bound hello_resources) = Inr (None, m)"
    "matcher_match set_begin_rb m ''/bob/details/get'' =
       Inr (Some \<lparr>mresource = Some (HelloQueryParamResource 4),
         mmethods = Some (bindMethods (HelloQueryParamResource 4)), parameters = [''bob'']\<rparr>)"
    unfolding cs b using ok one by blast
  then show ?thesis by (intro exI conjI) (assumption, assumption, simp_all)
qed

text \<open>With a set that is a red-black tree, every path that some template matches is matched, even where
  the comparator is not a strict weak ordering, and always with a resource whose template matches.\<close>

theorem match_with_tree:
  assumes "wf_matcher m" and "candidate m (path_components p) us"
  shows "\<exists>ts. candidate m (path_components p) ts \<and>
    matcher_match set_begin_rb m p = Inr (Some (match_of m (path_components p) ts))"
  by (rule match_rb.match_total [OF assms])

theorem match_with_tree_witness:
  "\<exists>mt. matcher_match set_begin_rb hello_matcher ''/bob'' = Inr (Some mt) \<and> parameters mt = [''bob'']"
proof -
  have "path_components ''/bob'' = ['''', ''bob'']" by code_simp
  with match_with_tree [OF hello_registered(2), of "''/bob''" "[Lit '''', Var]"]
  show ?thesis by (auto simp: hello_user_candidate match_of_def)
qed

text \<open>C15: Under the rules of the standard for ordered sets, matching a path is undefined exactly when two
  matching templates conflict: each has more variables, a longer or a greater literal text than
  the other. The witness is the situation of the repository's test \<open>MultiParameterMatching\<close>.\<close>

theorem match_undefined_iff:
  assumes "wf_matcher m"
  shows "matcher_match set_begin_std m p = Inl Undef \<longleftrightarrow>
    (\<exists>ts us. candidate m (path_components p) ts \<and> candidate m (path_components p) us \<and>
       conflict (path_components p) ts us)"
  unfolding match_std_undef [OF assms] consistent_def by blast

theorem match_undefined_iff_witness:
  "matcher_match set_begin_std (two_routes (Resource 1 ''/foo/{p1}'') (Resource 2 ''/{p1}/{p2}''))
     ''/foo/bar'' = Inl Undef"
proof -
  let ?r1 = "Resource 1 ''/foo/{p1}''" and ?r2 = "Resource 2 ''/{p1}/{p2}''"
  let ?t1 = "[Lit '''', Lit ''foo'', Var]" and ?t2 = "[Lit '''', Var, Var]"
  have "template ''/foo/{p1}'' = ?t1" "template ''/{p1}/{p2}'' = ?t2" by code_simp+
  then have t: "template (path ?r1) = ?t1" "template (path ?r2) = ?t2" by (simp_all add: Resource_def)
  have ne: "template (path ?r1) \<noteq> template (path ?r2)" unfolding t by simp
  have cs: "path_components ''/foo/bar'' = ['''', ''foo'', ''bar'']" by code_simp
  have "candidate (two_routes ?r1 ?r2) ['''', ''foo'', ''bar''] ?t1"
    "candidate (two_routes ?r1 ?r2) ['''', ''foo'', ''bar''] ?t2"
    unfolding two_routes_candidate [OF ne] t by (auto simp: template_matches_def)
  moreover have "conflict ['''', ''foo'', ''bar''] ?t1 ?t2" by code_simp
  moreover have "wf_matcher (two_routes ?r1 ?r2)" using two_routes [OF ne] by blast
  ultimately show ?thesis using match_undefined_iff [of "two_routes ?r1 ?r2" "''/foo/bar''"] cs by auto
qed

text \<open>A trailing slash of the requested path makes no difference to routing.\<close>

theorem trailing_slash_ignored:
  assumes "p \<noteq> []" and "last p \<noteq> CHR ''/''"
  shows "matcher_match first m (p @ ''/'') = matcher_match first m p"
  by (simp add: matcher_match_def PathComponents_for_eq path_components_trailing_slash [OF assms])

theorem trailing_slash_ignored_witness:
  "matcher_match set_begin_rb hello_matcher ''/bob/'' = matcher_match set_begin_rb hello_matcher ''/bob''"
  using trailing_slash_ignored [of "''/bob''" set_begin_rb hello_matcher] by simp

text \<open>The empty path is never matched, not even by a resource registered at the empty path, which is
  accepted and listed all the same.\<close>

lemma empty_path_unmatched:
  "\<exists>m. addResource ResourceMatcher (Resource a []) meths = Inr (None, m) \<and>
     matcher_resources m = [Resource a []] \<and> matcher_match first m [] = Inr None"
proof -
  have "routes ResourceMatcher (template (path (Resource a []))) = None" by (simp add: routes_ResourceMatcher)
  from addResource_free [OF wf_ResourceMatcher this, of meths] obtain m where
    m: "addResource ResourceMatcher (Resource a []) meths = Inr (None, m)"
    "resources m = resources ResourceMatcher @ [Resource a []]" by blast
  have "matcher_match first m [] = Inr None"
    by (simp add: matcher_match_def PathComponents_for_eq candidates_of_def initial_state_def)
  with m show ?thesis by (auto simp: matcher_resources_def ResourceMatcher_def)
qed

text \<open>The number of variables does not decide first, as the comments say: of two templates that match
  a path, the common set implementation can pick the one with fewer variables.\<close>

lemma fewer_variables_win:
  "\<exists>m ts. trie_table.add_all ResourceMatcher
        (bound [Resource 1 ''/{x}/{y}/c'', Resource 2 ''/a/b/{z}'']) = Inr (None, m) \<and>
     candidate m (path_components ''/a/b/c'') ts \<and>
     length (bindings ts (path_components ''/a/b/c'')) = 2 \<and>
     (\<exists>mt. matcher_match set_begin_rb m ''/a/b/c'' = Inr (Some mt) \<and> length (parameters mt) = 1)"
proof -
  let ?r1 = "Resource 1 ''/{x}/{y}/c''" and ?r2 = "Resource 2 ''/a/b/{z}''"
  let ?t1 = "[Lit '''', Var, Var, Lit ''c'']" and ?t2 = "[Lit '''', Lit ''a'', Lit ''b'', Var]"
  let ?m = "two_routes ?r1 ?r2" and ?cs = "['''', ''a'', ''b'', ''c'']"
  have "template ''/{x}/{y}/c'' = ?t1" "template ''/a/b/{z}'' = ?t2" by code_simp+
  then have t: "template (path ?r1) = ?t1" "template (path ?r2) = ?t2" by (simp_all add: Resource_def)
  have ne: "template (path ?r1) \<noteq> template (path ?r2)" unfolding t by simp
  have cs: "path_components ''/a/b/c'' = ?cs" by code_simp
  have "candidate ?m ?cs ?t1"
    unfolding two_routes_candidate [OF ne] t by (simp add: template_matches_def)
  moreover have "\<exists>mt. matcher_match set_begin_rb ?m ''/a/b/c'' = Inr (Some mt) \<and> length (parameters mt) = 1"
  proof -
    have m: "?m = snd (projr (bind_res (addResource ResourceMatcher ?r1 (bindMethods ?r1))
        (\<lambda>(e, m1). addResource m1 ?r2 (bindMethods ?r2))))"
    proof -
      obtain m1 where m1: "addResource ResourceMatcher ?r1 (bindMethods ?r1) = Inr (None, m1)"
        using addResource_free [OF wf_ResourceMatcher, of ?r1] by (auto simp: routes_ResourceMatcher)
      have "trie_table.add_all ResourceMatcher (bound [?r1, ?r2]) =
          bind_res (addResource m1 ?r2 (bindMethods ?r2))
            (\<lambda>(e, m'). case e of Some x \<Rightarrow> Inr (Some x, m') | None \<Rightarrow> Inr (None, m'))"
        using m1 by (simp add: bound_def cong: option.case_cong)
      also have "\<dots> = addResource m1 ?r2 (bindMethods ?r2)"
        by (cases "addResource m1 ?r2 (bindMethods ?r2)") (auto split: option.splits)
      finally show ?thesis using m1 by (simp add: two_routes_def)
    qed
    have "length (parameters (the (projr (matcher_match set_begin_rb ?m ''/a/b/c'')))) = 1"
      unfolding m by code_simp
    moreover obtain mt where "matcher_match set_begin_rb ?m ''/a/b/c'' = Inr (Some mt)"
      using match_rb.match_total [of ?m "''/a/b/c''" ?t1] two_routes [OF ne] \<open>candidate ?m ?cs ?t1\<close> cs
      by auto
    ultimately show ?thesis by simp
  qed
  ultimately show ?thesis using two_routes [OF ne] by (auto simp: cs)
qed

section \<open>Requests and responses\<close>



text \<open>A message whose method is not one of the four supported ones, or whose URL does not parse, is
  answered with an internal server error that carries the message of the exception, whatever is
  registered.\<close>

theorem rejected_requests:
  assumes "url_fields_within (url_parse pf)" and "url_parse pf (url b) = None \<or> k \<notin> {0, 1, 3, 4}"
  shows "get_response pf m b k = Inr (Response INTERNAL_ERROR TEXT_PLAIN
    (if url_parse pf (url b) = None then ''Error parsing url'' else ''Invalid method''))"
proof -
  have "build (mm_ins pf) (url_parse pf) b k = Inl (Throw (Runtime_error
      (if url_parse pf (url b) = None then ''Error parsing url'' else ''Invalid method'')))"
  proof (cases "url_parse pf (url b)")
    case None
    then show ?thesis by (simp add: build_def)
  next
    case (Some f)
    obtain p where "(case path_field f of None \<Rightarrow> Inr ''/'' | Some g \<Rightarrow> string_slice (url b) g) = Inr p"
      using build_slices(1) [OF assms(1) Some] by blast
    moreover obtain q where "(case query_field f of None \<Rightarrow> Inr []
        | Some g \<Rightarrow> bind_res (string_slice (url b) g) (parseQueryParameters (mm_ins pf))) = Inr q"
      using build_slices(2) [OF assms(1) Some] by blast
    ultimately show ?thesis using Some assms(2) by (simp add: build_def convertMethod_def)
  qed
  from get_response_build_error [OF this] show ?thesis by simp
qed

theorem rejected_requests_witness:
  "get_response tree_platform hello_matcher (RequestBuilder\<lparr>url := ''/bob''\<rparr>) 2 =
     Inr (Response INTERNAL_ERROR TEXT_PLAIN ''Invalid method'')"
proof -
  have "url_fields_within (url_parse tree_platform)"
    "url_parse tree_platform (url (RequestBuilder\<lparr>url := ''/bob''\<rparr>)) \<noteq> None"
    using split_url_within by (simp_all add: tree_platform_def split_url_def Let_def)
  with rejected_requests [of tree_platform "RequestBuilder\<lparr>url := ''/bob''\<rparr>" 2]
  show ?thesis by (simp del: not_None_eq)
qed

text \<open>A request whose path no registered template matches is answered with the not-found response.\<close>

theorem unmatched_not_found:
  assumes "matcher_set (set_first pf)" and "wf_matcher m"
    and "build (mm_ins pf) (url_parse pf) b k = Inr req"
    and "\<nexists>ts. candidate m (path_components (rpath req)) ts"
  shows "get_response pf m b k = Inr notFound"
  using matcher_set.response_not_found [OF assms(1,2) refl assms(3,4)] .

theorem unmatched_not_found_witness:
  "get_response tree_platform ResourceMatcher (RequestBuilder\<lparr>url := ''/bob''\<rparr>) 1 = Inr notFound"
proof -
  have "matcher_set (set_first tree_platform)"
    using match_rb.matcher_set_axioms by (simp add: tree_platform_def)
  moreover have "split_url ''/bob'' = Some \<lparr>path_field = Some (0, 4), query_field = None\<rparr>" by code_simp
  then have "\<exists>req. build (mm_ins tree_platform) (url_parse tree_platform) (RequestBuilder\<lparr>url := ''/bob''\<rparr>) 1 = Inr req"
    by (simp add: tree_platform_def build_def convertMethod_def string_slice_def)
  moreover have "\<nexists>ts. candidate ResourceMatcher cs ts" for cs
    by (simp add: candidate_def routes_ResourceMatcher)
  ultimately show ?thesis using unmatched_not_found [OF _ wf_ResourceMatcher] by blast
qed

text \<open>A request whose path matches exactly one registered template is answered by the resource's
  method for the request: its response, or an internal server error with the message of the
  exception it (or the reading of its parameters) throws.\<close>

theorem routed_request:
  assumes "matcher_set (set_first pf)" and "wf_matcher m"
    and "build (mm_ins pf) (url_parse pf) b k = Inr req"
    and "\<And>us. candidate m (path_components (rpath req)) us \<longleftrightarrow> us = ts"
    and "routes m ts = Some (r, Some (bindMethods r))"
  shows "get_response pf m b k =
    (case dispatch_handler (method_handler r (rmethod req))
            (bindings ts (path_components (rpath req))) (uriInfo req) of
       Inl (Throw e) \<Rightarrow> Inr (Response INTERNAL_ERROR TEXT_PLAIN (what e))
     | resp \<Rightarrow> resp)"
proof -
  have "matcher_match (set_first pf) m (rpath req) =
      Inr (Some (match_of m (path_components (rpath req)) ts))"
    using matcher_set.match_single [OF assms(1,2)] assms(4) by blast
  from get_response_cases [OF assms(3) this] show ?thesis
    by (simp add: dispatch_match_of [OF assms(5)])
qed

theorem routed_request_witness:
  "get_response tree_platform hello_matcher (RequestBuilder\<lparr>url := ''/bob''\<rparr>) 4 = Inr notAllowed"
proof -
  let ?b = "RequestBuilder\<lparr>url := ''/bob''\<rparr>"
  have set: "matcher_set (set_first tree_platform)"
    using match_rb.matcher_set_axioms by (simp add: tree_platform_def)
  have "split_url ''/bob'' = Some \<lparr>path_field = Some (0, 4), query_field = None\<rparr>" by code_simp
  then obtain req where req: "build (mm_ins tree_platform) (url_parse tree_platform) ?b 4 = Inr req"
    "rpath req = ''/bob''" "rmethod req = PUT"
    by (simp add: tree_platform_def build_def convertMethod_def string_slice_def Request_def)
  have cs: "path_components ''/bob'' = ['''', ''bob'']" by code_simp
  from routed_request [OF set hello_registered(2) req(1) _ hello_user_route]
  have "get_response tree_platform hello_matcher ?b 4 =
    (case dispatch_handler (method_handler (HelloParamResource 2) PUT)
            (bindings [Lit '''', Var] ['''', ''bob'']) (uriInfo req) of
       Inl (Throw e) \<Rightarrow> Inr (Response INTERNAL_ERROR TEXT_PLAIN (what e)) | resp \<Rightarrow> resp)"
    unfolding req(2,3) cs hello_user_candidate by simp
  then show ?thesis
    by (simp add: hello_methods default_method_def dispatch_handler_eq Extractor_def)
qed

end
